(* ===== verification/Prelude.thy ===== *)
theory Prelude
  imports Main "HOL-Library.Char_ord" "HOL-Library.List_Lexorder" "HOL-Library.Multiset"
begin

text \<open>
  Facts the component theories share: the last \<open>n\<close> entries of a list (the shape of every
  bounded log of the program), insertion into and sorting of lists by a comparison function
  (Go's \<^verbatim>\<open>sort.Slice\<close> and \<^verbatim>\<open>sort.SliceStable\<close>), and the two interfaces
  \<open>tail_buffer\<close> and \<open>strict_weak\<close> that the components interpret.
  The collections \<open>go_std\<close>, \<open>io_defs\<close> and \<open>frame\<close> gather the equations, the definitions of
  the file-system effects and the frame facts the component proofs unfold.
\<close>

named_theorems go_std
  "equations of the modelled parts of the Go standard library"

named_theorems io_defs
  "definitions of the effects on the modelled operating system"

named_theorems frame
  "what an operation leaves unchanged"

subsection \<open>The last entries of a list\<close>

definition lastn :: "nat \<Rightarrow> 'a list \<Rightarrow> 'a list" where
  "lastn n xs = drop (length xs - n) xs"

lemma length_lastn [simp]: "length (lastn n xs) = min n (length xs)"
  by (simp add: lastn_def)

lemma lastn_all [simp]: "length xs \<le> n \<Longrightarrow> lastn n xs = xs"
  by (simp add: lastn_def)

lemma lastn_Nil [simp]: "lastn n [] = []"
  by (simp add: lastn_def)

lemma lastn_0 [simp]: "lastn 0 xs = []"
  by (simp add: lastn_def)

lemma set_lastn: "set (lastn n xs) \<subseteq> set xs"
  by (auto simp: lastn_def dest: in_set_dropD)

lemma lastn_append_absorb: "lastn n (lastn n xs @ ys) = lastn n (xs @ ys)"
  by (cases "length xs \<le> n") (auto simp: lastn_def add.commute)

lemma lastn_lastn [simp]: "lastn m (lastn n xs) = lastn (min m n) xs"
  by (cases "n \<le> length xs"; cases "m \<le> n") (auto simp: lastn_def min_def)

lemma lastn_Suc_snoc: "lastn (Suc n) (xs @ [x]) = lastn n xs @ [x]"
  by (simp add: lastn_def)

lemma nth_lastn: "i < min n (length xs) \<Longrightarrow> lastn n xs ! i = xs ! (length xs - min n (length xs) + i)"
  by (cases "n \<le> length xs") (auto simp: lastn_def)

subsection \<open>Bounded logs\<close>

text \<open>
  The contract of a bounded append-only log: \<open>add\<close> keeps the newest \<open>cap\<close> entries, oldest
  first. Several components keep such a log; each interprets this locale on its own state.
\<close>

locale tail_buffer =
  fixes add :: "'a \<Rightarrow> 's \<Rightarrow> 's"
    and items :: "'s \<Rightarrow> 'a list"
    and cap :: "nat"
    and inv :: "'s \<Rightarrow> bool"
  assumes items_add: "inv s \<Longrightarrow> items (add x s) = lastn cap (items s @ [x])"
    and inv_add: "inv s \<Longrightarrow> inv (add x s)"
    and items_cap: "inv s \<Longrightarrow> length (items s) \<le> cap"
    and cap_pos: "0 < cap"
begin

lemma inv_fold: "inv s \<Longrightarrow> inv (fold add xs s)"
  by (induction xs arbitrary: s) (auto intro: inv_add)

lemma items_fold: "inv s \<Longrightarrow> items (fold add xs s) = lastn cap (items s @ xs)"
proof (induction xs arbitrary: s)
  case Nil
  then show ?case by (simp add: items_cap)
next
  case (Cons x xs)
  have "items (fold add (x # xs) s) = lastn cap (items (add x s) @ xs)"
    using Cons by (simp add: inv_add)
  also have "\<dots> = lastn cap ((items s @ [x]) @ xs)"
    using Cons.prems by (simp add: items_add lastn_append_absorb)
  finally show ?case by simp
qed

lemma length_fold: "inv s \<Longrightarrow> length (items (fold add xs s)) = min cap (length (items s) + length xs)"
  by (simp add: items_fold)

lemma newest_last: "inv s \<Longrightarrow> last (items (add x s)) = x \<and> items (add x s) \<noteq> []"
  using cap_pos by (cases cap) (auto simp: items_add lastn_Suc_snoc)

end

subsection \<open>Sorting by a comparison function\<close>

text \<open>
  A stable insertion sort: the result of \<^verbatim>\<open>sort.SliceStable\<close> for every strict weak order,
  and of \<^verbatim>\<open>sort.Slice\<close> whenever the order is total on the entries (\<open>sort_by_unique\<close>).
\<close>

primrec insert_by :: "('a \<Rightarrow> 'a \<Rightarrow> bool) \<Rightarrow> 'a \<Rightarrow> 'a list \<Rightarrow> 'a list" where
  "insert_by lt x [] = [x]"
| "insert_by lt x (y # ys) = (if lt y x then y # insert_by lt x ys else x # y # ys)"

primrec sort_by :: "('a \<Rightarrow> 'a \<Rightarrow> bool) \<Rightarrow> 'a list \<Rightarrow> 'a list" where
  "sort_by lt [] = []"
| "sort_by lt (x # xs) = insert_by lt x (sort_by lt xs)"

lemma mset_insert_by [simp]: "mset (insert_by lt x xs) = add_mset x (mset xs)"
  by (induction xs) auto

lemma mset_sort_by [simp]: "mset (sort_by lt xs) = mset xs"
  by (induction xs) auto

lemma set_sort_by [simp]: "set (sort_by lt xs) = set xs"
  by (metis mset_sort_by set_mset_mset)

lemma length_sort_by [simp]: "length (sort_by lt xs) = length xs"
  by (metis mset_sort_by size_mset)

lemma distinct_sort_by [simp]: "distinct (sort_by lt xs) = distinct xs"
  by (metis mset_sort_by mset_eq_imp_distinct_iff)

lemma sort_by_Nil_iff [simp]: "sort_by lt xs = [] \<longleftrightarrow> xs = []"
  by (metis length_0_conv length_sort_by)

lemma mset_map_sort_by [simp]: "mset (map f (sort_by lt xs)) = mset (map f xs)"
  by simp

lemma sum_list_sort_by [simp]: "sum_list (map f (sort_by lt xs)) = sum_list (map (f :: 'a \<Rightarrow> int) xs)"
  by (metis mset_map_sort_by sum_mset_sum_list)

text \<open>The interface: what every comparison function handed to \<^verbatim>\<open>sort\<close> must satisfy.\<close>

locale strict_weak =
  fixes lt :: "'a \<Rightarrow> 'a \<Rightarrow> bool"
  assumes irrefl: "\<not> lt x x"
    and trans: "lt x y \<Longrightarrow> lt y z \<Longrightarrow> lt x z"
    and neg_trans: "lt x z \<Longrightarrow> lt x y \<or> lt y z"
begin

lemma asym: "lt x y \<Longrightarrow> \<not> lt y x"
  using irrefl trans by blast

lemma not_less_trans: "\<not> lt y x \<Longrightarrow> \<not> lt z y \<Longrightarrow> \<not> lt z x"
  using neg_trans by blast

abbreviation ordered :: "'a list \<Rightarrow> bool" where
  "ordered \<equiv> sorted_wrt (\<lambda>x y. \<not> lt y x)"

lemma set_insert_by: "set (insert_by lt x xs) = insert x (set xs)"
  by (induction xs) auto

lemma ordered_insert_by: "ordered xs \<Longrightarrow> ordered (insert_by lt x xs)"
proof (induction xs)
  case Nil
  then show ?case by simp
next
  case (Cons y ys)
  show ?case
  proof (cases "lt y x")
    case True
    then show ?thesis using Cons asym by (auto simp: set_insert_by)
  next
    case False
    then show ?thesis using Cons.prems by (auto dest: neg_trans [of _ x y])
  qed
qed

lemma ordered_sort_by: "ordered (sort_by lt xs)"
  by (induction xs) (auto intro: ordered_insert_by)

lemma hd_sort_by: "x \<in> set xs \<Longrightarrow> \<not> lt x (hd (sort_by lt xs))"
proof (cases "sort_by lt xs")
  case Nil
  moreover assume "x \<in> set xs"
  ultimately show ?thesis by simp
next
  case (Cons z zs)
  assume "x \<in> set xs"
  then have "x = z \<or> x \<in> set zs"
    using Cons by (metis set_ConsD set_sort_by)
  moreover have "\<forall>y\<in>set zs. \<not> lt y z"
    using ordered_sort_by [of xs] Cons by simp
  ultimately show ?thesis using Cons irrefl by auto
qed

text \<open>On entries that the order tells apart, the sorted list depends on the entries only.\<close>

lemma ordered_unique:
  assumes "mset xs = mset ys" and "ordered xs" and "ordered ys"
    and "\<And>x y. x \<in> set xs \<Longrightarrow> y \<in> set xs \<Longrightarrow> x \<noteq> y \<Longrightarrow> lt x y \<or> lt y x"
  shows "xs = ys"
  using assms
proof (induction xs arbitrary: ys)
  case Nil
  then show ?case by simp
next
  case (Cons x xs)
  then obtain y ys' where ys: "ys = y # ys'"
    by (cases ys) auto
  have sets: "set (x # xs) = set ys"
    using Cons.prems(1) by (metis set_mset_mset)
  have "x = y"
  proof (rule ccontr)
    assume ne: "x \<noteq> y"
    then have "y \<in> set xs" and "x \<in> set ys'"
      using sets ys by auto
    then have "\<not> lt y x" and "\<not> lt x y"
      using Cons.prems(2,3) ys by auto
    then show False
      using Cons.prems(4) ne sets ys by auto
  qed
  then show ?case
    using Cons ys by auto
qed

lemma sort_by_unique:
  assumes "mset xs = mset ys"
    and "\<And>x y. x \<in> set xs \<Longrightarrow> y \<in> set xs \<Longrightarrow> x \<noteq> y \<Longrightarrow> lt x y \<or> lt y x"
  shows "sort_by lt xs = sort_by lt ys"
  using assms by (intro ordered_unique) (auto intro: ordered_sort_by)

lemma sort_by_id: "ordered xs \<Longrightarrow> sort_by lt xs = xs"
proof (induction xs)
  case Nil
  then show ?case by simp
next
  case (Cons x xs)
  then show ?case by (cases xs) auto
qed

lemma sort_by_idem: "sort_by lt (sort_by lt xs) = sort_by lt xs"
  by (rule sort_by_id) (rule ordered_sort_by)

end

text \<open>A comparison that reads a key into a linear order is a strict weak order.\<close>

locale key_order =
  fixes lt :: "'a \<Rightarrow> 'a \<Rightarrow> bool"
    and key :: "'a \<Rightarrow> 'k::linorder"
  assumes lt_key: "lt x y \<longleftrightarrow> key x < key y"

sublocale key_order \<subseteq> strict_weak lt
  by unfold_locales (auto simp: lt_key)

context key_order begin

lemma sorted_keys: "sorted (map key (sort_by lt xs))"
  using ordered_sort_by [of xs] by (simp add: sorted_wrt_map lt_key not_less)

lemma apart_if_keys_differ: "key x \<noteq> key y \<Longrightarrow> lt x y \<or> lt y x"
  unfolding lt_key by (metis neq_iff)

end

subsection \<open>Options and sums\<close>

definition is_ok :: "'e + 'a \<Rightarrow> bool" where
  "is_ok r = (case r of Inl _ \<Rightarrow> False | Inr _ \<Rightarrow> True)"

lemma is_ok_simps [simp]: "is_ok (Inr x)" "\<not> is_ok (Inl e)"
  by (simp_all add: is_ok_def)

lemma is_ok_iff: "is_ok r \<longleftrightarrow> (\<exists>x. r = Inr x)"
  by (cases r) auto

end
