(* ===== verification/Go_Std.thy ===== *)
theory Go_Std
  imports Prelude
begin

text \<open>
  The parts of the Go language and standard library that the modelled code uses: strings as
  lists of bytes (\<^verbatim>\<open>strings\<close>), decimal conversion (\<^verbatim>\<open>strconv\<close>), instants and durations
  (\<^verbatim>\<open>time\<close>), and error values (\<^verbatim>\<open>errors\<close>, \<^verbatim>\<open>fmt.Errorf\<close>).

  Case folding and white space are those of the ASCII range; Go's Unicode tables for bytes
  outside it are not modelled, so such bytes are left as they are. An instant is the number of
  nanoseconds since Go's zero time, so that \<^verbatim>\<open>IsZero\<close> is equality with 0; the
  monotonic-clock reading is not modelled. A difference of instants saturates at the bounds
  of a 64-bit duration, as \<^verbatim>\<open>Time.Sub\<close> does.
\<close>

subsection \<open>Characters\<close>

definition byte_of :: "char \<Rightarrow> nat" where
  "byte_of c = of_char c"

definition is_space :: "char \<Rightarrow> bool" where
  "is_space c \<longleftrightarrow> byte_of c \<in> {9, 10, 11, 12, 13, 32}"

definition is_digit :: "char \<Rightarrow> bool" where
  "is_digit c \<longleftrightarrow> 48 \<le> byte_of c \<and> byte_of c \<le> 57"

definition is_lower :: "char \<Rightarrow> bool" where
  "is_lower c \<longleftrightarrow> 97 \<le> byte_of c \<and> byte_of c \<le> 122"

definition is_upper :: "char \<Rightarrow> bool" where
  "is_upper c \<longleftrightarrow> 65 \<le> byte_of c \<and> byte_of c \<le> 90"

definition is_alnum :: "char \<Rightarrow> bool" where
  "is_alnum c \<longleftrightarrow> is_lower c \<or> is_upper c \<or> is_digit c"

definition lower_char :: "char \<Rightarrow> char" where
  "lower_char c = (if is_upper c then char_of (byte_of c + 32) else c)"

definition upper_char :: "char \<Rightarrow> char" where
  "upper_char c = (if is_lower c then char_of (byte_of c - 32) else c)"

lemma byte_of_bound: "byte_of c < 256"
  by (simp add: byte_of_def)

lemma byte_of_lower: "byte_of (lower_char c) = (if is_upper c then byte_of c + 32 else byte_of c)"
  by (auto simp: lower_char_def byte_of_def is_upper_def of_char_of)

lemma lower_char_idem [simp]: "lower_char (lower_char c) = lower_char c"
  by (auto simp: lower_char_def [of "lower_char c"] is_upper_def byte_of_lower split: if_splits)

lemma byte_of_upper: "byte_of (upper_char c) = (if is_lower c then byte_of c - 32 else byte_of c)"
  by (auto simp: upper_char_def byte_of_def is_lower_def of_char_of)

lemma upper_char_idem [simp]: "upper_char (upper_char c) = upper_char c"
  by (auto simp: upper_char_def [of "upper_char c"] is_lower_def byte_of_upper split: if_splits)

lemma is_space_lower [simp]: "is_space (lower_char c) = is_space c"
  by (auto simp: is_space_def byte_of_lower is_upper_def)

lemma is_space_upper [simp]: "is_space (upper_char c) = is_space c"
  by (auto simp: is_space_def byte_of_upper is_lower_def)

subsection \<open>Strings\<close>

definition to_lower :: "string \<Rightarrow> string" where
  "to_lower s = map lower_char s"

definition to_upper :: "string \<Rightarrow> string" where
  "to_upper s = map upper_char s"

definition equal_fold :: "string \<Rightarrow> string \<Rightarrow> bool" where
  "equal_fold s t \<longleftrightarrow> to_lower s = to_lower t"

definition trim_left :: "(char \<Rightarrow> bool) \<Rightarrow> string \<Rightarrow> string" where
  "trim_left p s = dropWhile p s"

definition trim_right :: "(char \<Rightarrow> bool) \<Rightarrow> string \<Rightarrow> string" where
  "trim_right p s = rev (dropWhile p (rev s))"

definition trim_space :: "string \<Rightarrow> string" where
  "trim_space s = trim_right is_space (trim_left is_space s)"

definition has_prefix :: "string \<Rightarrow> string \<Rightarrow> bool" where
  "has_prefix s p \<longleftrightarrow> take (length p) s = p"

definition has_suffix :: "string \<Rightarrow> string \<Rightarrow> bool" where
  "has_suffix s p \<longleftrightarrow> length p \<le> length s \<and> drop (length s - length p) s = p"

definition trim_prefix :: "string \<Rightarrow> string \<Rightarrow> string" where
  "trim_prefix s p = (if has_prefix s p then drop (length p) s else s)"

definition trim_suffix :: "string \<Rightarrow> string \<Rightarrow> string" where
  "trim_suffix s p = (if has_suffix s p then take (length s - length p) s else s)"

fun contains_str :: "string \<Rightarrow> string \<Rightarrow> bool" where
  "contains_str [] sub \<longleftrightarrow> sub = []"
| "contains_str (c # s) sub \<longleftrightarrow> has_prefix (c # s) sub \<or> contains_str s sub"

definition contains_any :: "string \<Rightarrow> string \<Rightarrow> bool" where
  "contains_any s cs \<longleftrightarrow> list_ex (\<lambda>c. c \<in> set cs) s"

fun split_char :: "char \<Rightarrow> string \<Rightarrow> string list" where
  "split_char c [] = [[]]"
| "split_char c (x # xs) =
     (if x = c then [] # split_char c xs
      else (case split_char c xs of [] \<Rightarrow> [[x]] | y # ys \<Rightarrow> (x # y) # ys))"

fun join :: "string \<Rightarrow> string list \<Rightarrow> string" where
  "join sep [] = []"
| "join sep [x] = x"
| "join sep (x # y # ys) = x @ sep @ join sep (y # ys)"

function fields_func :: "(char \<Rightarrow> bool) \<Rightarrow> string \<Rightarrow> string list" where
  "fields_func p s =
     (let t = dropWhile p s in
      if t = [] then []
      else takeWhile (\<lambda>c. \<not> p c) t # fields_func p (dropWhile (\<lambda>c. \<not> p c) t))"
  by pat_completeness auto
termination
proof (relation "measure (\<lambda>(p, s). length s)")
  show "wf (measure (\<lambda>(p :: char \<Rightarrow> bool, s :: string). length s))"
    by simp
next
  fix p :: "char \<Rightarrow> bool" and s t :: string
  assume t: "t = dropWhile p s" and ne: "t \<noteq> []"
  from ne obtain c cs where cs: "t = c # cs" by (meson neq_Nil_conv)
  have "\<not> p c"
    using cs t by (metis hd_dropWhile list.sel(1) ne)
  then have "length (dropWhile (\<lambda>c. \<not> p c) t) < length t"
    using cs by (simp add: length_dropWhile_le less_Suc_eq_le)
  also have "length t \<le> length s"
    using t by (simp add: length_dropWhile_le)
  finally show "((p, dropWhile (\<lambda>c. \<not> p c) t), (p, s)) \<in> measure (\<lambda>(p, s). length s)"
    by simp
qed

declare fields_func.simps [simp del]

definition fields :: "string \<Rightarrow> string list" where
  "fields s = fields_func is_space s"

lemma to_lower_simps [simp]:
  "to_lower [] = []" "to_lower (c # s) = lower_char c # to_lower s"
  "to_lower (s @ t) = to_lower s @ to_lower t" "length (to_lower s) = length s"
  "to_lower (to_lower s) = to_lower s" "to_lower s = [] \<longleftrightarrow> s = []"
  by (auto simp: to_lower_def)

lemma to_upper_simps [simp]:
  "to_upper [] = []" "to_upper (to_upper s) = to_upper s" "to_upper s = [] \<longleftrightarrow> s = []"
  by (auto simp: to_upper_def)

lemma equal_fold_refl [simp]: "equal_fold s s"
  by (simp add: equal_fold_def)

lemma equal_fold_sym: "equal_fold s t \<Longrightarrow> equal_fold t s"
  by (simp add: equal_fold_def)

lemma dropWhile_idem [simp]: "dropWhile p (dropWhile p xs) = dropWhile p xs"
  by (induction xs) auto

lemma dropWhile_map_is_space:
  "(\<And>c. is_space (f c) = is_space c) \<Longrightarrow>
   dropWhile is_space (map f xs) = map f (dropWhile is_space xs)"
  by (induction xs) auto

lemma trim_right_empty_iff: "trim_right p s = [] \<longleftrightarrow> (\<forall>c\<in>set s. p c)"
  by (simp add: trim_right_def dropWhile_eq_Nil_conv)

lemma hd_trim_right: "trim_right p s \<noteq> [] \<Longrightarrow> hd (trim_right p s) = hd s"
proof -
  assume ne: "trim_right p s \<noteq> []"
  have "rev (takeWhile p (rev s)) = [] \<or> True" by simp
  have "s = trim_right p s @ rev (takeWhile p (rev s))"
    unfolding trim_right_def by (metis rev_append rev_rev_ident takeWhile_dropWhile_id)
  then show ?thesis using ne by (metis hd_append2)
qed

lemma trim_space_first: "trim_space s \<noteq> [] \<Longrightarrow> \<not> is_space (hd (trim_space s))"
proof -
  assume ne: "trim_space s \<noteq> []"
  then have "trim_left is_space s \<noteq> []"
    by (auto simp: trim_space_def trim_right_def)
  then have "\<not> is_space (hd (trim_left is_space s))"
    unfolding trim_left_def by (rule hd_dropWhile)
  then show ?thesis
    using ne unfolding trim_space_def by (simp add: hd_trim_right)
qed

lemma trim_left_id: "s = [] \<or> \<not> p (hd s) \<Longrightarrow> trim_left p s = s"
  by (cases s) (auto simp: trim_left_def)

lemma trim_right_idem [simp]: "trim_right p (trim_right p s) = trim_right p s"
  by (simp add: trim_right_def)

lemma trim_space_idem [simp]: "trim_space (trim_space s) = trim_space s"
proof -
  have "trim_left is_space (trim_space s) = trim_space s"
    using trim_space_first by (intro trim_left_id) blast
  then show ?thesis
    by (simp add: trim_space_def)
qed

lemma trim_space_Nil [simp]: "trim_space [] = []"
  by (simp add: trim_space_def trim_left_def trim_right_def)

lemma trim_space_lower [simp]: "trim_space (to_lower s) = to_lower (trim_space s)"
  unfolding trim_space_def trim_left_def trim_right_def to_lower_def
  by (simp add: dropWhile_map_is_space rev_map)

lemma trim_space_upper [simp]: "trim_space (to_upper s) = to_upper (trim_space s)"
  unfolding trim_space_def trim_left_def trim_right_def to_upper_def
  by (simp add: dropWhile_map_is_space rev_map)

lemma trim_right_id: "s = [] \<or> \<not> p (last s) \<Longrightarrow> trim_right p s = s"
  by (cases s rule: rev_cases) (auto simp: trim_right_def)

lemma trim_right_last: "trim_right p s \<noteq> [] \<Longrightarrow> \<not> p (last (trim_right p s))"
proof -
  assume ne: "trim_right p s \<noteq> []"
  then have "dropWhile p (rev s) \<noteq> []" by (simp add: trim_right_def)
  then have "\<not> p (hd (dropWhile p (rev s)))" by (rule hd_dropWhile)
  then show ?thesis using ne by (simp add: trim_right_def last_rev)
qed

lemma trim_space_last: "trim_space s \<noteq> [] \<Longrightarrow> \<not> is_space (last (trim_space s))"
  unfolding trim_space_def by (rule trim_right_last)

lemma trim_space_id: "s = [] \<or> (\<not> is_space (hd s) \<and> \<not> is_space (last s)) \<Longrightarrow> trim_space s = s"
  by (auto simp: trim_space_def trim_left_id trim_right_id)

lemma length_trim_space: "length (trim_space s) \<le> length s"
  unfolding trim_space_def trim_left_def trim_right_def
  by (metis le_trans length_dropWhile_le length_rev)

lemma set_trim_space: "set (trim_space s) \<subseteq> set s"
  unfolding trim_space_def trim_left_def trim_right_def
  by (auto dest!: set_dropWhileD)

lemma has_prefix_append [simp]: "has_prefix (p @ s) p"
  by (simp add: has_prefix_def)

lemma has_prefix_iff: "has_prefix s p \<longleftrightarrow> (\<exists>t. s = p @ t)"
  by (metis append_take_drop_id has_prefix_append has_prefix_def)

lemma has_suffix_iff: "has_suffix s p \<longleftrightarrow> (\<exists>t. s = t @ p)"
proof
  assume "has_suffix s p"
  then have "s = take (length s - length p) s @ p"
    unfolding has_suffix_def by (metis append_take_drop_id)
  then show "\<exists>t. s = t @ p" ..
qed (auto simp: has_suffix_def)

lemma trim_prefix_append [simp]: "trim_prefix (p @ s) p = s"
  by (simp add: trim_prefix_def)

lemma contains_str_iff: "contains_str s sub \<longleftrightarrow> (\<exists>a b. s = a @ sub @ b)"
proof (induction s)
  case Nil
  then show ?case by simp
next
  case (Cons c s)
  show ?case
    by (auto simp: Cons.IH has_prefix_iff) (metis append_Cons append_Nil append_eq_Cons_conv)+
qed

subsection \<open>Splitting and joining\<close>

lemma split_char_not_Nil [simp]: "split_char c s \<noteq> []"
  by (induction s) (auto split: list.splits)

lemma split_char_no_sep: "p \<in> set (split_char c s) \<Longrightarrow> c \<notin> set p"
  by (induction s arbitrary: p) (auto split: list.splits if_splits)

lemma split_char_id: "c \<notin> set s \<Longrightarrow> split_char c s = [s]"
  by (induction s) auto

lemma split_char_append: "c \<notin> set x \<Longrightarrow> split_char c (x @ c # s) = x # split_char c s"
  by (induction x) auto

lemma split_char_join:
  "\<lbrakk>xs \<noteq> []; \<forall>x\<in>set xs. c \<notin> set x\<rbrakk> \<Longrightarrow> split_char c (join [c] xs) = xs"
  by (induction "[c]" xs rule: join.induct) (auto simp: split_char_id split_char_append)

lemma join_split_char: "join [c] (split_char c s) = s"
proof (induction s)
  case Nil
  then show ?case by simp
next
  case (Cons x s)
  obtain y ys where ys: "split_char c s = y # ys"
    by (cases "split_char c s") auto
  then show ?case
    using Cons by (cases ys) auto
qed

lemma join_Cons: "xs \<noteq> [] \<Longrightarrow> join sep (x # xs) = x @ sep @ join sep xs"
  by (cases xs) auto

lemma set_join: "set (join sep xs) \<subseteq> set sep \<union> (\<Union>x\<in>set xs. set x)"
  by (induction sep xs rule: join.induct) auto

subsection \<open>Decimal numbers\<close>

definition digit_char :: "nat \<Rightarrow> char" where
  "digit_char d = char_of (48 + d)"

definition digit_value :: "char \<Rightarrow> nat" where
  "digit_value c = byte_of c - 48"

fun nat_digits :: "nat \<Rightarrow> string" where
  "nat_digits n = (if n < 10 then [digit_char n] else nat_digits (n div 10) @ [digit_char (n mod 10)])"

declare nat_digits.simps [simp del]

definition itoa :: "int \<Rightarrow> string" where
  "itoa n = (if n < 0 then CHR ''-'' # nat_digits (nat (- n)) else nat_digits (nat n))"

definition digits_value :: "string \<Rightarrow> nat" where
  "digits_value s = foldl (\<lambda>a c. 10 * a + digit_value c) 0 s"

definition max_int64 :: "int" where
  "max_int64 = 9223372036854775807"

text \<open>\<^verbatim>\<open>strconv.Atoi\<close>: an optional sign, then at least one digit; out of range is an error.\<close>

definition atoi :: "string \<Rightarrow> int option" where
  "atoi s =
     (let neg = (case s of c # _ \<Rightarrow> c = CHR ''-'' | [] \<Rightarrow> False);
          d = (case s of c # t \<Rightarrow> if c = CHR ''-'' \<or> c = CHR ''+'' then t else s | [] \<Rightarrow> [])
      in if d = [] \<or> \<not> list_all is_digit d then None
         else (let v = (if neg then - int (digits_value d) else int (digits_value d))
               in if - max_int64 - 1 \<le> v \<and> v \<le> max_int64 then Some v else None))"

lemma digit_char_byte: "d < 10 \<Longrightarrow> byte_of (digit_char d) = 48 + d"
  by (simp add: digit_char_def byte_of_def of_char_of)

lemma digit_value_char [simp]: "d < 10 \<Longrightarrow> digit_value (digit_char d) = d"
  by (simp add: digit_value_def digit_char_byte)

lemma is_digit_char [simp]: "d < 10 \<Longrightarrow> is_digit (digit_char d)"
  by (simp add: is_digit_def digit_char_byte)

lemma nat_digits_digits: "list_all is_digit (nat_digits n)"
  by (induction n rule: nat_digits.induct) (subst nat_digits.simps, auto)

lemma nat_digits_not_Nil [simp]: "nat_digits n \<noteq> []"
  by (subst nat_digits.simps) auto

lemma digits_value_snoc: "digits_value (s @ [c]) = 10 * digits_value s + digit_value c"
  by (simp add: digits_value_def)

lemma digits_value_nat_digits [simp]: "digits_value (nat_digits n) = n"
proof (induction n rule: nat_digits.induct)
  case (1 n)
  show ?case
  proof (cases "n < 10")
    case True
    then show ?thesis by (subst nat_digits.simps) (simp add: digits_value_def)
  next
    case False
    with 1 show ?thesis by (subst nat_digits.simps) (simp add: digits_value_snoc)
  qed
qed

lemma is_digit_not_sign: "is_digit c \<Longrightarrow> c \<noteq> CHR ''-'' \<and> c \<noteq> CHR ''+''"
  by (auto simp: is_digit_def byte_of_def)

lemma atoi_itoa: "0 \<le> n \<Longrightarrow> n \<le> max_int64 \<Longrightarrow> atoi (itoa n) = Some n"
proof -
  assume n: "0 \<le> n" "n \<le> max_int64"
  obtain c s where cs: "nat_digits (nat n) = c # s"
    by (cases "nat_digits (nat n)") auto
  have dig: "list_all is_digit (c # s)"
    using nat_digits_digits [of "nat n"] cs by simp
  then have "c \<noteq> CHR ''-''" and "c \<noteq> CHR ''+''"
    using is_digit_not_sign by auto
  moreover have "digits_value (c # s) = nat n"
    using digits_value_nat_digits [of "nat n"] cs by simp
  ultimately show ?thesis
    using n cs dig by (auto simp: atoi_def itoa_def Let_def max_int64_def)
qed

lemma itoa_inj: "\<lbrakk>0 \<le> m; 0 \<le> n; itoa m = itoa n\<rbrakk> \<Longrightarrow> m = n"
  by (metis digits_value_nat_digits itoa_def linorder_not_less nat_eq_iff2)

subsection \<open>Instants and durations\<close>

type_synonym time = int
type_synonym duration = int

definition second :: "duration" where
  "second = 1000000000"

definition zero_time :: "time" where
  "zero_time = 0"

definition is_zero :: "time \<Rightarrow> bool" where
  "is_zero t \<longleftrightarrow> t = zero_time"

text \<open>\<^verbatim>\<open>t.Sub(u)\<close>: the difference, saturated to a 64-bit duration.\<close>

definition time_sub :: "time \<Rightarrow> time \<Rightarrow> duration" where
  "time_sub t u = max (- max_int64 - 1) (min max_int64 (t - u))"

lemma time_sub_less_iff: "- max_int64 - 1 < d \<Longrightarrow> time_sub t u < d \<longleftrightarrow> t - u < d \<or> max_int64 < d"
  by (auto simp: time_sub_def)

lemma time_sub_gt_iff: "d < max_int64 \<Longrightarrow> - max_int64 - 1 \<le> d \<Longrightarrow> d < time_sub t u \<longleftrightarrow> d < t - u"
  by (auto simp: time_sub_def)

lemma time_sub_ge_iff: "d \<le> max_int64 \<Longrightarrow> - max_int64 - 1 < d \<Longrightarrow> d \<le> time_sub t u \<longleftrightarrow> d \<le> t - u"
  by (auto simp: time_sub_def)

text \<open>The verb \<^verbatim>\<open>%q\<close> on a byte string (bytes from 128 on are left as they are).\<close>

definition hex_char :: "nat \<Rightarrow> char" where
  "hex_char d = (if d < 10 then char_of (48 + d) else char_of (87 + d))"

definition quote_char :: "char \<Rightarrow> string" where
  "quote_char c =
     (let b = byte_of c; bs = CHR 0x5C in
      if b = 34 \<or> b = 92 then [bs, c]
      else if b = 7 then [bs, CHR ''a''] else if b = 8 then [bs, CHR ''b'']
      else if b = 9 then [bs, CHR ''t''] else if b = 10 then [bs, CHR ''n'']
      else if b = 11 then [bs, CHR ''v''] else if b = 12 then [bs, CHR ''f'']
      else if b = 13 then [bs, CHR ''r'']
      else if b < 32 \<or> b = 127 then [bs, CHR ''x'', hex_char (b div 16), hex_char (b mod 16)]
      else [c])"

definition quoted :: "string \<Rightarrow> string" where
  "quoted s = CHR 0x22 # concat (map quote_char s) @ [CHR 0x22]"

text \<open>Hexadecimal digits in lower case, as \<^verbatim>\<open>hex.EncodeToString\<close> writes them.\<close>

definition is_hex :: "char \<Rightarrow> bool" where
  "is_hex c \<longleftrightarrow> is_digit c \<or> (97 \<le> byte_of c \<and> byte_of c \<le> 102)"

text \<open>\<^verbatim>\<open>UnixNano\<close> counts from 1970; the zero time is 62135596800 seconds earlier.\<close>

definition unix_nano :: "time \<Rightarrow> int" where
  "unix_nano t = t - 62135596800 * second"

subsection \<open>Error values\<close>

text \<open>
  An error is one of the sentinels the code tests with \<^verbatim>\<open>errors.Is\<close>, a message made with
  \<^verbatim>\<open>errors.New\<close>, or a message before or after a wrapped error (\<^verbatim>\<open>fmt.Errorf\<close> with \<open>%w\<close> at the
  end or at the start of the format).
\<close>

datatype go_error =
    ErrNotExist
  | ErrExist
  | ErrIO
  | Msg string
  | Wrap string go_error
  | Note go_error string

fun error_text :: "go_error \<Rightarrow> string" where
  "error_text ErrNotExist = ''file does not exist''"
| "error_text ErrExist = ''file already exists''"
| "error_text ErrIO = ''input/output error''"
| "error_text (Msg s) = s"
| "error_text (Wrap s e) = s @ error_text e"
| "error_text (Note e s) = error_text e @ s"

fun is_not_exist :: "go_error \<Rightarrow> bool" where
  "is_not_exist ErrNotExist = True"
| "is_not_exist (Wrap s e) = is_not_exist e"
| "is_not_exist (Note e s) = is_not_exist e"
| "is_not_exist _ = False"

end
