(* ===== verification/Transaction.thy ===== *)
theory Transaction
  imports Go_Std
begin

text \<open>
  \<^verbatim>\<open>internal/platform/transaction\<close>: the manifest of a guarded change, its state machine and its
  bounded evidence log. The clock is an argument: \<open>now\<close> is what \<^verbatim>\<open>time.Now().UTC()\<close> returned.
  Values are immutable here, so \<^verbatim>\<open>Clone\<close> and \<^verbatim>\<open>cloneDetails\<close>, whose point is that the copy does
  not share memory, are the identity on the values.
\<close>

datatype tx_state =
    Precheck | Snapshot | Validated | Applied | Verified
  | Committed | RolledBack | Ambiguous | Failed
  | OtherState string

fun state_text :: "tx_state \<Rightarrow> string" where
  "state_text Precheck = ''precheck''"
| "state_text Snapshot = ''snapshot''"
| "state_text Validated = ''validated''"
| "state_text Applied = ''applied''"
| "state_text Verified = ''verified''"
| "state_text Committed = ''committed''"
| "state_text RolledBack = ''rolled-back''"
| "state_text Ambiguous = ''ambiguous''"
| "state_text Failed = ''failed''"
| "state_text (OtherState s) = s"

datatype evidence_status = EvidenceInfo | EvidencePassed | EvidenceFailed | EvidenceRecovered

definition max_evidence :: "nat" where
  "max_evidence = 64"

record evidence =
  ev_time :: time
  ev_stage :: string
  ev_status :: evidence_status
  ev_message :: string
  ev_details :: "(string \<times> string) list"

record manifest =
  mf_id :: string
  mf_component :: string
  mf_state :: tx_state
  mf_started :: time
  mf_updated :: time
  mf_artifacts :: "string list"
  mf_evidence :: "evidence list"
  mf_error :: string

subsection \<open>Evidence\<close>

text \<open>A full log keeps its first entry, drops the second and appends the new one.\<close>

definition make_room :: "'a list \<Rightarrow> 'a list" where
  "make_room es = (if length es \<ge> max_evidence then take 1 es @ drop 2 es else es)"

definition tx_record ::
    "time \<Rightarrow> string \<Rightarrow> evidence_status \<Rightarrow> string \<Rightarrow> (string \<times> string) list \<Rightarrow> manifest \<Rightarrow> manifest" where
  "tx_record now stage status message details m =
     (let entry = \<lparr>ev_time = now, ev_stage = trim_space stage, ev_status = status,
                   ev_message = trim_space message, ev_details = details\<rparr>
      in m\<lparr>mf_evidence := make_room (mf_evidence m) @ [entry], mf_updated := now\<rparr>)"

definition tx_record_failure ::
    "time \<Rightarrow> string \<Rightarrow> go_error option \<Rightarrow> (string \<times> string) list \<Rightarrow> manifest \<Rightarrow> manifest" where
  "tx_record_failure now stage err details m =
     (case err of
        None \<Rightarrow> m
      | Some e \<Rightarrow> tx_record now stage EvidenceFailed (error_text e) details (m\<lparr>mf_error := error_text e\<rparr>))"

definition tx_new :: "time \<Rightarrow> string \<Rightarrow> string \<Rightarrow> string list \<Rightarrow> manifest" where
  "tx_new now ident component artifacts =
     (let i = trim_space ident;
          i' = (if i = [] then ''tx-'' @ itoa (unix_nano now) else i);
          m = \<lparr>mf_id = i', mf_component = trim_space component, mf_state = Precheck,
               mf_started = now, mf_updated = now, mf_artifacts = artifacts,
               mf_evidence = [], mf_error = []\<rparr>
      in tx_record now (state_text Precheck) EvidenceInfo ''transaction started'' [] m)"

subsection \<open>The state machine\<close>

fun can_transition :: "tx_state \<Rightarrow> tx_state \<Rightarrow> bool" where
  "can_transition Precheck to = (to = Snapshot \<or> to = Failed)"
| "can_transition Snapshot to = (to = Validated \<or> to = Failed)"
| "can_transition Validated to = (to = Applied \<or> to = Failed)"
| "can_transition Applied to = (to = Verified \<or> to = RolledBack \<or> to = Ambiguous \<or> to = Failed)"
| "can_transition Verified to = (to = Committed \<or> to = RolledBack \<or> to = Ambiguous)"
| "can_transition _ to = False"

fun transition_evidence :: "tx_state \<Rightarrow> evidence_status \<times> string" where
  "transition_evidence RolledBack = (EvidenceRecovered, ''transaction rolled back'')"
| "transition_evidence Ambiguous = (EvidenceFailed, ''transaction state is ambiguous'')"
| "transition_evidence Failed = (EvidenceFailed, ''transaction failed'')"
| "transition_evidence to = (EvidencePassed, ''transaction entered '' @ state_text to)"

definition tx_advance :: "time \<Rightarrow> tx_state \<Rightarrow> manifest \<Rightarrow> go_error option \<times> manifest" where
  "tx_advance now to m =
     (if \<not> can_transition (mf_state m) to
      then (Some (Msg (''invalid transaction transition '' @ state_text (mf_state m) @ '' -> '' @ state_text to)), m)
      else (case transition_evidence to of
              (status, message) \<Rightarrow>
                (None, tx_record now (state_text to) status message [] (m\<lparr>mf_state := to\<rparr>))))"

text \<open>An error that carries the manifest; \<^verbatim>\<open>Extract\<close> finds it again.\<close>

datatype tx_error = TxError go_error manifest

definition tx_wrap :: "go_error option \<Rightarrow> manifest \<Rightarrow> tx_error option" where
  "tx_wrap err m = (case err of None \<Rightarrow> None | Some e \<Rightarrow> Some (TxError e m))"

definition tx_extract :: "tx_error option \<Rightarrow> manifest option" where
  "tx_extract err = (case err of None \<Rightarrow> None | Some (TxError e m) \<Rightarrow> Some m)"

subsection \<open>The log stays bounded and keeps its origin and its newest entries\<close>

lemma mf_record_simps [simp]:
  "mf_state (tx_record now st s msg d m) = mf_state m"
  "mf_id (tx_record now st s msg d m) = mf_id m"
  "mf_component (tx_record now st s msg d m) = mf_component m"
  "mf_error (tx_record now st s msg d m) = mf_error m"
  "mf_updated (tx_record now st s msg d m) = now"
  "mf_started (tx_record now st s msg d m) = mf_started m"
  by (simp_all add: tx_record_def Let_def)

lemma mf_failure_simps [simp]:
  "mf_state (tx_record_failure now st e d m) = mf_state m"
  "mf_error (tx_record_failure now st (Some err) d m) = error_text err"
  by (auto simp: tx_record_failure_def split: option.splits)

lemma make_room_short [simp]: "length es < max_evidence \<Longrightarrow> make_room es = es"
  by (simp add: make_room_def)

lemma length_make_room: "length es \<le> max_evidence \<Longrightarrow> length (make_room es) < max_evidence"
  by (auto simp: make_room_def max_evidence_def)

lemma hd_make_room: "es \<noteq> [] \<Longrightarrow> make_room es \<noteq> [] \<and> hd (make_room es) = hd es"
  by (cases es) (auto simp: make_room_def max_evidence_def)

text \<open>The log of a manifest: at most 64 entries, and the log is not empty.\<close>

definition log_ok :: "manifest \<Rightarrow> bool" where
  "log_ok m \<longleftrightarrow> mf_evidence m \<noteq> [] \<and> length (mf_evidence m) \<le> max_evidence"

lemma log_ok_record: "length (mf_evidence m) \<le> max_evidence \<Longrightarrow> log_ok (tx_record now st s msg d m)"
  using length_make_room [of "mf_evidence m"]
  by (simp add: log_ok_def tx_record_def Let_def Suc_le_eq)

lemma origin_record:
  "mf_evidence m \<noteq> [] \<Longrightarrow> hd (mf_evidence (tx_record now st s msg d m)) = hd (mf_evidence m)"
  using hd_make_room [of "mf_evidence m"] by (simp add: tx_record_def Let_def hd_append)

lemma log_ok_new: "log_ok (tx_new now i c as)"
  by (simp add: tx_new_def Let_def log_ok_record)

lemma log_ok_failure: "log_ok m \<Longrightarrow> log_ok (tx_record_failure now st e d m)"
  by (auto simp: tx_record_failure_def log_ok_def intro!: log_ok_record [unfolded log_ok_def] split: option.splits)

lemma log_ok_advance: "log_ok m \<Longrightarrow> log_ok (snd (tx_advance now to m))"
  by (auto simp: tx_advance_def log_ok_def intro!: log_ok_record [unfolded log_ok_def] split: prod.splits)

text \<open>
  The same log as a bounded tail after its origin: the locale \<open>tail_buffer\<close> of the prelude with
  63 entries behind the first.
\<close>

definition ev_tail :: "evidence list \<Rightarrow> evidence list" where
  "ev_tail es = drop 1 es"

lemma ev_tail_add:
  assumes "es \<noteq> []" and "length es \<le> max_evidence"
  shows "ev_tail (make_room es @ [e]) = lastn (max_evidence - 1) (ev_tail es @ [e])"
proof -
  obtain x xs where es: "es = x # xs"
    using assms(1) by (cases es) auto
  show ?thesis
  proof (cases "length xs = 63")
    case True
    then obtain y ys where "xs = y # ys" "length ys = 62"
      by (cases xs) auto
    then show ?thesis
      by (simp add: es ev_tail_def make_room_def max_evidence_def lastn_def)
  next
    case False
    then have "length xs < 63"
      using assms(2) es by (simp add: max_evidence_def)
    then show ?thesis
      by (simp add: es ev_tail_def make_room_def max_evidence_def lastn_def)
  qed
qed

interpretation evlog: tail_buffer
  "\<lambda>e es. make_room es @ [e]" ev_tail "max_evidence - 1"
  "\<lambda>es. es \<noteq> [] \<and> length es \<le> max_evidence"
proof (unfold_locales, goal_cases)
  case (1 es e)
  then show ?case by (simp add: ev_tail_add)
next
  case (2 es e)
  then show ?case using length_make_room [of es] by auto
next
  case (3 es)
  then show ?case by (auto simp: ev_tail_def)
next
  case 4
  then show ?case by (simp add: max_evidence_def)
qed

text \<open>
  Any number of records after a transaction starts: the log is its first entry followed by the
  newest 63 of what was recorded since.
\<close>

definition ev_entry :: "time \<times> string \<times> evidence_status \<times> string \<times> (string \<times> string) list \<Rightarrow> evidence" where
  "ev_entry r = (case r of (now, stage, status, msg, details) \<Rightarrow>
     \<lparr>ev_time = now, ev_stage = trim_space stage, ev_status = status, ev_message = trim_space msg, ev_details = details\<rparr>)"

definition record_all ::
    "(time \<times> string \<times> evidence_status \<times> string \<times> (string \<times> string) list) list \<Rightarrow> manifest \<Rightarrow> manifest" where
  "record_all rs m = fold (\<lambda>(now, stage, status, msg, details). tx_record now stage status msg details) rs m"

lemma mf_evidence_record_all:
  "mf_evidence (record_all rs m) = fold (\<lambda>e es. make_room es @ [e]) (map ev_entry rs) (mf_evidence m)"
  unfolding record_all_def
  by (induction rs arbitrary: m) (auto simp: tx_record_def ev_entry_def Let_def)

lemma fold_origin:
  "es \<noteq> [] \<Longrightarrow> fold (\<lambda>e es. make_room es @ [e]) xs es \<noteq> [] \<and>
     hd (fold (\<lambda>e es. make_room es @ [e]) xs es) = hd es"
proof (induction xs arbitrary: es)
  case Nil
  then show ?case by simp
next
  case (Cons x xs)
  have "hd (make_room es @ [x]) = hd es"
    using hd_make_room [OF Cons.prems] by simp
  then show ?case using Cons.IH [of "make_room es @ [x]"] by simp
qed

lemma ev_tail_split: "es \<noteq> [] \<and> hd es = h \<Longrightarrow> ev_tail es = t \<Longrightarrow> es = h # t"
  by (cases es) (auto simp: ev_tail_def)

lemma evidence_bounded_log:
  "mf_evidence (record_all rs (tx_new now i c as)) =
     hd (mf_evidence (tx_new now i c as)) # lastn 63 (map ev_entry rs)"
proof -
  let ?m = "tx_new now i c as"
  have one: "mf_evidence ?m = [hd (mf_evidence ?m)]"
    by (simp add: tx_new_def tx_record_def Let_def make_room_def max_evidence_def)
  then have inv: "mf_evidence ?m \<noteq> [] \<and> length (mf_evidence ?m) \<le> max_evidence"
    using log_ok_new by (simp add: log_ok_def)
  let ?es = "mf_evidence (record_all rs ?m)"
  have "ev_tail ?es = lastn 63 (map ev_entry rs)"
  proof -
    have "ev_tail (mf_evidence ?m) = []"
      by (subst one) (simp add: ev_tail_def)
    then show ?thesis
      using evlog.items_fold [OF inv, of "map ev_entry rs"]
      by (simp add: mf_evidence_record_all max_evidence_def)
  qed
  moreover have "?es \<noteq> [] \<and> hd ?es = hd (mf_evidence ?m)"
    using fold_origin [of "mf_evidence ?m" "map ev_entry rs"] inv by (simp add: mf_evidence_record_all)
  ultimately show ?thesis
    using ev_tail_split by blast
qed

subsection \<open>Reachable manifests\<close>

text \<open>The states a transaction can be in while it moves with \<^verbatim>\<open>Advance\<close>.\<close>

inductive tx_step :: "tx_state \<Rightarrow> tx_state \<Rightarrow> bool" where
  step: "can_transition a b \<Longrightarrow> tx_step a b"

inductive tx_reach :: "tx_state \<Rightarrow> nat \<Rightarrow> tx_state \<Rightarrow> bool" where
  start: "tx_reach a 0 a"
| move: "tx_reach a n b \<Longrightarrow> tx_step b c \<Longrightarrow> tx_reach a (Suc n) c"

inductive_simps tx_step_iff: "tx_step a b"
inductive_cases tx_reach_SucE: "tx_reach a (Suc n) c"

definition tx_terminal :: "tx_state \<Rightarrow> bool" where
  "tx_terminal s \<longleftrightarrow> s \<in> {Committed, RolledBack, Ambiguous, Failed}"

fun tx_rank :: "tx_state \<Rightarrow> nat" where
  "tx_rank Precheck = 5"
| "tx_rank Snapshot = 4"
| "tx_rank Validated = 3"
| "tx_rank Applied = 2"
| "tx_rank Verified = 1"
| "tx_rank _ = 0"

lemma tx_step_rank: "tx_step a b \<Longrightarrow> tx_rank b < tx_rank a"
  by (cases a) (auto simp: tx_step_iff)

lemma tx_reach_rank: "tx_reach a n b \<Longrightarrow> n + tx_rank b \<le> tx_rank a"
proof (induction rule: tx_reach.induct)
  case (start a)
  then show ?case by simp
next
  case (move a n b c)
  then show ?case using tx_step_rank [of b c] by linarith
qed

lemma tx_terminal_stuck: "tx_terminal a \<Longrightarrow> \<not> tx_step a b"
  by (auto simp: tx_terminal_def tx_step_iff)

lemma tx_progress: "a \<in> {Precheck, Snapshot, Validated, Applied, Verified} \<Longrightarrow> \<exists>b. tx_step a b"
  by (auto simp: tx_step_iff intro: exI [of _ Failed] exI [of _ Committed])

text \<open>No path to \<open>Committed\<close> misses a stage.\<close>

fun tx_at :: "nat \<Rightarrow> tx_state \<Rightarrow> bool" where
  "tx_at n Precheck = (n = 0)"
| "tx_at n Snapshot = (n = 1)"
| "tx_at n Validated = (n = 2)"
| "tx_at n Applied = (n = 3)"
| "tx_at n Verified = (n = 4)"
| "tx_at n Committed = (n = 5)"
| "tx_at n RolledBack = (n = 4 \<or> n = 5)"
| "tx_at n Ambiguous = (n = 4 \<or> n = 5)"
| "tx_at n Failed = (1 \<le> n \<and> n \<le> 4)"
| "tx_at n (OtherState s) = False"

lemma tx_at_step: "tx_at n b \<Longrightarrow> can_transition b c \<Longrightarrow> tx_at (Suc n) c"
  by (cases b) auto

lemma tx_reach_at: "tx_reach a n b \<Longrightarrow> a = Precheck \<Longrightarrow> tx_at n b"
proof (induction rule: tx_reach.induct)
  case (start a)
  then show ?case by simp
next
  case (move a n b c)
  then show ?case using tx_at_step by (auto simp: tx_step_iff)
qed

text \<open>\<^verbatim>\<open>Advance\<close> moves along \<open>tx_step\<close> or not at all.\<close>

lemma tx_advance_ok:
  "can_transition (mf_state m) to \<Longrightarrow>
   fst (tx_advance now to m) = None \<and> mf_state (snd (tx_advance now to m)) = to"
  by (auto simp: tx_advance_def split: prod.splits)

lemma tx_advance_refused:
  "\<not> can_transition (mf_state m) to \<Longrightarrow> fst (tx_advance now to m) \<noteq> None \<and> snd (tx_advance now to m) = m"
  by (auto simp: tx_advance_def)

lemma tx_advance_error [simp]: "mf_error (snd (tx_advance now to m)) = mf_error m"
  by (auto simp: tx_advance_def split: prod.splits)

text \<open>A run of \<^verbatim>\<open>Advance\<close> calls, refusals ignored.\<close>

definition advance_all :: "(time \<times> tx_state) list \<Rightarrow> manifest \<Rightarrow> manifest" where
  "advance_all as m = fold (\<lambda>(now, to) m. snd (tx_advance now to m)) as m"

lemma advance_all_reach:
  "tx_reach a n (mf_state m) \<Longrightarrow> \<exists>k. tx_reach a k (mf_state (advance_all as m))"
proof (induction as arbitrary: m n)
  case Nil
  then show ?case by (auto simp: advance_all_def)
next
  case (Cons x as)
  obtain now to where x: "x = (now, to)" by (cases x)
  show ?case
  proof (cases "can_transition (mf_state m) to")
    case True
    then have "tx_reach a (Suc n) (mf_state (snd (tx_advance now to m)))"
      using Cons.prems tx_advance_ok [OF True] by (auto intro: tx_reach.move tx_step.step)
    then show ?thesis using Cons.IH x by (simp add: advance_all_def)
  next
    case False
    then show ?thesis using Cons x tx_advance_refused [OF False] by (simp add: advance_all_def)
  qed
qed

lemma advance_all_terminal: "tx_terminal (mf_state m) \<Longrightarrow> advance_all as m = m"
proof (induction as)
  case Nil
  then show ?case by (simp add: advance_all_def)
next
  case (Cons x as)
  obtain now to where x: "x = (now, to)" by (cases x)
  have "\<not> can_transition (mf_state m) to"
    using Cons.prems tx_terminal_stuck tx_step.step by blast
  then have "snd (tx_advance now to m) = m"
    using tx_advance_refused by blast
  then show ?case using Cons x by (simp add: advance_all_def)
qed

text \<open>After a transaction starts, however many entries are recorded, its evidence is the
  entry of its start followed by the newest 63 entries, in order: the log never exceeds 64 and
  never loses its origin.\<close>

theorem evidence_keeps_origin_and_newest:
  "mf_evidence (record_all rs (tx_new now i c as)) =
     \<lparr>ev_time = now, ev_stage = ''precheck'', ev_status = EvidenceInfo,
      ev_message = ''transaction started'', ev_details = []\<rparr> # lastn 63 (map ev_entry rs)"
proof -
  have "trim_space ''precheck'' = ''precheck''" "trim_space ''transaction started'' = ''transaction started''"
    by code_simp+
  then have "hd (mf_evidence (tx_new now i c as)) =
     \<lparr>ev_time = now, ev_stage = ''precheck'', ev_status = EvidenceInfo,
      ev_message = ''transaction started'', ev_details = []\<rparr>"
    by (simp add: tx_new_def tx_record_def Let_def make_room_def max_evidence_def)
  then show ?thesis by (simp add: evidence_bounded_log)
qed



end
