(* ===== verification/Go_Path.thy ===== *)
theory Go_Path
  imports Go_Std
begin

text \<open>
  The lexical path functions of \<^verbatim>\<open>path/filepath\<close> on Unix: \<^verbatim>\<open>Clean\<close>, \<^verbatim>\<open>IsAbs\<close>, \<^verbatim>\<open>Join\<close>,
  \<^verbatim>\<open>Dir\<close>, \<^verbatim>\<open>Base\<close>, \<^verbatim>\<open>Ext\<close> and \<^verbatim>\<open>Rel\<close>. A path is read as the list of its non-empty
  elements; the lemmas relate the string functions to that list, which is what the containment
  checks of the program are about.
\<close>

definition slash :: "char" where
  "slash = CHR ''/''"

definition is_abs :: "string \<Rightarrow> bool" where
  "is_abs s \<longleftrightarrow> (case s of c # _ \<Rightarrow> c = slash | [] \<Rightarrow> False)"

definition elems :: "string \<Rightarrow> string list" where
  "elems s = filter (\<lambda>p. p \<noteq> []) (split_char slash s)"

text \<open>
  The element stack of \<^verbatim>\<open>Clean\<close>, newest first: \<open>.\<close> and empty elements vanish, \<open>..\<close>
  removes the element before it, is dropped at the root, and stays otherwise.
\<close>

fun clean_step :: "bool \<Rightarrow> string \<Rightarrow> string list \<Rightarrow> string list" where
  "clean_step rooted p st =
     (if p = [] \<or> p = ''.'' then st
      else if p = ''..'' then
        (case st of
           q # st' \<Rightarrow> if q = ''..'' then p # st else st'
         | [] \<Rightarrow> if rooted then [] else [p])
      else p # st)"

definition clean_elems :: "bool \<Rightarrow> string list \<Rightarrow> string list" where
  "clean_elems rooted ps = rev (fold (clean_step rooted) ps [])"

definition clean :: "string \<Rightarrow> string" where
  "clean s =
     (let es = clean_elems (is_abs s) (split_char slash s)
      in if is_abs s then slash # join [slash] es
         else if es = [] then ''.'' else join [slash] es)"

definition path_join2 :: "string \<Rightarrow> string \<Rightarrow> string" where
  "path_join2 a b =
     (if a = [] \<and> b = [] then [] else if a = [] then clean b else if b = [] then clean a
      else clean (a @ [slash] @ b))"

definition path_dir :: "string \<Rightarrow> string" where
  "path_dir s = clean (rev (dropWhile (\<lambda>c. c \<noteq> slash) (rev s)))"

definition path_base :: "string \<Rightarrow> string" where
  "path_base s =
     (if s = [] then ''.''
      else (let t = trim_right (\<lambda>c. c = slash) s
            in if t = [] then [slash] else last (split_char slash t)))"

text \<open>\<^verbatim>\<open>Ext\<close>: from the last dot of the last element to the end.\<close>

definition path_ext :: "string \<Rightarrow> string" where
  "path_ext s =
     (let b = last (split_char slash s); parts = split_char (CHR ''.'') b
      in if length parts < 2 then [] else CHR ''.'' # last parts)"

fun strip_common :: "'a list \<Rightarrow> 'a list \<Rightarrow> 'a list \<times> 'a list" where
  "strip_common (x # xs) (y # ys) = (if x = y then strip_common xs ys else (x # xs, y # ys))"
| "strip_common xs ys = (xs, ys)"

text \<open>\<^verbatim>\<open>Rel\<close>: an error when one path is absolute and the other not, or when a \<open>..\<close> of the
  base would have to be undone.\<close>

definition path_rel :: "string \<Rightarrow> string \<Rightarrow> go_error + string" where
  "path_rel base targ =
     (let b = clean base; t = clean targ in
      if t = b then Inr ''.''
      else
        (let b' = (if b = ''.'' then [] else b) in
         if is_abs b' \<noteq> is_abs t then Inl (Msg ''Rel: can't make target relative to base'')
         else
           (case strip_common (elems b') (elems t) of (bs, ts) \<Rightarrow>
              if bs \<noteq> [] \<and> hd bs = ''..'' then Inl (Msg ''Rel: can't make target relative to base'')
              else Inr (join [slash] (map (\<lambda>_. ''..'') bs @ ts)))))"

subsection \<open>Elements of cleaned paths\<close>

text \<open>A proper element: not empty, not \<open>.\<close>, without a slash. A clean element list of a rooted
  path has no \<open>..\<close> either.\<close>

definition plain_elem :: "string \<Rightarrow> bool" where
  "plain_elem p \<longleftrightarrow> p \<noteq> [] \<and> p \<noteq> ''.'' \<and> p \<noteq> ''..'' \<and> slash \<notin> set p"

lemma clean_step_plain [simp]: "plain_elem p \<Longrightarrow> clean_step r p st = p # st"
  by (simp add: plain_elem_def)

lemma fold_clean_plain: "list_all plain_elem ps \<Longrightarrow> fold (clean_step r) ps st = rev ps @ st"
  by (induction ps arbitrary: st) (auto simp del: clean_step.simps)

lemma clean_step_rooted:
  "\<lbrakk>list_all plain_elem st; slash \<notin> set p\<rbrakk> \<Longrightarrow> list_all plain_elem (clean_step True p st)"
  by (cases st) (auto simp: plain_elem_def)

lemma fold_clean_rooted:
  "\<lbrakk>list_all plain_elem st; \<forall>p\<in>set ps. slash \<notin> set p\<rbrakk>
   \<Longrightarrow> list_all plain_elem (fold (clean_step True) ps st)"
proof (induction ps arbitrary: st)
  case Nil
  then show ?case by simp
next
  case (Cons p ps)
  then have "list_all plain_elem (clean_step True p st)"
    by (intro clean_step_rooted) auto
  then show ?case using Cons by simp
qed

lemma clean_elems_plain:
  "is_abs s \<Longrightarrow> list_all plain_elem (clean_elems True (split_char slash s))"
  unfolding clean_elems_def list_all_iff set_rev
  using fold_clean_rooted [of "[]" "split_char slash s"]
  by (auto simp: list_all_iff dest: split_char_no_sep)

lemma is_abs_Cons [simp]: "is_abs (slash # s)"
  by (simp add: is_abs_def)

lemma is_abs_clean [simp]: "is_abs s \<Longrightarrow> is_abs (clean s)"
  by (simp add: clean_def Let_def)

lemma plain_elem_no_slash: "list_all plain_elem es \<Longrightarrow> \<forall>p\<in>set es. slash \<notin> set p"
  by (auto simp: list_all_iff plain_elem_def)

lemma split_abs_join:
  "list_all plain_elem es \<Longrightarrow>
   split_char slash (slash # join [slash] es) = [] # (if es = [] then [[]] else es)"
  using split_char_join [of es slash] plain_elem_no_slash [of es] by auto

lemma elems_abs_join: "list_all plain_elem es \<Longrightarrow> elems (slash # join [slash] es) = es"
proof -
  assume p: "list_all plain_elem es"
  then have "filter (\<lambda>p. p \<noteq> []) es = es"
    by (auto simp: list_all_iff plain_elem_def intro: filter_True)
  then show ?thesis
    unfolding elems_def split_abs_join [OF p] by auto
qed

lemma elems_clean:
  "is_abs s \<Longrightarrow> elems (clean s) = clean_elems True (split_char slash s)"
  using elems_abs_join [OF clean_elems_plain, of s] by (simp add: clean_def Let_def)

lemma plain_elems_clean: "is_abs s \<Longrightarrow> list_all plain_elem (elems (clean s))"
  by (simp add: elems_clean clean_elems_plain)

lemma clean_abs_join:
  "list_all plain_elem es \<Longrightarrow> clean (slash # join [slash] es) = slash # join [slash] es"
proof -
  assume p: "list_all plain_elem es"
  have "fold (clean_step True) ([] # (if es = [] then [[]] else es)) [] = rev es"
    using fold_clean_plain [OF p, of True "[]"] by auto
  then show ?thesis
    unfolding clean_def Let_def clean_elems_def split_abs_join [OF p] by simp
qed

lemma clean_abs_form: "is_abs s \<Longrightarrow> clean s = slash # join [slash] (elems (clean s))"
  by (simp add: elems_clean) (simp add: clean_def Let_def)

lemma clean_idem_abs: "is_abs s \<Longrightarrow> clean (clean s) = clean s"
  by (metis clean_abs_form clean_abs_join plain_elems_clean)

lemma clean_eq_iff:
  "\<lbrakk>is_abs s; is_abs t\<rbrakk> \<Longrightarrow> clean s = clean t \<longleftrightarrow> elems (clean s) = elems (clean t)"
  by (metis clean_abs_form)

lemma clean_abs_not_dot: "is_abs s \<Longrightarrow> clean s \<noteq> ''.''"
  using clean_abs_form [of s] by (auto simp: slash_def)

subsection \<open>Relative paths between cleaned paths\<close>

lemma strip_common_prefix: "strip_common xs (xs @ ys) = ([], ys)"
  by (induction xs) auto

lemma strip_common_Nil: "strip_common xs ys = ([], zs) \<Longrightarrow> ys = xs @ zs"
  by (induction xs ys rule: strip_common.induct) (auto split: if_splits)

lemma strip_common_subset:
  "strip_common xs ys = (bs, ts) \<Longrightarrow> set bs \<subseteq> set xs \<and> set ts \<subseteq> set ys"
  by (induction xs ys rule: strip_common.induct) (auto split: if_splits)

lemma path_rel_abs:
  assumes "is_abs a" "is_abs b"
  shows "path_rel a b =
     Inr (if clean b = clean a then ''.''
          else (case strip_common (elems (clean a)) (elems (clean b)) of
                  (bs, ts) \<Rightarrow> join [slash] (map (\<lambda>_. ''..'') bs @ ts)))"
proof -
  obtain bs ts where st: "strip_common (elems (clean a)) (elems (clean b)) = (bs, ts)"
    by fastforce
  have "\<not> (bs \<noteq> [] \<and> hd bs = ''..'')"
    using strip_common_subset [OF st] plain_elems_clean [OF assms(1)]
    by (auto simp: list_all_iff plain_elem_def dest!: hd_in_set)
  then show ?thesis
    using assms st clean_abs_not_dot [OF assms(1)] by (auto simp: path_rel_def Let_def)
qed

subsection \<open>Directory and last element of a cleaned path\<close>

definition dir_prefix :: "string \<Rightarrow> string" where
  "dir_prefix d = (if d = [slash] then d else d @ [slash])"

lemma join_not_Nil: "xs \<noteq> [] \<Longrightarrow> list_all plain_elem xs \<Longrightarrow> join [slash] xs \<noteq> []"
  by (cases xs; cases "tl xs") (auto simp: plain_elem_def)

lemma join_snoc: "join sep (xs @ [x]) = (if xs = [] then x else join sep xs @ sep @ x)"
  by (induction sep xs rule: join.induct) auto

lemma clean_abs_snoc_slash:
  assumes "list_all plain_elem es" "es \<noteq> []"
  shows "clean (slash # join [slash] es @ [slash]) = slash # join [slash] es"
proof -
  have "\<forall>p\<in>set (es @ [[]]). slash \<notin> set p"
    using plain_elem_no_slash [OF assms(1)] by auto
  then have "split_char slash (join [slash] (es @ [[]])) = es @ [[]]"
    by (intro split_char_join) auto
  then have split: "split_char slash (slash # join [slash] es @ [slash]) = [] # es @ [[]]"
    using assms(2) by (simp add: join_snoc)
  show ?thesis
    unfolding clean_def Let_def clean_elems_def split
    using fold_clean_plain [OF assms(1), of True "[]"] by simp
qed

lemma path_split_abs:
  assumes "is_abs d" "clean d = d" "d \<noteq> [slash]"
  shows "d = dir_prefix (path_dir d) @ path_base d" "is_abs (path_dir d)"
    "clean (path_dir d) = path_dir d" "plain_elem (path_base d)"
proof -
  have es: "list_all plain_elem (elems d)" and d: "d = slash # join [slash] (elems d)"
    using plain_elems_clean [OF assms(1)] clean_abs_form [OF assms(1)] assms(2) by auto
  then have "elems d \<noteq> []"
    using assms(3) by auto
  then obtain fs b where fb: "elems d = fs @ [b]"
    by (meson rev_exhaust)
  have b: "plain_elem b" and fs: "list_all plain_elem fs"
    using es fb by auto
  let ?up = "slash # (if fs = [] then [] else join [slash] fs @ [slash])"
  have dd: "d = ?up @ b"
    using d fb by (auto simp: join_snoc)
  have nb: "slash \<notin> set b" and bne: "b \<noteq> []"
    using b by (auto simp: plain_elem_def)
  have "dropWhile (\<lambda>c. c \<noteq> slash) (rev d) = rev ?up"
    unfolding dd using nb by (subst rev_append, subst dropWhile_append2) (auto simp: dropWhile_append)
  then have dir: "path_dir d = slash # join [slash] fs"
    using fs clean_abs_snoc_slash [of fs] clean_abs_join [of "[]"] by (simp add: path_dir_def)
  have trim: "trim_right (\<lambda>c. c = slash) d = d"
  proof -
    obtain c cs where "rev b = c # cs" and "c \<noteq> slash"
      using nb bne by (cases "rev b") (auto simp: rev_eq_Cons_iff)
    then have "dropWhile (\<lambda>c. c = slash) (rev d) = rev d"
      by (simp add: dd)
    then show ?thesis by (simp add: trim_right_def)
  qed
  have "split_char slash d = [] # fs @ [b]"
    using split_abs_join [OF es] d fb by simp
  then have base: "path_base d = b"
    using trim dd bne by (auto simp: path_base_def Let_def)
  show "d = dir_prefix (path_dir d) @ path_base d"
    using dd dir base join_not_Nil [of fs] fs by (auto simp: dir_prefix_def)
  show "is_abs (path_dir d)" "clean (path_dir d) = path_dir d" "plain_elem (path_base d)"
    using dir base b clean_abs_join [OF fs] by auto
qed

text \<open>Joining a cleaned directory and a proper element, and taking the result apart.\<close>

lemma path_join_plain:
  assumes "is_abs d" "clean d = d" "d \<noteq> [slash]" "plain_elem x"
  shows "path_join2 d x = d @ slash # x" "path_dir (d @ slash # x) = d" "is_abs (d @ slash # x)"
    "clean (d @ slash # x) = d @ slash # x"
proof -
  have es: "list_all plain_elem (elems d)" and d: "d = slash # join [slash] (elems d)"
    using plain_elems_clean [OF assms(1)] clean_abs_form [OF assms(1)] assms(2) by auto
  have ne: "elems d \<noteq> []" using d assms(3) by auto
  have form: "d @ slash # x = slash # join [slash] (elems d @ [x])"
    by (subst (1) d) (simp add: join_snoc ne)
  have cl: "clean (d @ slash # x) = d @ slash # x"
    unfolding form by (rule clean_abs_join) (use es assms(4) in auto)
  then show "clean (d @ slash # x) = d @ slash # x" .
  have "d \<noteq> []" "x \<noteq> []" "slash \<notin> set x"
    using d assms(4) by (auto simp: plain_elem_def)
  then show "path_join2 d x = d @ slash # x" using cl by (simp add: path_join2_def)
  show "is_abs (d @ slash # x)" unfolding form by simp
  have "dropWhile (\<lambda>c. c \<noteq> slash) (rev (d @ slash # x)) = slash # rev d"
    using \<open>slash \<notin> set x\<close> by (simp add: dropWhile_append)
  then have "path_dir (d @ slash # x) = clean (d @ [slash])" by (simp add: path_dir_def)
  also have "\<dots> = d"
    using clean_abs_snoc_slash [OF es ne] d by (metis append_Cons)
  finally show "path_dir (d @ slash # x) = d" .
qed

end
