(* ===== verification/Go_Fs.thy ===== *)
theory Go_Fs
  imports Go_Path "HOL-Library.AList"
begin

text \<open>
  The operating system as the modelled code sees it through package \<^verbatim>\<open>os\<close>. The tree is an
  association list from literal paths to nodes. Every call may fail with an input/output error:
  the list \<open>faults\<close> says which of the coming calls do, and an empty list means no further fault,
  so a theorem about every state covers every error path. \<open>entropy\<close> holds the random names
  \<^verbatim>\<open>CreateTemp\<close> will try, \<open>realpath\<close> is the kernel's answer to a path resolution, which the
  model does not fix.

  A symbolic link is followed in the last element only (\<^verbatim>\<open>Stat\<close>, \<^verbatim>\<open>ReadFile\<close>); links in
  directory elements are the business of \<open>realpath\<close>. Crashes between calls are not modelled.
\<close>

datatype node =
    Regular nat string
  | Directory nat
  | Symlink string
  | Special

record os =
  tree :: "(string \<times> node) list"
  faults :: "bool list"
  entropy :: "string list"
  realpath :: "string \<Rightarrow> go_error + string"

type_synonym 'a io = "os \<Rightarrow> (go_error + 'a) \<times> os"

definition node_at :: "os \<Rightarrow> string \<Rightarrow> node option" where
  "node_at s p = map_of (tree s) p"

subsection \<open>Sequencing\<close>

definition io_return :: "'a \<Rightarrow> 'a io" where
  "io_return x = (\<lambda>s. (Inr x, s))"

definition io_fail :: "go_error \<Rightarrow> 'a io" where
  "io_fail e = (\<lambda>s. (Inl e, s))"

text \<open>\<open>io_bind\<close>: \<^verbatim>\<open>if err != nil { return err }\<close>. \<open>io_try\<close> hands the result and the error
  alike to the continuation. \<open>io_defer\<close>: \<^verbatim>\<open>defer\<close> of a call whose result is dropped.\<close>

definition io_bind :: "'a io \<Rightarrow> ('a \<Rightarrow> 'b io) \<Rightarrow> 'b io" where
  "io_bind m f = (\<lambda>s. case m s of (Inl e, s') \<Rightarrow> (Inl e, s') | (Inr x, s') \<Rightarrow> f x s')"

definition io_try :: "'a io \<Rightarrow> (go_error + 'a \<Rightarrow> 'b io) \<Rightarrow> 'b io" where
  "io_try m f = (\<lambda>s. case m s of (r, s') \<Rightarrow> f r s')"

definition io_defer :: "'b io \<Rightarrow> 'a io \<Rightarrow> 'a io" where
  "io_defer c m = (\<lambda>s. case m s of (r, s') \<Rightarrow> (r, snd (c s')))"

definition io_wrap :: "string \<Rightarrow> 'a io \<Rightarrow> 'a io" where
  "io_wrap msg m = (\<lambda>s. case m s of (Inl e, s') \<Rightarrow> (Inl (Wrap msg e), s') | (Inr x, s') \<Rightarrow> (Inr x, s'))"

primrec io_iter :: "('a \<Rightarrow> unit io) \<Rightarrow> 'a list \<Rightarrow> unit io" where
  "io_iter f [] = io_return ()"
| "io_iter f (x # xs) = io_bind (f x) (\<lambda>_. io_iter f xs)"

definition syscall :: "'a io \<Rightarrow> 'a io" where
  "syscall m = (\<lambda>s. case faults s of
       [] \<Rightarrow> m s
     | b # bs \<Rightarrow> if b then (Inl ErrIO, s\<lparr>faults := bs\<rparr>) else m (s\<lparr>faults := bs\<rparr>))"

lemma io_return_simp [simp]: "io_return x s = (Inr x, s)"
  by (simp add: io_return_def)

lemma io_fail_simp [simp]: "io_fail e s = (Inl e, s)"
  by (simp add: io_fail_def)

subsection \<open>Inspecting the tree\<close>

fun follow_link :: "nat \<Rightarrow> os \<Rightarrow> string \<Rightarrow> go_error + node" where
  "follow_link n s p =
     (case node_at s p of
        None \<Rightarrow> Inl ErrNotExist
      | Some (Symlink t) \<Rightarrow>
          (case n of
             0 \<Rightarrow> Inl ErrIO
           | Suc m \<Rightarrow> follow_link m s (if is_abs t then clean t else path_join2 (path_dir p) t))
      | Some nd \<Rightarrow> Inr nd)"

declare follow_link.simps [simp del]

text \<open>Linux follows at most 40 links.\<close>

definition max_links :: "nat" where
  "max_links = 40"

definition fs_lstat :: "string \<Rightarrow> node io" where
  "fs_lstat p = syscall (\<lambda>s. (case node_at s p of None \<Rightarrow> Inl ErrNotExist | Some n \<Rightarrow> Inr n, s))"

definition fs_stat :: "string \<Rightarrow> node io" where
  "fs_stat p = syscall (\<lambda>s. (follow_link max_links s p, s))"

definition fs_read_file :: "string \<Rightarrow> string io" where
  "fs_read_file p = syscall (\<lambda>s.
     (case follow_link max_links s p of
        Inl e \<Rightarrow> Inl e
      | Inr (Regular m c) \<Rightarrow> Inr c
      | Inr _ \<Rightarrow> Inl ErrIO, s))"

text \<open>\<^verbatim>\<open>io.LimitReader\<close>: at most \<open>n\<close> bytes.\<close>

definition limited :: "int \<Rightarrow> string \<Rightarrow> string" where
  "limited n c = (if int (length c) \<le> n then c else take (nat n) c)"

lemma limited_take [simp]: "limited n c = take (nat n) c"
  by (simp add: limited_def)

definition fs_eval_symlinks :: "string \<Rightarrow> string io" where
  "fs_eval_symlinks p = syscall (\<lambda>s. (realpath s p, s))"

definition is_regular :: "node \<Rightarrow> bool" where
  "is_regular n = (case n of Regular _ _ \<Rightarrow> True | _ \<Rightarrow> False)"

definition is_dir :: "node \<Rightarrow> bool" where
  "is_dir n = (case n of Directory _ \<Rightarrow> True | _ \<Rightarrow> False)"

definition node_size :: "node \<Rightarrow> nat" where
  "node_size n = (case n of Regular _ c \<Rightarrow> length c | _ \<Rightarrow> 0)"

definition node_perm :: "node \<Rightarrow> nat" where
  "node_perm n = (case n of Regular m _ \<Rightarrow> m | Directory m \<Rightarrow> m | Symlink _ \<Rightarrow> 511 | Special \<Rightarrow> 384)"

definition child_name :: "string \<Rightarrow> string \<Rightarrow> string option" where
  "child_name d p =
     (if has_prefix p (dir_prefix d)
      then (let n = drop (length (dir_prefix d)) p in if n \<noteq> [] \<and> slash \<notin> set n then Some n else None)
      else None)"

text \<open>\<^verbatim>\<open>ReadDir\<close>: the entries sorted by name.\<close>

definition fs_read_dir :: "string \<Rightarrow> (string \<times> node) list io" where
  "fs_read_dir d = syscall (\<lambda>s.
     (case node_at s d of
        None \<Rightarrow> Inl ErrNotExist
      | Some (Directory _) \<Rightarrow>
          Inr (sort_by (\<lambda>a b. fst a < fst b)
                 (List.map_filter (\<lambda>(p, n). map_option (\<lambda>c. (c, n)) (child_name d p)) (tree s)))
      | Some _ \<Rightarrow> Inl ErrIO, s))"

definition under :: "string \<Rightarrow> string \<Rightarrow> bool" where
  "under d p \<longleftrightarrow> has_prefix p (dir_prefix d)"

definition parent_ok :: "os \<Rightarrow> string \<Rightarrow> bool" where
  "parent_ok s p \<longleftrightarrow>
     path_dir p = [slash] \<or> (case node_at s (path_dir p) of Some (Directory _) \<Rightarrow> True | _ \<Rightarrow> False)"

subsection \<open>Changing the tree\<close>

definition put_node :: "string \<Rightarrow> node \<Rightarrow> os \<Rightarrow> os" where
  "put_node p n s = s\<lparr>tree := AList.update p n (tree s)\<rparr>"

definition del_node :: "string \<Rightarrow> os \<Rightarrow> os" where
  "del_node p s = s\<lparr>tree := AList.delete p (tree s)\<rparr>"

lemma node_at_put [simp]: "node_at (put_node p n s) = (node_at s)(p \<mapsto> n)"
  by (rule ext) (simp add: node_at_def put_node_def update_conv')

lemma node_at_del [simp]: "node_at (del_node p s) = (node_at s)(p := None)"
  by (rule ext) (simp add: node_at_def del_node_def delete_conv')

lemma node_at_faults [simp]: "node_at (s\<lparr>faults := fs\<rparr>) = node_at s"
  by (rule ext) (simp add: node_at_def)

lemma node_at_entropy [simp]: "node_at (s\<lparr>entropy := es\<rparr>) = node_at s"
  by (rule ext) (simp add: node_at_def)

lemma put_del_fields [simp]:
  "faults (put_node p n s) = faults s" "entropy (put_node p n s) = entropy s"
  "realpath (put_node p n s) = realpath s"
  "faults (del_node p s) = faults s" "entropy (del_node p s) = entropy s"
  "realpath (del_node p s) = realpath s"
  by (simp_all add: put_node_def del_node_def)

definition fs_chmod :: "string \<Rightarrow> nat \<Rightarrow> unit io" where
  "fs_chmod p m = syscall (\<lambda>s.
     case node_at s p of
       None \<Rightarrow> (Inl ErrNotExist, s)
     | Some (Regular _ c) \<Rightarrow> (Inr (), put_node p (Regular m c) s)
     | Some (Directory _) \<Rightarrow> (Inr (), put_node p (Directory m) s)
     | Some _ \<Rightarrow> (Inl ErrIO, s))"

text \<open>A write through an open file: the data goes to the end of the file at its path.\<close>

definition fs_write :: "string \<Rightarrow> string \<Rightarrow> unit io" where
  "fs_write p d = syscall (\<lambda>s.
     case node_at s p of
       Some (Regular m c) \<Rightarrow> (Inr (), put_node p (Regular m (c @ d)) s)
     | _ \<Rightarrow> (Inl ErrIO, s))"

definition fs_sync :: "string \<Rightarrow> unit io" where
  "fs_sync p = syscall (io_return ())"

definition fs_close :: "string \<Rightarrow> unit io" where
  "fs_close p = syscall (io_return ())"

definition fs_create_excl :: "string \<Rightarrow> nat \<Rightarrow> unit io" where
  "fs_create_excl p m = syscall (\<lambda>s.
     if node_at s p \<noteq> None then (Inl ErrExist, s)
     else if \<not> parent_ok s p then (Inl ErrNotExist, s)
     else (Inr (), put_node p (Regular m []) s))"

definition temp_name :: "string \<Rightarrow> string \<Rightarrow> string \<Rightarrow> string" where
  "temp_name dir pattern r =
     dir_prefix dir @
     (let parts = split_char (CHR ''*'') pattern
      in if length parts < 2 then pattern @ r
         else join ''*'' (butlast parts) @ r @ last parts)"

text \<open>\<^verbatim>\<open>CreateTemp\<close> tries random names until one is free.\<close>

primrec pick_temp :: "os \<Rightarrow> string \<Rightarrow> string \<Rightarrow> string list \<Rightarrow> (string \<times> string list) option" where
  "pick_temp s dir pattern [] = None"
| "pick_temp s dir pattern (r # rs) =
     (if node_at s (temp_name dir pattern r) = None then Some (temp_name dir pattern r, rs)
      else pick_temp s dir pattern rs)"

definition fs_create_temp :: "string \<Rightarrow> string \<Rightarrow> string io" where
  "fs_create_temp dir pattern = syscall (\<lambda>s.
     case pick_temp s dir pattern (entropy s) of
       None \<Rightarrow> (Inl ErrExist, s)
     | Some (p, rs) \<Rightarrow>
         if (case node_at s dir of Some (Directory _) \<Rightarrow> True | _ \<Rightarrow> dir = [slash])
         then (Inr p, put_node p (Regular 384 []) (s\<lparr>entropy := rs\<rparr>))
         else (Inl ErrNotExist, s))"

definition relocate :: "string \<Rightarrow> string \<Rightarrow> (string \<times> node) list \<Rightarrow> (string \<times> node) list" where
  "relocate a b t =
     map (\<lambda>(p, n). (b @ drop (length a) p, n)) (filter (\<lambda>(p, n). p = a \<or> under a p) t) @
     filter (\<lambda>(p, n). p \<noteq> a \<and> \<not> under a p \<and> p \<noteq> b \<and> \<not> under b p) t"

definition fs_rename :: "string \<Rightarrow> string \<Rightarrow> unit io" where
  "fs_rename a b = syscall (\<lambda>s.
     case node_at s a of
       None \<Rightarrow> (Inl ErrNotExist, s)
     | Some n \<Rightarrow>
         if \<not> parent_ok s b then (Inl ErrNotExist, s)
         else if a = b then (Inr (), s)
         else if is_dir n then
           (if under a b then (Inl ErrIO, s)
            else (case node_at s b of
                    None \<Rightarrow> (Inr (), s\<lparr>tree := relocate a b (tree s)\<rparr>)
                  | Some m \<Rightarrow>
                      if is_dir m \<and> \<not> list_ex (\<lambda>(p, _). under b p) (tree s)
                      then (Inr (), s\<lparr>tree := relocate a b (tree s)\<rparr>)
                      else (Inl ErrIO, s)))
         else (case node_at s b of
                 Some (Directory _) \<Rightarrow> (Inl ErrIO, s)
               | _ \<Rightarrow> (Inr (), put_node b n (del_node a s))))"

definition fs_remove :: "string \<Rightarrow> unit io" where
  "fs_remove p = syscall (\<lambda>s.
     case node_at s p of
       None \<Rightarrow> (Inl ErrNotExist, s)
     | Some n \<Rightarrow>
         if is_dir n \<and> list_ex (\<lambda>(q, _). under p q) (tree s) then (Inl ErrIO, s)
         else (Inr (), del_node p s))"

definition fs_remove_all :: "string \<Rightarrow> unit io" where
  "fs_remove_all p = syscall (\<lambda>s.
     (Inr (), s\<lparr>tree := filter (\<lambda>(q, _). q \<noteq> p \<and> \<not> under p q) (tree s)\<rparr>))"

fun ancestors_from :: "string \<Rightarrow> string list \<Rightarrow> string list" where
  "ancestors_from d [] = []"
| "ancestors_from d (e # es) = (dir_prefix d @ e) # ancestors_from (dir_prefix d @ e) es"

primrec mkdir_chain :: "nat \<Rightarrow> string list \<Rightarrow> unit io" where
  "mkdir_chain m [] = io_return ()"
| "mkdir_chain m (d # ds) = (\<lambda>s.
     case follow_link max_links s d of
       Inr (Directory _) \<Rightarrow> mkdir_chain m ds s
     | Inl ErrNotExist \<Rightarrow>
         if node_at s d = None then mkdir_chain m ds (put_node d (Directory m) s) else (Inl ErrIO, s)
     | _ \<Rightarrow> (Inl ErrIO, s))"

definition fs_mkdir_all :: "string \<Rightarrow> nat \<Rightarrow> unit io" where
  "fs_mkdir_all d m = syscall (mkdir_chain m (ancestors_from [slash] (elems d)))"

subsection \<open>What each call leaves unchanged\<close>

definition same_except :: "string set \<Rightarrow> os \<Rightarrow> os \<Rightarrow> bool" where
  "same_except P s s' \<longleftrightarrow> (\<forall>p. p \<notin> P \<longrightarrow> node_at s' p = node_at s p)"

lemma same_except_refl [simp, intro]: "same_except P s s"
  by (simp add: same_except_def)

lemma same_except_trans: "same_except P s t \<Longrightarrow> same_except P t u \<Longrightarrow> same_except P s u"
  by (simp add: same_except_def)

lemma same_except_mono: "same_except P s t \<Longrightarrow> P \<subseteq> Q \<Longrightarrow> same_except Q s t"
  by (auto simp: same_except_def)

lemma syscall_cases:
  assumes "syscall m s = (r, s')"
  obtains (Fault) bs where "faults s = True # bs" "r = Inl ErrIO" "s' = s\<lparr>faults := bs\<rparr>"
    | (Run) fs where "m (s\<lparr>faults := fs\<rparr>) = (r, s')" "fs = faults s \<or> faults s = False # fs"
proof (cases "faults s")
  case Nil
  then show thesis using assms by (cases s) (auto simp: syscall_def intro: Run [of "[]"])
next
  case (Cons b bs)
  then show thesis using assms Run [of bs] Fault [of bs] by (cases b) (auto simp: syscall_def)
qed

text \<open>Calls that only look: the tree is as before, whatever they return.\<close>

definition read_only :: "'a io \<Rightarrow> bool" where
  "read_only m \<longleftrightarrow> (\<forall>s. node_at (snd (m s)) = node_at s)"

lemma read_only_syscall: "(\<And>s. node_at (snd (m s)) = node_at s) \<Longrightarrow> read_only (syscall m)"
  by (auto simp: read_only_def syscall_def split: list.splits)

lemma read_only_calls [simp, intro]:
  "read_only (fs_lstat p)" "read_only (fs_stat p)" "read_only (fs_read_file p)"
  "read_only (fs_eval_symlinks p)" "read_only (fs_read_dir p)" "read_only (fs_sync p)"
  "read_only (fs_close p)"
  unfolding fs_lstat_def fs_stat_def fs_read_file_def fs_eval_symlinks_def fs_read_dir_def
    fs_sync_def fs_close_def
  by (auto intro: read_only_syscall)

lemma read_only_node_at: "read_only m \<Longrightarrow> m s = (r, s') \<Longrightarrow> node_at s' = node_at s"
  unfolding read_only_def by (metis snd_conv)

lemma fs_lstat_result:
  "fs_lstat p s = (r, s') \<Longrightarrow>
   node_at s' = node_at s \<and>
   (case r of Inl e \<Rightarrow> e = ErrIO \<or> (e = ErrNotExist \<and> node_at s p = None)
            | Inr n \<Rightarrow> node_at s p = Some n)"
  unfolding fs_lstat_def by (erule syscall_cases) (auto split: option.splits)

lemma pick_temp_free:
  "pick_temp s dir pat es = Some (p, rs) \<Longrightarrow>
   (\<exists>x. p = temp_name dir pat x) \<and> node_at s p = None"
  by (induction es) (auto split: if_splits)

lemma fs_create_temp_result:
  "fs_create_temp d pat s = (r, s') \<Longrightarrow>
   (case r of
      Inl e \<Rightarrow> node_at s' = node_at s
    | Inr p \<Rightarrow> (\<exists>x. p = temp_name d pat x) \<and> node_at s p = None \<and>
               node_at s' = (node_at s)(p \<mapsto> Regular 384 []))"
  unfolding fs_create_temp_def
  by (elim syscall_cases) (auto split: option.splits prod.splits if_splits node.splits dest!: pick_temp_free)

lemma fs_chmod_result:
  "\<lbrakk>fs_chmod p m s = (r, s'); node_at s p = Some (Regular k c)\<rbrakk> \<Longrightarrow>
   (case r of Inl e \<Rightarrow> node_at s' = node_at s
            | Inr _ \<Rightarrow> node_at s' = (node_at s)(p \<mapsto> Regular m c))"
  unfolding fs_chmod_def by (erule syscall_cases) auto

lemma fs_write_result:
  "\<lbrakk>fs_write p d s = (r, s'); node_at s p = Some (Regular k c)\<rbrakk> \<Longrightarrow>
   (case r of Inl e \<Rightarrow> node_at s' = node_at s
            | Inr _ \<Rightarrow> node_at s' = (node_at s)(p \<mapsto> Regular k (c @ d)))"
  unfolding fs_write_def by (erule syscall_cases) auto

lemma fs_sync_result: "fs_sync p s = (r, s') \<Longrightarrow> node_at s' = node_at s"
  by (rule read_only_node_at [OF read_only_calls(6)])

lemma fs_close_result: "fs_close p s = (r, s') \<Longrightarrow> node_at s' = node_at s"
  by (rule read_only_node_at [OF read_only_calls(7)])

lemma fs_rename_file_result:
  "\<lbrakk>fs_rename a b s = (r, s'); node_at s a = Some (Regular k c); a \<noteq> b\<rbrakk> \<Longrightarrow>
   (case r of Inl e \<Rightarrow> node_at s' = node_at s
            | Inr _ \<Rightarrow> node_at s' = ((node_at s)(a := None))(b \<mapsto> Regular k c))"
  unfolding fs_rename_def
  by (erule syscall_cases) (auto simp: is_dir_def split: if_splits option.splits node.splits)

lemma fs_remove_file_result:
  "\<lbrakk>fs_remove p s = (r, s'); node_at s p = Some n; \<not> is_dir n\<rbrakk> \<Longrightarrow>
   (case r of Inl e \<Rightarrow> node_at s' = node_at s | Inr _ \<Rightarrow> node_at s' = (node_at s)(p := None))"
  unfolding fs_remove_def
  by (erule syscall_cases) (auto split: if_splits option.splits)

lemma fs_remove_absent:
  "\<lbrakk>fs_remove p s = (r, s'); node_at s p = None\<rbrakk> \<Longrightarrow> node_at s' = node_at s \<and> \<not> is_ok r"
  unfolding fs_remove_def by (erule syscall_cases) auto

text \<open>\<open>MkdirAll\<close> adds directories where nothing was and changes nothing that was there.\<close>

lemma mkdir_chain_result:
  "mkdir_chain m ds s = (r, s') \<Longrightarrow>
   (\<forall>p. node_at s' p = node_at s p \<or> (node_at s p = None \<and> node_at s' p = Some (Directory m)))"
proof (induction ds arbitrary: s)
  case Nil
  then show ?case by simp
next
  case (Cons d ds)
  then show ?case
    by (fastforce split: sum.splits node.splits go_error.splits if_splits)
qed

lemma fs_mkdir_all_result:
  "fs_mkdir_all d m s = (r, s') \<Longrightarrow>
   (\<forall>p. node_at s' p = node_at s p \<or> (node_at s p = None \<and> node_at s' p = Some (Directory m)))"
  unfolding fs_mkdir_all_def
  by (erule syscall_cases) (simp, metis mkdir_chain_result node_at_faults)

lemmas fs_results =
  fs_lstat_result fs_create_temp_result fs_chmod_result fs_write_result fs_sync_result
  fs_close_result fs_rename_file_result

subsection \<open>Frames of composed operations\<close>

text \<open>\<open>touches P m\<close>: whatever \<open>m\<close> returns, only nodes at paths in \<open>P\<close> may differ afterwards.\<close>

definition touches :: "string set \<Rightarrow> 'a io \<Rightarrow> bool" where
  "touches P m \<longleftrightarrow> (\<forall>s. same_except P s (snd (m s)))"

lemma touchesI: "(\<And>s r s'. m s = (r, s') \<Longrightarrow> same_except P s s') \<Longrightarrow> touches P m"
  by (simp add: touches_def) (metis prod.collapse)

lemma touchesD: "touches P m \<Longrightarrow> m s = (r, s') \<Longrightarrow> same_except P s s'"
  unfolding touches_def by (metis snd_conv)

lemma touches_mono: "touches P m \<Longrightarrow> P \<subseteq> Q \<Longrightarrow> touches Q m"
  by (auto simp: touches_def intro: same_except_mono)

lemma touches_return [frame]: "touches P (io_return x)"
  by (simp add: touches_def)

lemma touches_fail [frame]: "touches P (io_fail e)"
  by (simp add: touches_def)

lemma touches_bind [frame]:
  "touches P m \<Longrightarrow> (\<And>x. touches P (f x)) \<Longrightarrow> touches P (io_bind m f)"
  unfolding touches_def io_bind_def
  by (auto split: prod.splits sum.splits) (metis same_except_trans snd_conv)+

lemma touches_try [frame]:
  "touches P m \<Longrightarrow> (\<And>x. touches P (f x)) \<Longrightarrow> touches P (io_try m f)"
  unfolding touches_def io_try_def
  by (auto split: prod.splits) (metis same_except_trans snd_conv)

lemma touches_defer [frame]: "touches P c \<Longrightarrow> touches P m \<Longrightarrow> touches P (io_defer c m)"
  unfolding touches_def io_defer_def
  by (auto split: prod.splits) (metis same_except_trans snd_conv)

lemma touches_wrap [frame]: "touches P m \<Longrightarrow> touches P (io_wrap msg m)"
  unfolding touches_def io_wrap_def
  by (auto split: prod.splits sum.splits) (metis snd_conv)+

lemma touches_iter [frame]: "(\<And>x. touches P (f x)) \<Longrightarrow> touches P (io_iter f xs)"
  by (induction xs) (auto intro!: frame)

lemma touches_iter_set: "(\<And>x. x \<in> set xs \<Longrightarrow> touches P (f x)) \<Longrightarrow> touches P (io_iter f xs)"
  by (induction xs) (auto intro!: frame)

lemma touches_if [frame]: "touches P a \<Longrightarrow> touches P b \<Longrightarrow> touches P (if c then a else b)"
  by simp

lemma touches_case_sum [frame]:
  "(\<And>e. touches P (f e)) \<Longrightarrow> (\<And>x. touches P (g x)) \<Longrightarrow> touches P (case r of Inl e \<Rightarrow> f e | Inr x \<Rightarrow> g x)"
  by (cases r) auto

lemma touches_case_option [frame]:
  "touches P a \<Longrightarrow> (\<And>x. touches P (g x)) \<Longrightarrow> touches P (case r of None \<Rightarrow> a | Some x \<Rightarrow> g x)"
  by (cases r) auto

lemma touches_case_prod [frame]:
  "(\<And>a b. touches P (g a b)) \<Longrightarrow> touches P (case p of (a, b) \<Rightarrow> g a b)"
  by (cases p) auto

lemma touches_syscall: "(\<And>s. same_except P s (snd (m s))) \<Longrightarrow> touches P (syscall m)"
proof -
  assume a: "\<And>s. same_except P s (snd (m s))"
  have "same_except P s (snd (m (s\<lparr>faults := bs\<rparr>)))" for s bs
    using a [of "s\<lparr>faults := bs\<rparr>"] by (simp add: same_except_def)
  then show ?thesis
    using a by (auto simp: touches_def syscall_def same_except_def split: list.splits)
qed

lemma touches_read_only: "read_only m \<Longrightarrow> touches P m"
  by (auto simp: touches_def read_only_def same_except_def)

lemma touches_calls [frame]:
  "touches P (fs_lstat p)" "touches P (fs_stat p)" "touches P (fs_read_file p)"
  "touches P (fs_eval_symlinks p)" "touches P (fs_read_dir p)" "touches P (fs_sync p)"
  "touches P (fs_close p)"
  by (simp_all add: touches_read_only)

lemma touches_changes [frame]:
  "p \<in> P \<Longrightarrow> touches P (fs_chmod p m)"
  "p \<in> P \<Longrightarrow> touches P (fs_write p d)"
  "p \<in> P \<Longrightarrow> touches P (fs_create_excl p m)"
  "p \<in> P \<Longrightarrow> touches P (fs_remove p)"
  unfolding fs_chmod_def fs_write_def fs_create_excl_def fs_remove_def
  by (auto intro!: touches_syscall simp: same_except_def split: option.splits node.splits)

lemma touches_remove_all [frame]: "{q. q = p \<or> under p q} \<subseteq> P \<Longrightarrow> touches P (fs_remove_all p)"
proof -
  assume P: "{q. q = p \<or> under p q} \<subseteq> P"
  have "map_of (filter (\<lambda>(q, _). q \<noteq> p \<and> \<not> under p q) t) x = map_of t x" if "x \<notin> P" for x t
    using that P by (induction t) auto
  then show ?thesis
    unfolding fs_remove_all_def by (auto intro!: touches_syscall simp: same_except_def node_at_def)
qed

lemma touches_create_temp [frame]:
  "range (temp_name d pat) \<subseteq> P \<Longrightarrow> touches P (fs_create_temp d pat)"
  by (rule touchesI, drule fs_create_temp_result) (auto simp: same_except_def split: sum.splits)

lemma touches_mkdir_chain: "set ds \<subseteq> P \<Longrightarrow> touches P (mkdir_chain m ds)"
proof (induction ds)
  case Nil
  then show ?case by (simp add: touches_def)
next
  case (Cons d ds)
  then have ih: "same_except P s (snd (mkdir_chain m ds s))" for s by (simp add: touches_def)
  have "same_except P s (snd (mkdir_chain m ds (put_node d (Directory m) s)))" for s
    using ih [of "put_node d (Directory m) s"] Cons.prems by (auto simp: same_except_def)
  then show ?case
    using ih by (auto simp: touches_def split: sum.splits node.splits go_error.splits)
qed

lemma touches_mkdir_all [frame]:
  "set (ancestors_from [slash] (elems d)) \<subseteq> P \<Longrightarrow> touches P (fs_mkdir_all d m)"
  unfolding fs_mkdir_all_def
  by (rule touches_syscall) (use touches_mkdir_chain in \<open>auto simp: touches_def\<close>)

text \<open>After a successful \<open>MkdirAll\<close> every directory of the chain exists.\<close>

lemma follow_link_cong: "node_at s = node_at t \<Longrightarrow> follow_link n s p = follow_link n t p"
  by (induction n arbitrary: p) (subst (1 2) follow_link.simps, simp split: option.splits node.splits)+

lemma follow_link_exists: "follow_link n s p = Inr nd \<Longrightarrow> node_at s p \<noteq> None"
  by (subst (asm) follow_link.simps) (auto split: option.splits)

lemma mkdir_chain_exists:
  "mkdir_chain m ds s = (Inr (), s') \<Longrightarrow> d \<in> set ds \<Longrightarrow> node_at s' d \<noteq> None"
proof (induction ds arbitrary: s)
  case Nil
  then show ?case by simp
next
  case (Cons x ds)
  obtain s1 where rest: "mkdir_chain m ds s1 = (Inr (), s')" and x: "node_at s1 x \<noteq> None"
  proof (cases "follow_link max_links s x")
    case (Inl e)
    then show thesis
      using Cons.prems(1) that [of "put_node x (Directory m) s"]
      by (auto split: go_error.splits if_splits)
  next
    case (Inr n)
    then show thesis
      using Cons.prems(1) that [of s] follow_link_exists [OF Inr] by (auto split: node.splits)
  qed
  show ?case
  proof (cases "d = x")
    case True
    then show ?thesis using mkdir_chain_result [OF rest] x by metis
  next
    case False
    then show ?thesis using Cons.IH [OF rest] Cons.prems(2) by simp
  qed
qed

lemma ancestors_last:
  "es \<noteq> [] \<Longrightarrow> list_all plain_elem es \<Longrightarrow> dir_prefix d @ join [slash] es \<in> set (ancestors_from d es)"
proof (induction es arbitrary: d)
  case Nil
  then show ?case by simp
next
  case (Cons e es)
  show ?case
  proof (cases es)
    case Nil
    then show ?thesis by simp
  next
    case (Cons f fs)
    have "dir_prefix d @ e \<noteq> [slash]"
      using Cons.prems(2) by (cases e) (auto simp: dir_prefix_def plain_elem_def)
    then have "dir_prefix (dir_prefix d @ e) = dir_prefix d @ e @ [slash]"
      by (simp add: dir_prefix_def)
    then show ?thesis
      using Cons.IH [of "dir_prefix d @ e"] Cons.prems(2) Cons by simp
  qed
qed

lemma ancestors_length:
  "x \<in> set (ancestors_from p es) \<Longrightarrow> length x \<le> length (dir_prefix p) + length (join [slash] es)"
proof (induction es arbitrary: p)
  case Nil
  then show ?case by simp
next
  case (Cons e es)
  have pre: "length (dir_prefix (dir_prefix p @ e)) \<le> length (dir_prefix p) + length e + 1"
    by (simp add: dir_prefix_def)
  show ?case
  proof (cases "x = dir_prefix p @ e")
    case True
    then show ?thesis by (cases es) auto
  next
    case False
    then have "es \<noteq> []" and "length x \<le> length (dir_prefix (dir_prefix p @ e)) + length (join [slash] es)"
      using Cons.prems Cons.IH [of "dir_prefix p @ e"] by auto
    then show ?thesis using pre by (simp add: join_Cons)
  qed
qed

text \<open>Making the directory of a path never makes the path itself.\<close>

lemma not_own_ancestor:
  assumes "is_abs d" and "clean d = d" and "d \<noteq> [slash]"
  shows "d \<notin> set (ancestors_from [slash] (elems (path_dir d)))"
proof
  note sp = path_split_abs [OF assms]
  assume "d \<in> set (ancestors_from [slash] (elems (path_dir d)))"
  then have "length d \<le> length (dir_prefix [slash]) + length (join [slash] (elems (path_dir d)))"
    by (rule ancestors_length)
  moreover have "length (path_dir d) = 1 + length (join [slash] (elems (path_dir d)))"
    using clean_abs_form [OF sp(2)] sp(3) by (metis One_nat_def add.commute list.size(4) add_Suc_right add_0_right)
  moreover have "length d = length (dir_prefix (path_dir d)) + length (path_base d)"
    using sp(1) by (metis length_append)
  moreover have "0 < length (path_base d)" using sp(4) by (auto simp: plain_elem_def)
  moreover have "length (path_dir d) \<le> length (dir_prefix (path_dir d))" "length (dir_prefix [slash]) = 1"
    by (simp_all add: dir_prefix_def)
  ultimately show False by simp
qed

lemma fs_mkdir_all_exists:
  assumes "fs_mkdir_all d m s = (Inr (), s')" and "is_abs d" and "clean d = d" and "d \<noteq> [slash]"
  shows "node_at s' d \<noteq> None"
proof -
  have es: "list_all plain_elem (elems d)" and d: "d = slash # join [slash] (elems d)"
    using plain_elems_clean [OF assms(2)] clean_abs_form [OF assms(2)] assms(3) by auto
  have "elems d \<noteq> []" using d assms(4) by auto
  then have "dir_prefix [slash] @ join [slash] (elems d) \<in> set (ancestors_from [slash] (elems d))"
    using es by (rule ancestors_last)
  then have "d \<in> set (ancestors_from [slash] (elems d))" using d by (simp add: dir_prefix_def)
  then show ?thesis
    using assms(1) mkdir_chain_exists unfolding fs_mkdir_all_def
    by (auto elim!: syscall_cases)
qed

end
