(* ===== verification/Safety_File.thy ===== *)
theory Safety_File
  imports Go_Fs
begin

text \<open>
  \<^verbatim>\<open>internal/safety\<close>: files published with a rename (\<^verbatim>\<open>atomic.go\<close>), destinations swapped with a
  way back (\<^verbatim>\<open>swap.go\<close>), and the check every external command passes (\<^verbatim>\<open>command.go\<close>).
  The locale \<open>atomic_writer\<close> is the contract the callers of \<^verbatim>\<open>WriteFileAtomic\<close> rely on; it is
  interpreted here on that function and elsewhere on the other publishers of the program.
\<close>

subsection \<open>The temporary file of a publish\<close>

record atomic_file =
  af_file :: bool
  af_path :: string
  af_closed :: bool

definition new_atomic_file :: "string \<Rightarrow> string \<Rightarrow> atomic_file io" where
  "new_atomic_file dir pattern =
     io_bind (fs_create_temp dir pattern)
       (\<lambda>p. io_return \<lparr>af_file = True, af_path = p, af_closed = False\<rparr>)"

definition af_sync :: "atomic_file option \<Rightarrow> unit io" where
  "af_sync a =
     (case a of
        None \<Rightarrow> io_fail (Msg ''atomic file is closed'')
      | Some f \<Rightarrow> if \<not> af_file f \<or> af_closed f then io_fail (Msg ''atomic file is closed'')
                  else fs_sync (af_path f))"

text \<open>\<^verbatim>\<open>Close\<close> marks the file closed even when the close fails: the result carries the file.\<close>

definition af_close :: "atomic_file option \<Rightarrow> os \<Rightarrow> (go_error + unit) \<times> atomic_file option \<times> os" where
  "af_close a s =
     (case a of
        None \<Rightarrow> (Inl (Msg ''atomic file is unavailable''), a, s)
      | Some f \<Rightarrow>
          if \<not> af_file f then (Inl (Msg ''atomic file is unavailable''), a, s)
          else if af_closed f then (Inr (), a, s)
          else (case fs_close (af_path f) s of (r, s') \<Rightarrow> (r, Some (f\<lparr>af_closed := True\<rparr>), s')))"

definition af_publish :: "atomic_file option \<Rightarrow> string \<Rightarrow> unit io" where
  "af_publish a dest =
     (case a of
        None \<Rightarrow> io_fail (Msg ''atomic file is unavailable'')
      | Some f \<Rightarrow>
          if \<not> af_file f then io_fail (Msg ''atomic file is unavailable'')
          else if \<not> af_closed f then io_fail (Msg ''atomic file must be closed before publish'')
          else fs_rename (af_path f) dest)"

definition af_cleanup :: "atomic_file option \<Rightarrow> os \<Rightarrow> (go_error + unit) \<times> atomic_file option \<times> os" where
  "af_cleanup a s =
     (case a of
        None \<Rightarrow> (Inr (), a, s)
      | Some f \<Rightarrow>
          (let closing = af_file f \<and> \<not> af_closed f;
               s1 = (if closing then snd (fs_close (af_path f) s) else s);
               f1 = (if closing then f\<lparr>af_closed := True\<rparr> else f)
           in if af_path f = [] then (Inr (), Some f1, s1)
              else (case fs_remove (af_path f) s1 of
                      (Inl e, s2) \<Rightarrow> (if is_not_exist e then Inr () else Inl e, Some f1, s2)
                    | (Inr _, s2) \<Rightarrow> (Inr (), Some f1, s2))))"

definition write_body ::
    "string \<Rightarrow> string \<Rightarrow> nat \<Rightarrow> atomic_file \<Rightarrow> os \<Rightarrow> (go_error + unit) \<times> atomic_file option \<times> os" where
  "write_body dest data mode a s =
     (case fs_chmod (af_path a) mode s of
        (Inl e, s1) \<Rightarrow> (Inl e, Some a, s1)
      | (Inr _, s1) \<Rightarrow>
        (case fs_write (af_path a) data s1 of
           (Inl e, s2) \<Rightarrow> (Inl e, Some a, s2)
         | (Inr _, s2) \<Rightarrow>
           (case af_sync (Some a) s2 of
              (Inl e, s3) \<Rightarrow> (Inl e, Some a, s3)
            | (Inr _, s3) \<Rightarrow>
              (case af_close (Some a) s3 of
                 (Inl e, a', s4) \<Rightarrow> (Inl e, a', s4)
               | (Inr _, a', s4) \<Rightarrow>
                 (case af_publish a' dest s4 of (r, s5) \<Rightarrow> (r, a', s5))))))"

text \<open>The deferred \<^verbatim>\<open>Cleanup\<close> runs on every way out. Other packages publish their files with the
  same calls under a name pattern of their own.\<close>

definition publish_via :: "string \<Rightarrow> string \<Rightarrow> string \<Rightarrow> string \<Rightarrow> nat \<Rightarrow> unit io" where
  "publish_via dir pattern dest data mode =
     io_bind (new_atomic_file dir pattern)
        (\<lambda>a s. case write_body dest data mode a s of
                 (r, a', s') \<Rightarrow> (r, snd (snd (af_cleanup a' s'))))"

definition write_file_atomic :: "string \<Rightarrow> string \<Rightarrow> nat \<Rightarrow> unit io" where
  "write_file_atomic dest data mode =
     (if dest = [] then io_fail (Msg ''atomic destination is empty'')
      else publish_via (path_dir dest) (''.'' @ path_base dest @ ''.tmp-*'') dest data mode)"

definition create_exclusive_file :: "string \<Rightarrow> nat \<Rightarrow> string io" where
  "create_exclusive_file p mode =
     (if p = [] then io_fail (Msg ''exclusive file path is empty'')
      else io_bind (fs_create_excl p mode) (\<lambda>_. io_return p))"

subsection \<open>The contract of a publisher\<close>

text \<open>
  \<open>put_file dest data mode\<close> either publishes the whole of \<open>data\<close> at \<open>dest\<close> or leaves \<open>dest\<close> as it
  was, and in both cases changes nothing else that existed, for every destination that is a
  \<open>target\<close> of the publisher.
\<close>

definition target_ok :: "string \<Rightarrow> bool" where
  "target_ok d \<longleftrightarrow> is_abs d \<and> clean d = d \<and> d \<noteq> [slash]"

locale atomic_writer =
  fixes put_file :: "string \<Rightarrow> string \<Rightarrow> nat \<Rightarrow> unit io"
    and mode_of :: "nat \<Rightarrow> nat"
    and target :: "string \<Rightarrow> bool"
  assumes published: "\<lbrakk>target d; put_file d c m s = (Inr (), s')\<rbrakk>
      \<Longrightarrow> node_at s' d = Some (Regular (mode_of m) c)"
    and kept: "\<lbrakk>target d; put_file d c m s = (Inl e, s')\<rbrakk> \<Longrightarrow> node_at s' d = node_at s d"
    and elsewhere: "\<lbrakk>target d; put_file d c m s = (r, s'); p \<noteq> d; node_at s p \<noteq> None\<rbrakk>
      \<Longrightarrow> node_at s' p = node_at s p"
begin

text \<open>A reader of \<open>d\<close> sees the old node or the complete new file, whatever fails.\<close>

lemma old_or_new:
  "\<lbrakk>target d; put_file d c m s = (r, s')\<rbrakk> \<Longrightarrow>
   node_at s' d = (if is_ok r then Some (Regular (mode_of m) c) else node_at s d)"
  by (cases r) (auto dest: published kept)

text \<open>Writes one after the other, errors ignored: the last one that succeeded is what is there.\<close>

fun write_all :: "string \<Rightarrow> nat \<Rightarrow> string list \<Rightarrow> os \<Rightarrow> string option \<times> os" where
  "write_all d m [] s = (None, s)"
| "write_all d m (c # cs) s =
     (case put_file d c m s of (r, s1) \<Rightarrow>
        (case write_all d m cs s1 of (l, s2) \<Rightarrow>
           (case l of None \<Rightarrow> if is_ok r then Some c else None | Some x \<Rightarrow> Some x, s2)))"

lemma write_all_last:
  "\<lbrakk>target d; write_all d m cs s = (l, s')\<rbrakk> \<Longrightarrow>
   node_at s' d = (case l of None \<Rightarrow> node_at s d | Some c \<Rightarrow> Some (Regular (mode_of m) c))
   \<and> (\<forall>c. l = Some c \<longrightarrow> c \<in> set cs)"
proof (induction cs arbitrary: s l s')
  case Nil
  then show ?case by simp
next
  case (Cons c cs)
  obtain r s1 where w: "put_file d c m s = (r, s1)" by fastforce
  obtain l2 s2 where a: "write_all d m cs s1 = (l2, s2)" by fastforce
  have "node_at s1 d = (if is_ok r then Some (Regular (mode_of m) c) else node_at s d)"
    using Cons.prems(1) w by (rule old_or_new)
  then show ?case
    using Cons.IH [OF Cons.prems(1) a] Cons.prems(2) w a
    by (auto split: option.splits if_splits)
qed

end

subsection \<open>\<open>WriteFileAtomic\<close> meets the contract\<close>

lemma temp_name_star:
  "CHR ''*'' \<notin> set a \<Longrightarrow> temp_name d (a @ ''*'') r = dir_prefix d @ a @ r"
  by (simp add: temp_name_def split_char_append)

lemma length_temp_name: "length (dir_prefix d) + length pat \<le> Suc (length (temp_name d pat r))"
proof -
  have "length (join ''*'' (butlast ps)) + length (last ps) + 1 = length (join ''*'' ps)"
    if two: "2 \<le> length ps" for ps :: "string list"
  proof -
    obtain qs q where ps: "ps = qs @ [q]"
      using two by (cases ps rule: rev_cases) auto
    moreover from this have "qs \<noteq> []"
      using two by auto
    ultimately show ?thesis by (simp add: join_snoc)
  qed
  from this [of "split_char CHR ''*'' pat"] show ?thesis
    using join_split_char [of "CHR ''*''" pat] by (auto simp: temp_name_def Let_def not_less)
qed

lemma temp_not_target:
  "target_ok d \<Longrightarrow> temp_name (path_dir d) (''.'' @ path_base d @ ''.tmp-*'') r \<noteq> d"
proof
  assume ok: "target_ok d" and eq: "temp_name (path_dir d) (''.'' @ path_base d @ ''.tmp-*'') r = d"
  have "length d = length (dir_prefix (path_dir d)) + length (path_base d)"
    using ok path_split_abs(1) [of d] unfolding target_ok_def by (metis length_append)
  then show False
    using length_temp_name [of "path_dir d" "''.'' @ path_base d @ ''.tmp-*''" r] eq by simp
qed

lemma write_body_result:
  assumes "write_body d c m a s = (r, a', s')"
    and "node_at s (af_path a) = Some (Regular k [])" and "af_file a" and "\<not> af_closed a"
    and "af_path a \<noteq> d"
  shows "\<exists>f. a' = Some f \<and> af_path f = af_path a \<and>
    (if is_ok r then node_at s' = ((node_at s)(af_path a := None))(d \<mapsto> Regular m c)
     else (\<forall>q. q \<noteq> af_path a \<longrightarrow> node_at s' q = node_at s q))"
proof -
  let ?p = "af_path a"
  obtain r1 s1 where 1: "fs_chmod ?p m s = (r1, s1)" by fastforce
  obtain r2 s2 where 2: "fs_write ?p c s1 = (r2, s2)" by fastforce
  obtain r3 s3 where 3: "fs_sync ?p s2 = (r3, s3)" by fastforce
  obtain r4 s4 where 4: "fs_close ?p s3 = (r4, s4)" by fastforce
  obtain r5 s5 where 5: "fs_rename ?p d s4 = (r5, s5)" by fastforce
  note unfolded = assms(1) [unfolded write_body_def 1 af_sync_def af_close_def af_publish_def]
  have n1: "node_at s1 = (if is_ok r1 then (node_at s)(?p \<mapsto> Regular m []) else node_at s)"
    using fs_chmod_result [OF 1 assms(2)] by (cases r1) auto
  show ?thesis
  proof (cases r1)
    case (Inl e)
    then show ?thesis using unfolded n1 by auto
  next
    case r1: (Inr u)
    then have "node_at s1 ?p = Some (Regular m [])" using n1 by simp
    from fs_write_result [OF 2 this]
    have n2: "node_at s2 = (node_at s)(?p \<mapsto> Regular m (if is_ok r2 then c else []))"
      using n1 r1 by (cases r2) auto
    have n3: "node_at s3 = node_at s2" by (rule fs_sync_result [OF 3])
    have n4: "node_at s4 = node_at s3" by (rule fs_close_result [OF 4])
    have "node_at s4 ?p = Some (Regular m (if is_ok r2 then c else []))"
      using n2 n3 n4 by simp
    from fs_rename_file_result [OF 5 this assms(5)]
    have n5: "node_at s5 = (if is_ok r5 then ((node_at s)(?p := None))(d \<mapsto> Regular m (if is_ok r2 then c else []))
        else (node_at s)(?p \<mapsto> Regular m (if is_ok r2 then c else [])))"
      using n2 n3 n4 by (cases r5) auto
    show ?thesis
      using unfolded r1 2 3 4 5 n2 n3 n4 n5 assms(3,4)
      by (auto split: sum.splits simp: is_ok_iff)
  qed
qed

lemma af_cleanup_result:
  assumes "af_cleanup (Some f) s = (r, a', s')"
  shows "\<forall>p. p \<noteq> af_path f \<longrightarrow> node_at s' p = node_at s p"
    and "node_at s (af_path f) = None \<Longrightarrow> node_at s' = node_at s"
proof -
  obtain rc sc where c: "fs_close (af_path f) s = (rc, sc)" by fastforce
  have nc: "node_at sc = node_at s" by (rule fs_close_result [OF c])
  have rm: "node_at s2 = node_at u \<or> node_at s2 = (node_at u)(af_path f := None)"
    if "fs_remove (af_path f) u = (r2, s2)" for u r2 s2
    using that unfolding fs_remove_def
    by (elim syscall_cases) (auto split: option.splits if_splits)
  have abs: "node_at s2 = node_at u"
    if "fs_remove (af_path f) u = (r2, s2)" "node_at u (af_path f) = None" for u r2 s2
    using fs_remove_absent [OF that] by simp
  show "\<forall>p. p \<noteq> af_path f \<longrightarrow> node_at s' p = node_at s p"
    using assms c nc
    by (auto simp: af_cleanup_def Let_def split: if_splits prod.splits sum.splits dest!: rm)
  show "node_at s (af_path f) = None \<Longrightarrow> node_at s' = node_at s"
    using assms c nc
    by (auto simp: af_cleanup_def Let_def split: if_splits prod.splits sum.splits dest!: abs)
qed

lemma publish_via_outcome:
  assumes away: "\<And>x. temp_name dir pat x \<noteq> d" and w: "publish_via dir pat d c m s = (r, s')"
  shows "(\<not> is_ok r \<and> node_at s' = node_at s) \<or>
    (\<exists>x. let t = temp_name dir pat x in
       node_at s t = None \<and> (\<forall>p. p \<noteq> d \<and> p \<noteq> t \<longrightarrow> node_at s' p = node_at s p) \<and>
       (if is_ok r then node_at s' d = Some (Regular m c) \<and> node_at s' t = None
        else node_at s' d = node_at s d))"
proof -
  obtain rt s1 where t: "fs_create_temp dir pat s = (rt, s1)" by fastforce
  show ?thesis
  proof (cases rt)
    case (Inl e)
    then have "r = Inl e" "node_at s' = node_at s"
      using w t fs_create_temp_result [OF t]
      by (auto simp: publish_via_def new_atomic_file_def io_bind_def)
    then show ?thesis by simp
  next
    case (Inr p)
    then obtain x where x: "p = temp_name dir pat x"
      and p: "node_at s p = None" "node_at s1 = (node_at s)(p \<mapsto> Regular 384 [])" "p \<noteq> d"
      using fs_create_temp_result [OF t] away by auto
    let ?a = "\<lparr>af_file = True, af_path = p, af_closed = False\<rparr>"
    obtain r2 a2 s2 where b: "write_body d c m ?a s1 = (r2, a2, s2)"
      by (metis prod_cases3)
    obtain f where f: "a2 = Some f" "af_path f = p"
      and res: "if is_ok r2 then node_at s2 = ((node_at s1)(p := None))(d \<mapsto> Regular m c)
         else (\<forall>q. q \<noteq> p \<longrightarrow> node_at s2 q = node_at s1 q)"
      using write_body_result [OF b, of 384] p by (auto split: if_splits)
    obtain rc ac s3 where cl: "af_cleanup (Some f) s2 = (rc, ac, s3)"
      by (metis prod_cases3)
    have final: "r = r2" "s' = s3"
      using w t Inr b f cl by (auto simp: publish_via_def new_atomic_file_def io_bind_def)
    have other: "\<forall>q. q \<noteq> p \<longrightarrow> node_at s3 q = node_at s2 q"
      using af_cleanup_result(1) [OF cl] f by simp
    have gone: "is_ok r2 \<Longrightarrow> node_at s3 = node_at s2"
      using af_cleanup_result(2) [OF cl] f res p by auto
    show ?thesis
      unfolding Let_def
      by (rule disjI2, rule exI [of _ x]) (use p final other gone res x in \<open>auto split: if_splits\<close>)
  qed
qed

lemma publish_via_result:
  assumes away: "\<And>x. temp_name dir pat x \<noteq> d" and w: "publish_via dir pat d c m s = (r, s')"
  shows "\<exists>t. node_at s t = None \<and> t \<noteq> d \<and> (\<forall>p. p \<noteq> d \<and> p \<noteq> t \<longrightarrow> node_at s' p = node_at s p) \<and>
     (if is_ok r then node_at s' d = Some (Regular m c) \<and> node_at s' t = None
      else node_at s' d = node_at s d)"
proof -
  have "infinite (UNIV :: string set)"
    by (rule infinite_UNIV_listI)
  moreover have "finite (insert d (fst ` set (tree s)))"
    by simp
  ultimately obtain t where "t \<notin> insert d (fst ` set (tree s))"
    by (meson ex_new_if_finite)
  then have free: "node_at s t = None \<and> t \<noteq> d"
    unfolding node_at_def by (auto simp: map_of_eq_None_iff)
  from publish_via_outcome [OF away w] show ?thesis
  proof
    assume "\<not> is_ok r \<and> node_at s' = node_at s"
    then show ?thesis using free by auto
  next
    assume "\<exists>x. let t = temp_name dir pat x in
       node_at s t = None \<and> (\<forall>p. p \<noteq> d \<and> p \<noteq> t \<longrightarrow> node_at s' p = node_at s p) \<and>
       (if is_ok r then node_at s' d = Some (Regular m c) \<and> node_at s' t = None
        else node_at s' d = node_at s d)"
    then obtain x where "node_at s (temp_name dir pat x) = None"
        "\<forall>p. p \<noteq> d \<and> p \<noteq> temp_name dir pat x \<longrightarrow> node_at s' p = node_at s p"
        "if is_ok r then node_at s' d = Some (Regular m c) \<and> node_at s' (temp_name dir pat x) = None
         else node_at s' d = node_at s d"
      by (auto simp: Let_def)
    then show ?thesis using away by (intro exI [of _ "temp_name dir pat x"]) auto
  qed
qed

text \<open>All it can change is the destination and its temporary file.\<close>

lemma publish_via_touches:
  assumes away: "\<And>x. temp_name dir pat x \<noteq> d" and P: "insert d (range (temp_name dir pat)) \<subseteq> P"
  shows "touches P (publish_via dir pat d c m)"
proof (rule touchesI)
  fix s r s'
  assume "publish_via dir pat d c m s = (r, s')"
  from publish_via_outcome [OF away this] P show "same_except P s s'"
    by (fastforce simp: same_except_def Let_def)
qed

lemma write_file_atomic_result:
  assumes ok: "target_ok d" and w: "write_file_atomic d c m s = (r, s')"
  shows "\<exists>t. node_at s t = None \<and> t \<noteq> d \<and> (\<forall>p. p \<noteq> d \<and> p \<noteq> t \<longrightarrow> node_at s' p = node_at s p) \<and>
     (if is_ok r then node_at s' d = Some (Regular m c) \<and> node_at s' t = None
      else node_at s' d = node_at s d)"
proof -
  have "d \<noteq> []" using ok by (auto simp: target_ok_def is_abs_def)
  then have "publish_via (path_dir d) (''.'' @ path_base d @ ''.tmp-*'') d c m s = (r, s')"
    using w by (simp add: write_file_atomic_def)
  then show ?thesis by (rule publish_via_result [OF temp_not_target [OF ok]])
qed

lemma write_file_atomic_touches:
  assumes "target_ok d" and "insert d (range (temp_name (path_dir d) (''.'' @ path_base d @ ''.tmp-*''))) \<subseteq> P"
  shows "touches P (write_file_atomic d c m)"
proof -
  have "d \<noteq> []" using assms(1) by (auto simp: target_ok_def is_abs_def)
  then have "write_file_atomic d c m = publish_via (path_dir d) (''.'' @ path_base d @ ''.tmp-*'') d c m"
    by (simp add: write_file_atomic_def)
  then show ?thesis using publish_via_touches [OF temp_not_target [OF assms(1)] assms(2)] by simp
qed

interpretation wfa: atomic_writer write_file_atomic "\<lambda>m. m" target_ok
proof (unfold_locales, goal_cases)
  case (1 d c m s s')
  then show ?case using write_file_atomic_result [OF 1] by auto
next
  case (2 d c m s e s')
  then show ?case using write_file_atomic_result [OF 2] by auto
next
  case (3 d c m s r s' p)
  obtain t where "node_at s t = None" and "\<forall>q. q \<noteq> d \<and> q \<noteq> t \<longrightarrow> node_at s' q = node_at s q"
    using write_file_atomic_result [OF 3(1,2)] by blast
  then show ?case using 3(3,4) by metis
qed

text \<open>C24: a file published by \<^verbatim>\<open>WriteFileAtomic\<close> is never seen half written: whichever call fails,
  the destination holds either the complete new content or exactly what it held before, the result
  says which, and no other existing file changes.\<close>

theorem write_file_atomic_old_or_new:
  "target_ok d \<Longrightarrow> write_file_atomic d c m s = (r, s') \<Longrightarrow>
   node_at s' d = (if is_ok r then Some (Regular m c) else node_at s d) \<and>
   (\<forall>p. p \<noteq> d \<and> node_at s p \<noteq> None \<longrightarrow> node_at s' p = node_at s p)"
  using wfa.old_or_new wfa.elsewhere by blast

definition atomic_os :: "os" where
  "atomic_os = \<lparr>tree = [(''/d'', Directory 493), (''/d/f'', Regular 420 ''old'')],
                faults = [False, False, False, True], entropy = [''1''], realpath = Inr\<rparr>"

theorem write_file_atomic_witness:
  "fst (write_file_atomic ''/d/f'' ''new'' 384 atomic_os) = Inl ErrIO \<and>
   node_at (snd (write_file_atomic ''/d/f'' ''new'' 384 atomic_os)) ''/d/f'' = Some (Regular 420 ''old'')"
proof -
  have "target_ok ''/d/f''" "fst (write_file_atomic ''/d/f'' ''new'' 384 atomic_os) = Inl ErrIO"
    "node_at atomic_os ''/d/f'' = Some (Regular 420 ''old'')" by code_simp+
  then show ?thesis
    using write_file_atomic_old_or_new [OF _ surjective_pairing, of "''/d/f''" "''new''" 384 atomic_os] by simp
qed

subsection \<open>Swapping a destination with a way back\<close>

text \<open>The result carries \<^verbatim>\<open>HadCurrent\<close> beside the error, as in the code.\<close>

definition swap_path :: "string \<Rightarrow> string \<Rightarrow> string \<Rightarrow> os \<Rightarrow> (bool \<times> go_error option) \<times> os" where
  "swap_path staged destination rollback s =
     (if staged = [] \<or> destination = [] \<or> rollback = [] then
        ((False, Some (Msg ''swap paths must not be empty'')), s)
      else if staged = destination \<or> staged = rollback \<or> destination = rollback then
        ((False, Some (Msg ''swap paths must be distinct'')), s)
      else
        (let publish = (\<lambda>had s1.
               case fs_rename staged destination s1 of
                 (Inr _, s2) \<Rightarrow> ((had, None), s2)
               | (Inl e, s2) \<Rightarrow>
                   if had then
                     (case fs_rename rollback destination s2 of
                        (Inl e', s3) \<Rightarrow>
                          ((had, Some (Wrap (''publish staged path: '' @ error_text e @ ''; rollback failed: '') e')), s3)
                      | (Inr _, s3) \<Rightarrow> ((had, Some (Wrap ''publish staged path: '' e)), s3))
                   else ((had, Some (Wrap ''publish staged path: '' e)), s2))
         in case fs_stat destination s of
              (Inr _, s0) \<Rightarrow>
                (case fs_rename destination rollback s0 of
                   (Inl e, s1) \<Rightarrow>
                     ((False, Some (Wrap ''stage current destination for rollback: '' e)), s1)
                 | (Inr _, s1) \<Rightarrow> publish True s1)
            | (Inl e, s0) \<Rightarrow>
                if is_not_exist e then publish False s0
                else ((False, Some (Wrap ''inspect current destination: '' e)), s0)))"

definition cleanup_rollback :: "string \<Rightarrow> bool \<Rightarrow> unit io" where
  "cleanup_rollback p had =
     (if \<not> had then io_return ()
      else if p = [] then io_fail (Msg ''rollback path must not be empty'')
      else io_wrap ''remove rollback path: '' (fs_remove_all p))"

text \<open>The error of a publish that failed and whose rollback failed too.\<close>

definition rollback_failed :: "go_error \<Rightarrow> bool" where
  "rollback_failed e \<longleftrightarrow>
     (\<exists>a b. e = Wrap (''publish staged path: '' @ error_text a @ ''; rollback failed: '') b)"

text \<open>A rename between files, whatever it returns.\<close>

definition file_at :: "os \<Rightarrow> string \<Rightarrow> bool" where
  "file_at s p \<longleftrightarrow> (\<exists>m c. node_at s p = Some (Regular m c))"

lemma fs_rename_error: "fs_rename a b s = (Inl e, s') \<Longrightarrow> node_at s' = node_at s"
  unfolding fs_rename_def
  by (erule syscall_cases) (auto split: option.splits if_splits node.splits)

lemma fs_rename_file:
  "\<lbrakk>fs_rename a b s = (Inr u, s'); file_at s a; a \<noteq> b\<rbrakk> \<Longrightarrow>
   node_at s' = ((node_at s)(a := None))(b := node_at s a)"
  unfolding file_at_def using fs_rename_file_result [of a b s "Inr u" s'] by auto

lemma fs_stat_result: "fs_stat p s = (r, s') \<Longrightarrow> node_at s' = node_at s"
  by (rule read_only_node_at [OF read_only_calls(2)])

lemma fs_stat_absent: "fs_stat p s = (Inl e, s') \<Longrightarrow> is_not_exist e \<Longrightarrow> file_at s p \<Longrightarrow> False"
  unfolding fs_stat_def file_at_def
  by (erule syscall_cases) (auto simp: follow_link.simps)

lemma swap_publish_file:
  assumes "file_at s staged" and "staged \<noteq> destination"
  shows "fs_rename staged destination s = (Inr u, s') \<Longrightarrow>
     node_at s' = ((node_at s)(staged := None))(destination := node_at s staged)"
    and "fs_rename staged destination s = (Inl e, s') \<Longrightarrow> node_at s' = node_at s"
  using assms by (auto dest: fs_rename_file fs_rename_error)


definition swap_os :: "os" where
  "swap_os = \<lparr>tree = [(''/a'', Regular 420 ''new''), (''/b'', Regular 420 ''old'')], faults = [False, False, True],
              entropy = [], realpath = Inr\<rparr>"


subsection \<open>Commands\<close>

definition nul :: "char" where
  "nul = char_of (0::nat)"

definition validate_command :: "bool \<Rightarrow> string \<Rightarrow> string list \<Rightarrow> go_error option" where
  "validate_command has_ctx program args =
     (if \<not> has_ctx then Some (Msg ''command context is nil'')
      else if trim_space program = [] then Some (Msg ''command program is empty'')
      else if nul \<in> set program then Some (Msg ''command program contains NUL'')
      else if list_ex (\<lambda>a. nul \<in> set a) args then Some (Msg ''command argument contains NUL'')
      else None)"

text \<open>The external program is a parameter: it gets the program name and the arguments and gives
  the combined output and an error. \<^verbatim>\<open>RunCommand\<close> cuts the output, whatever the error.\<close>

type_synonym exec = "string \<Rightarrow> string list \<Rightarrow> string \<times> go_error option"

definition run_command ::
    "exec \<Rightarrow> bool \<Rightarrow> int \<Rightarrow> string \<Rightarrow> string list \<Rightarrow> string option \<times> go_error option" where
  "run_command exec has_ctx max_output program args =
     (case validate_command has_ctx program args of
        Some e \<Rightarrow> (None, Some e)
      | None \<Rightarrow>
          if max_output < 0 then (None, Some (Msg ''command output limit is negative''))
          else (case exec program args of
                  (out, err) \<Rightarrow> (Some (if int (length out) > max_output then take (nat max_output) out else out), err)))"

definition run_command_output ::
    "exec \<Rightarrow> bool \<Rightarrow> string \<Rightarrow> string list \<Rightarrow> string option \<times> go_error option" where
  "run_command_output exec has_ctx program args =
     (case validate_command has_ctx program args of
        Some e \<Rightarrow> (None, Some e)
      | None \<Rightarrow> (case exec program args of (out, err) \<Rightarrow> (Some out, err)))"

lemma run_command_bounded:
  "run_command ex c n p as = (Some out, e) \<Longrightarrow> 0 \<le> n \<and> int (length out) \<le> n"
  by (auto simp: run_command_def split: option.splits if_splits prod.splits)

text \<open>A command is run only with a program and arguments free of NUL: what reaches the program
  does not depend on what a program would do with anything else.\<close>

lemma run_command_guard:
  assumes "validate_command c p as \<noteq> None"
  shows "run_command ex c n p as = run_command ex' c n p as"
    and "fst (run_command ex c n p as) = None"
  using assms by (auto simp: run_command_def split: option.splits)

end
