(* ===== verification/Events.thy ===== *)
theory Events
  imports Go_Std
begin

text \<open>
  \<^verbatim>\<open>internal/platform/events\<close>: a ring buffer of events and the bounded, newest-first queries
  over it. The ring interprets \<open>tail_buffer\<close>: its snapshot is the tail of everything added.
  The mutex makes each operation one step; a Go \<^verbatim>\<open>map[string]any\<close> context is a type parameter.
\<close>

datatype severity = Info | Warning | Critical | OtherSeverity string

record 'c event =
  e_time :: time
  e_component :: string
  e_severity :: severity
  e_type :: string
  e_message :: string
  e_object :: string
  e_transaction :: string
  e_recovery :: bool
  e_context :: 'c

record 'c ring =
  r_items :: "'c event option list"
  r_cap :: nat
  r_next :: nat
  r_full :: bool

record event_query =
  q_limit :: int
  q_component :: string
  q_severity :: "severity list"
  q_type :: string
  q_object :: string
  q_transaction :: string
  q_recovery :: "bool option"
  q_since :: time
  q_until :: time

text \<open>A slot that was never written holds Go's zero event; \<open>None\<close> stands for it.\<close>

definition new_ring :: "int \<Rightarrow> 'c ring" where
  "new_ring capacity =
     (let c = nat (if capacity < 1 then 1 else capacity)
      in \<lparr>r_items = replicate c None, r_cap = c, r_next = 0, r_full = False\<rparr>)"

definition stamp_event :: "time \<Rightarrow> 'c event \<Rightarrow> 'c event" where
  "stamp_event now e = (if is_zero (e_time e) then e\<lparr>e_time := now\<rparr> else e)"

text \<open>The part of \<^verbatim>\<open>Add\<close> under the lock.\<close>

definition ring_put :: "'c event option \<Rightarrow> 'c ring \<Rightarrow> 'c ring" where
  "ring_put slot r =
     (let r1 = r\<lparr>r_items := (r_items r)[r_next r := slot],
                 r_next := (r_next r + 1) mod r_cap r\<rparr>
      in if r_next r1 = 0 then r1\<lparr>r_full := True\<rparr> else r1)"

definition ring_add :: "time \<Rightarrow> 'c event \<Rightarrow> 'c ring \<Rightarrow> 'c ring" where
  "ring_add now e r = ring_put (Some (stamp_event now e)) r"

definition ring_count :: "'c ring \<Rightarrow> nat" where
  "ring_count r = (if r_full r then r_cap r else r_next r)"

definition clip_limit :: "int \<Rightarrow> nat \<Rightarrow> nat" where
  "clip_limit limit cnt = (if limit \<le> 0 \<or> limit > int cnt then cnt else nat limit)"

definition ring_snapshot :: "int \<Rightarrow> 'c ring \<Rightarrow> 'c event option list" where
  "ring_snapshot limit r =
     (let cnt = ring_count r;
          lim = clip_limit limit cnt;
          start = (if r_full r then r_next r else 0)
      in map (\<lambda>i. r_items r ! ((start + i) mod r_cap r)) [cnt - lim ..< cnt])"

definition ring_capacity :: "'c ring option \<Rightarrow> nat" where
  "ring_capacity r = (case r of None \<Rightarrow> 0 | Some r \<Rightarrow> r_cap r)"

definition ring_len :: "'c ring option \<Rightarrow> nat" where
  "ring_len r = (case r of None \<Rightarrow> 0 | Some r \<Rightarrow> if r_full r then r_cap r else r_next r)"

definition event_matches :: "'c event \<Rightarrow> event_query \<Rightarrow> bool" where
  "event_matches e q \<longleftrightarrow>
     \<not> (q_component q \<noteq> [] \<and> \<not> equal_fold (e_component e) (q_component q)) \<and>
     \<not> (q_severity q \<noteq> [] \<and> e_severity e \<notin> set (q_severity q)) \<and>
     \<not> (q_type q \<noteq> [] \<and> \<not> equal_fold (e_type e) (q_type q)) \<and>
     \<not> (q_object q \<noteq> [] \<and> e_object e \<noteq> q_object q) \<and>
     \<not> (q_transaction q \<noteq> [] \<and> e_transaction e \<noteq> q_transaction q) \<and>
     \<not> (case q_recovery q of None \<Rightarrow> False | Some b \<Rightarrow> e_recovery e \<noteq> b) \<and>
     \<not> (\<not> is_zero (q_since q) \<and> e_time e < q_since q) \<and>
     \<not> (\<not> is_zero (q_until q) \<and> e_time e > q_until q)"

text \<open>The loop of \<^verbatim>\<open>Query\<close>: from the newest entry back, until \<open>limit\<close> matches are collected.\<close>

fun query_loop :: "('a \<Rightarrow> bool) \<Rightarrow> nat \<Rightarrow> 'a list \<Rightarrow> 'a list \<Rightarrow> 'a list" where
  "query_loop p limit [] out = out"
| "query_loop p limit (x # newest_first) out =
     (if \<not> p x then query_loop p limit newest_first out
      else if length (out @ [x]) \<ge> limit then out @ [x]
      else query_loop p limit newest_first (out @ [x]))"

definition ring_query :: "event_query \<Rightarrow> 'c ring option \<Rightarrow> 'c event option list" where
  "ring_query q r =
     (case r of
        None \<Rightarrow> []
      | Some r \<Rightarrow>
          (let items = ring_snapshot 0 r;
               limit = clip_limit (q_limit q) (length items)
           in query_loop (\<lambda>s. case s of None \<Rightarrow> False | Some e \<Rightarrow> event_matches e q) limit (rev items) []))"

subsection \<open>The ring is the tail of what was added\<close>

text \<open>
  Representation invariant: the slots have the ring's length, and the written ones are the first
  \<open>r_next\<close> slots until the ring has wrapped once, then all of them.
\<close>

definition ring_ok :: "'c ring \<Rightarrow> bool" where
  "ring_ok r \<longleftrightarrow> 0 < r_cap r \<and> length (r_items r) = r_cap r \<and> r_next r < r_cap r"

lemma ring_ok_new: "ring_ok (new_ring n)"
  by (simp add: ring_ok_def new_ring_def Let_def)

lemma ring_put_simps [simp]:
  "r_cap (ring_put x r) = r_cap r"
  "r_next (ring_put x r) = (r_next r + 1) mod r_cap r"
  "r_items (ring_put x r) = (r_items r)[r_next r := x]"
  by (simp_all add: ring_put_def Let_def)

lemma ring_put_full: "r_full (ring_put x r) \<longleftrightarrow> r_full r \<or> (r_next r + 1) mod r_cap r = 0"
  by (simp add: ring_put_def Let_def)

lemma ring_ok_put: "ring_ok r \<Longrightarrow> ring_ok (ring_put x r)"
  by (simp add: ring_ok_def)

lemma length_snapshot: "length (ring_snapshot limit r) = clip_limit limit (ring_count r)"
  by (auto simp: ring_snapshot_def Let_def clip_limit_def)

lemma snapshot_all: "ring_snapshot 0 r =
   (if r_full r then map (\<lambda>i. r_items r ! ((r_next r + i) mod r_cap r)) [0 ..< r_cap r]
    else map (\<lambda>i. r_items r ! (i mod r_cap r)) [0 ..< r_next r])"
  by (simp add: ring_snapshot_def Let_def clip_limit_def ring_count_def)

lemma snapshot_open:
  assumes "ring_ok r" and "\<not> r_full r"
  shows "ring_snapshot 0 r = take (r_next r) (r_items r)"
  using assms by (auto simp: snapshot_all ring_ok_def intro!: nth_equalityI)

lemma snapshot_full:
  assumes "ring_ok r" and "r_full r"
  shows "ring_snapshot 0 r = drop (r_next r) (r_items r) @ take (r_next r) (r_items r)"
proof -
  have "ring_snapshot 0 r = rotate (r_next r) (r_items r)"
    using assms by (intro nth_equalityI) (auto simp: snapshot_all nth_rotate ring_ok_def add.commute)
  then show ?thesis
    using assms by (simp add: rotate_drop_take ring_ok_def)
qed

lemma length_snapshot_le: "ring_ok r \<Longrightarrow> length (ring_snapshot 0 r) \<le> r_cap r"
  by (auto simp: length_snapshot clip_limit_def ring_count_def ring_ok_def)

lemma snapshot_put:
  assumes "ring_ok r"
  shows "ring_snapshot 0 (ring_put x r) =
         lastn (r_cap r) (ring_snapshot 0 r @ [x])"
proof -
  have len: "length (r_items r) = r_cap r" and nx: "r_next r < r_cap r"
    using assms by (auto simp: ring_ok_def)
  have ok: "ring_ok (ring_put x r)" using assms by (rule ring_ok_put)
  have split: "drop (r_next r) (r_items r) = r_items r ! r_next r # drop (Suc (r_next r)) (r_items r)"
    using len nx by (simp add: Cons_nth_drop_Suc)
  show ?thesis
  proof (cases "Suc (r_next r) = r_cap r")
    case True
    then have full: "r_full (ring_put x r)" by (simp add: ring_put_full)
    have "ring_snapshot 0 (ring_put x r) = take (r_next r) (r_items r) @ [x]"
      using snapshot_full [OF ok full] True len nx
      by (simp add: upd_conv_take_nth_drop)
    then show ?thesis
      using snapshot_open [OF assms] snapshot_full [OF assms] split True len nx
      by (cases "r_full r") (simp_all add: lastn_def)
  next
    case False
    then have md: "(r_next r + 1) mod r_cap r = Suc (r_next r)" using nx by simp
    show ?thesis
    proof (cases "r_full r")
      case True
      then have full: "r_full (ring_put x r)" by (simp add: ring_put_full)
      have "ring_snapshot 0 (ring_put x r) =
            drop (Suc (r_next r)) (r_items r) @ take (r_next r) (r_items r) @ [x]"
        using snapshot_full [OF ok full] md len nx
        by (simp add: upd_conv_take_nth_drop take_Suc_conv_app_nth)
      then show ?thesis
        using snapshot_full [OF assms True] split len nx by (simp add: lastn_def)
    next
      case notfull: False
      then have nf: "\<not> r_full (ring_put x r)" using md by (simp add: ring_put_full)
      have "ring_snapshot 0 (ring_put x r) = take (r_next r) (r_items r) @ [x]"
        using snapshot_open [OF ok nf] md len nx
        by (simp add: take_Suc_conv_app_nth)
      then show ?thesis
        using snapshot_open [OF assms notfull] len nx by (simp)
    qed
  qed
qed

interpretation eventlog: tail_buffer
  ring_put "ring_snapshot 0" "Suc n" "\<lambda>r. ring_ok r \<and> r_cap r = Suc n" for n
proof (unfold_locales, goal_cases)
  case (1 r x)
  then show ?case by (simp add: snapshot_put)
next
  case (2 r x)
  then show ?case by (simp add: ring_ok_put)
next
  case (3 r)
  then show ?case using length_snapshot_le [of r] by simp
qed simp

text \<open>A run of \<^verbatim>\<open>Add\<close> calls, each with the clock value it read.\<close>

definition add_all :: "(time \<times> 'c event) list \<Rightarrow> 'c ring \<Rightarrow> 'c ring" where
  "add_all es r = fold (\<lambda>(now, e). ring_add now e) es r"

definition stamp_all :: "(time \<times> 'c event) list \<Rightarrow> 'c event list" where
  "stamp_all es = map (\<lambda>(now, e). stamp_event now e) es"

lemma add_all_put: "add_all es r = fold ring_put (map Some (stamp_all es)) r"
  unfolding add_all_def stamp_all_def
  by (induction es arbitrary: r) (auto simp: ring_add_def)

lemma new_ring_cap: "ring_ok (new_ring n) \<and> r_cap (new_ring n) = Suc (nat (n - 1))"
proof -
  have "nat (if n < 1 then 1 else n) = Suc (nat (n - 1))" by (cases "n < 1") auto
  then show ?thesis by (simp add: ring_ok_new) (simp add: new_ring_def)
qed

lemma snapshot_add_all:
  "ring_snapshot 0 (add_all es (new_ring n)) = map Some (lastn (nat (max 1 n)) (stamp_all es))"
proof -
  have empty: "ring_snapshot 0 (new_ring n) = []"
    by (simp add: snapshot_all new_ring_def Let_def)
  have "Suc (nat (n - 1)) = nat (max 1 n)" by linarith
  then show ?thesis
    using eventlog.items_fold [OF new_ring_cap [of n], of "map Some (stamp_all es)"]
    by (simp add: add_all_put empty lastn_def drop_map)
qed

subsection \<open>Queries\<close>

lemma query_loop_take:
  "length out < limit \<Longrightarrow> query_loop p limit xs out = out @ take (limit - length out) (filter p xs)"
proof (induction xs arbitrary: out)
  case Nil
  then show ?case by simp
next
  case (Cons x xs)
  show ?case
  proof (cases "p x")
    case False
    then show ?thesis using Cons by simp
  next
    case True
    obtain k where k: "limit - length out = Suc k"
      using Cons.prems by (metis Suc_diff_Suc)
    then have k': "limit - Suc (length out) = k" by simp
    show ?thesis
    proof (cases "limit \<le> Suc (length out)")
      case fin: True
      then have "k = 0" using k by simp
      then show ?thesis using True k fin by simp
    next
      case go: False
      then have "query_loop p limit xs (out @ [x]) = (out @ [x]) @ take k (filter p xs)"
        using Cons.IH [of "out @ [x]"] k' by simp
      then show ?thesis using True k go by simp
    qed
  qed
qed

lemma ring_query_filter:
  "ring_query q (Some r) =
     take (clip_limit (q_limit q) (length (ring_snapshot 0 r)))
       (filter (\<lambda>s. case s of None \<Rightarrow> False | Some e \<Rightarrow> event_matches e q) (rev (ring_snapshot 0 r)))"
proof (cases "ring_snapshot 0 r = []")
  case True
  then show ?thesis by (simp add: ring_query_def Let_def)
next
  case False
  then have "0 < clip_limit (q_limit q) (length (ring_snapshot 0 r))"
    by (auto simp: clip_limit_def)
  then show ?thesis by (simp add: ring_query_def Let_def query_loop_take)
qed

text \<open>C28: after any number of additions to a new ring, a query returns exactly the matching
  events among the newest \<open>max 1 capacity\<close> additions, newest first, cut to the limit; the
  wrapped index arithmetic of the ring never loses, repeats or reorders an event.\<close>

theorem ring_query_exact:
  "ring_query q (Some (add_all es (new_ring n))) =
     (let kept = lastn (nat (max 1 n)) (stamp_all es)
      in map Some (take (clip_limit (q_limit q) (length kept)) (filter (\<lambda>e. event_matches e q) (rev kept))))"
proof -
  have f: "filter (\<lambda>s. case s of None \<Rightarrow> False | Some e \<Rightarrow> event_matches e q) (map Some xs) =
        map Some (filter (\<lambda>e. event_matches e q) xs)" for xs :: "'c event list"
    by (induction xs) auto
  show ?thesis
    by (simp add: ring_query_filter snapshot_add_all Let_def rev_map f take_map)
qed

lemma ring_len_add_all: "ring_len (Some (add_all es (new_ring n))) = min (nat (max 1 n)) (length es)"
proof -
  have "ring_len (Some (add_all es (new_ring n))) = length (ring_snapshot 0 (add_all es (new_ring n)))"
    by (simp add: ring_len_def length_snapshot clip_limit_def ring_count_def)
  then show ?thesis by (simp add: snapshot_add_all stamp_all_def)
qed

lemma stamped_time: "e_time (stamp_event now e) = (if e_time e = 0 then now else e_time e)"
  by (simp add: stamp_event_def is_zero_def zero_time_def)

end
