(* ===== verification/Safety_Path.thy ===== *)
theory Safety_Path
  imports Go_Fs
begin

text \<open>
  \<^verbatim>\<open>internal/safety/path.go\<close>: the shared path policy. \<open>path_within_root\<close> is the lexical
  containment test, a \<open>resolver\<close> holds the allowed roots and an optional replacement of
  \<^verbatim>\<open>EvalSymlinks\<close>. The argument \<open>cwd\<close> is what \<^verbatim>\<open>os.Getwd\<close> answers to \<^verbatim>\<open>filepath.Abs\<close>.
\<close>

record resolver =
  rs_roots :: "string list"
  rs_eval :: "(string \<Rightarrow> string io) option"

record resolved_path =
  rp_requested :: string
  rp_lexical :: string
  rp_root :: string
  rp_canonical :: string

definition has_parent_traversal :: "string \<Rightarrow> bool" where
  "has_parent_traversal raw \<longleftrightarrow>
     list_ex (\<lambda>part. part = ''..'') (fields_func (\<lambda>c. c = slash \<or> c = CHR 0x5C) raw)"

definition path_within_root :: "string \<Rightarrow> string \<Rightarrow> bool" where
  "path_within_root root targ =
     (case path_rel root targ of
        Inl _ \<Rightarrow> False
      | Inr rel \<Rightarrow>
          if is_abs rel then False
          else rel = ''.'' \<or> (rel \<noteq> ''..'' \<and> \<not> has_prefix rel (''..'' @ [slash])))"

definition eval_symlinks :: "resolver \<Rightarrow> string \<Rightarrow> string io" where
  "eval_symlinks r path =
     (case rs_eval r of Some f \<Rightarrow> f path | None \<Rightarrow> fs_eval_symlinks path)"

fun find_root :: "string list \<Rightarrow> string \<Rightarrow> string option" where
  "find_root [] cleaned = None"
| "find_root (configured # roots) cleaned =
     (let root = clean configured in
      if \<not> is_abs root then find_root roots cleaned
      else if path_within_root root cleaned then Some root
      else find_root roots cleaned)"

definition lexical :: "resolver \<Rightarrow> string \<Rightarrow> (string \<Rightarrow> bool) option \<Rightarrow> go_error + string \<times> string" where
  "lexical r raw forbidden =
     (if raw = [] then Inl (Msg ''file path is empty'')
      else if CHR 0x00 \<in> set raw then Inl (Msg ''file path contains NUL'')
      else if \<not> is_abs raw then Inl (Msg ''file path must be absolute'')
      else if has_parent_traversal raw then Inl (Msg ''parent traversal is not allowed'')
      else
        (let cleaned = clean raw in
         if (case forbidden of None \<Rightarrow> False | Some f \<Rightarrow> f cleaned)
         then Inl (Msg ''file path is inside a protected system pseudo-filesystem'')
         else
           (case find_root (rs_roots r) cleaned of
              Some root \<Rightarrow> Inr (cleaned, root)
            | None \<Rightarrow> Inl (Msg ''file path is outside allowed roots''))))"

definition path_abs :: "go_error + string \<Rightarrow> string \<Rightarrow> string io" where
  "path_abs cwd p =
     (if is_abs p then io_return (clean p)
      else (case cwd of Inl e \<Rightarrow> io_fail e | Inr d \<Rightarrow> io_return (path_join2 d p)))"

definition canonical_root :: "go_error + string \<Rightarrow> resolver \<Rightarrow> string \<Rightarrow> string io" where
  "canonical_root cwd r root =
     io_bind (io_wrap ''resolve allowed root: '' (eval_symlinks r root)) (\<lambda>c.
     io_bind (io_wrap ''absolute allowed root: '' (path_abs cwd c)) (\<lambda>c.
     io_return (clean c)))"

definition resolve_existing ::
    "go_error + string \<Rightarrow> resolver \<Rightarrow> string \<Rightarrow> (string \<Rightarrow> bool) option \<Rightarrow> resolved_path io" where
  "resolve_existing cwd r raw forbidden =
     (case lexical r raw forbidden of
        Inl e \<Rightarrow> io_fail e
      | Inr (lexp, root) \<Rightarrow>
          io_bind (canonical_root cwd r root) (\<lambda>canon_root.
          io_bind (io_wrap ''resolve file path: '' (eval_symlinks r lexp)) (\<lambda>c.
          io_bind (io_wrap ''absolute file path: '' (path_abs cwd c)) (\<lambda>c.
          (let canonical = clean c in
           if \<not> path_within_root canon_root canonical
           then io_fail (Msg ''resolved file path escapes allowed root'')
           else io_return \<lparr>rp_requested = raw, rp_lexical = lexp, rp_root = root,
                           rp_canonical = canonical\<rparr>)))))"

definition resolve_creatable ::
    "go_error + string \<Rightarrow> resolver \<Rightarrow> string \<Rightarrow> (string \<Rightarrow> bool) option \<Rightarrow> (string \<Rightarrow> bool) option \<Rightarrow>
     resolved_path io" where
  "resolve_creatable cwd r raw forbidden read_only_root =
     (case lexical r raw forbidden of
        Inl e \<Rightarrow> io_fail e
      | Inr (lexp, root) \<Rightarrow>
          if (case read_only_root of None \<Rightarrow> False | Some f \<Rightarrow> f root)
          then io_fail (Msg ''allowed root is read-only'')
          else
            io_try (fs_lstat lexp) (\<lambda>res.
              case res of
                Inr _ \<Rightarrow> resolve_existing cwd r raw forbidden
              | Inl e \<Rightarrow>
                  if \<not> is_not_exist e then io_fail (Wrap ''inspect file path: '' e)
                  else
                    io_bind (canonical_root cwd r root) (\<lambda>canon_root.
                    io_bind (io_wrap ''resolve parent path: '' (eval_symlinks r (path_dir lexp))) (\<lambda>c.
                    io_bind (io_wrap ''absolute parent path: '' (path_abs cwd c)) (\<lambda>c.
                    (let canon_parent = clean c in
                     if \<not> path_within_root canon_root canon_parent
                     then io_fail (Msg ''resolved parent path escapes allowed root'')
                     else
                       (let canonical = path_join2 canon_parent (path_base lexp) in
                        if \<not> path_within_root canon_root canonical
                        then io_fail (Msg ''resolved file path escapes allowed root'')
                        else io_return \<lparr>rp_requested = raw, rp_lexical = lexp, rp_root = root,
                                        rp_canonical = canonical\<rparr>)))))))"

subsection \<open>Containment is the prefix order on path elements\<close>

text \<open>The specification: the elements of the root begin the elements of the path.\<close>

definition elem_prefix :: "string \<Rightarrow> string \<Rightarrow> bool" where
  "elem_prefix root p \<longleftrightarrow> (\<exists>rest. elems (clean p) = elems (clean root) @ rest)"

lemma elem_prefix_refl [simp]: "elem_prefix p p"
  by (simp add: elem_prefix_def)

lemma elem_prefix_trans: "elem_prefix a b \<Longrightarrow> elem_prefix b c \<Longrightarrow> elem_prefix a c"
  by (auto simp: elem_prefix_def)

lemma dotdot_join:
  "join [slash] (''..'' # xs) = ''..'' \<or> has_prefix (join [slash] (''..'' # xs)) (''..'' @ [slash])"
  by (cases xs) (auto simp: has_prefix_def)

lemma dot_no_prefix: "\<not> has_prefix ''.'' [CHR ''.'', CHR ''.'', slash]"
  by (simp add: has_prefix_def)

lemma plain_join_inside:
  assumes "list_all plain_elem ts" and "ts \<noteq> []"
  shows "\<not> is_abs (join [slash] ts)" "join [slash] ts \<noteq> ''..''"
    "\<not> has_prefix (join [slash] ts) (''..'' @ [slash])"
proof -
  obtain t us where ts: "ts = t # us" using assms(2) by (cases ts) auto
  have split: "split_char slash (join [slash] ts) = ts"
    using assms plain_elem_no_slash by (intro split_char_join) auto
  have t: "t \<noteq> []" "t \<noteq> ''..''" "slash \<notin> set t"
    using assms(1) ts by (auto simp: plain_elem_def)
  show "\<not> is_abs (join [slash] ts)"
    using t ts by (cases t; cases us) (auto simp: is_abs_def)
  show "join [slash] ts \<noteq> ''..''"
    using split t ts split_char_id [of slash "''..''"] by (auto simp: slash_def)
  show "\<not> has_prefix (join [slash] ts) (''..'' @ [slash])"
  proof
    assume "has_prefix (join [slash] ts) (''..'' @ [slash])"
    then obtain x where "join [slash] ts = ''..'' @ slash # x"
      by (auto simp: has_prefix_iff)
    moreover have "split_char slash (''..'' @ slash # x) = ''..'' # split_char slash x"
      by (rule split_char_append) (simp add: slash_def)
    ultimately show False using split t ts by simp
  qed
qed

lemma strip_common_split:
  "strip_common xs ys = (bs, us) \<Longrightarrow> \<exists>cs. xs = cs @ bs \<and> ys = cs @ us \<and> (bs = [] \<or> us = [] \<or> hd bs \<noteq> hd us)"
proof (induction xs ys rule: strip_common.induct)
  case (1 x xs y ys)
  then show ?case
    by (cases "x = y") (auto intro: exI [of _ "x # _"])
qed auto

lemma within_root_iff:
  assumes "is_abs root" and "is_abs p"
  shows "path_within_root root p \<longleftrightarrow> elem_prefix root p"
proof (cases "clean p = clean root")
  case True
  then show ?thesis
    using assms path_rel_abs [OF assms] by (simp add: path_within_root_def elem_prefix_def is_abs_def slash_def)
next
  case False
  obtain bs us where st: "strip_common (elems (clean root)) (elems (clean p)) = (bs, us)"
    by fastforce
  then obtain cs where cs: "elems (clean root) = cs @ bs" "elems (clean p) = cs @ us"
      "bs = [] \<or> us = [] \<or> hd bs \<noteq> hd us"
    using strip_common_split by blast
  have rel: "path_rel root p = Inr (join [slash] (map (\<lambda>_. ''..'') bs @ us))"
    using path_rel_abs [OF assms] False st by simp
  show ?thesis
  proof (cases bs)
    case Nil
    have "us \<noteq> []"
      using Nil cs False clean_eq_iff [OF assms] by auto
    moreover have "list_all plain_elem us"
      using plain_elems_clean [OF assms(2)] cs by simp
    ultimately have "path_within_root root p"
      using plain_join_inside [of us] rel Nil by (simp add: path_within_root_def)
    then show ?thesis using cs Nil by (simp add: elem_prefix_def)
  next
    case (Cons b bs')
    have "\<not> path_within_root root p"
      using dotdot_join [of "map (\<lambda>_. ''..'') bs' @ us"] rel Cons
      by (auto simp: path_within_root_def dot_no_prefix)
    moreover have "\<not> elem_prefix root p"
    proof
      assume "elem_prefix root p"
      then obtain rest where "cs @ us = (cs @ bs) @ rest"
        using cs by (auto simp: elem_prefix_def)
      then show False using Cons cs(3) by auto
    qed
    ultimately show ?thesis by simp
  qed
qed

text \<open>C26: for absolute paths the containment test accepts exactly the root itself and its
  descendants, compared element by element after cleaning: a sibling whose name merely begins
  with the root's name is outside, and no chain of \<open>..\<close> or repeated slashes gets past it.\<close>

theorem path_within_root_is_prefix:
  "is_abs root \<Longrightarrow> is_abs p \<Longrightarrow>
   path_within_root root p \<longleftrightarrow> (\<exists>rest. elems (clean p) = elems (clean root) @ rest)"
  using within_root_iff by (simp add: elem_prefix_def)

theorem path_within_root_witness:
  "path_within_root ''/opt/etc'' ''/opt//etc/./dns/../x'' \<and> \<not> path_within_root ''/opt/etc'' ''/opt/etcx''"
proof -
  have "is_abs ''/opt/etc''" "is_abs ''/opt//etc/./dns/../x''" "is_abs ''/opt/etcx''"
    by (simp_all add: is_abs_def slash_def)
  moreover have "elems (clean ''/opt//etc/./dns/../x'') = elems (clean ''/opt/etc'') @ [''x'']"
    "elems (clean ''/opt/etcx'') = [''opt'', ''etcx'']" "elems (clean ''/opt/etc'') = [''opt'', ''etc'']"
    by code_simp+
  ultimately show ?thesis
    using path_within_root_is_prefix [of "''/opt/etc''" "''/opt//etc/./dns/../x''"]
      path_within_root_is_prefix [of "''/opt/etc''" "''/opt/etcx''"] by auto
qed

subsection \<open>What a resolved path promises\<close>

lemma find_root_some:
  "find_root roots p = Some root \<Longrightarrow>
   root \<in> clean ` set roots \<and> is_abs root \<and> path_within_root root p"
  by (induction roots) (auto simp: Let_def split: if_splits)

lemma lexical_ok:
  assumes "lexical r raw forbidden = Inr (lexp, root)"
  shows "lexp = clean raw" "is_abs raw" "CHR 0x00 \<notin> set raw" "\<not> has_parent_traversal raw"
    "forbidden = Some f \<Longrightarrow> \<not> f lexp"
    "root \<in> clean ` set (rs_roots r)" "is_abs root" "path_within_root root lexp"
  using assms find_root_some [of "rs_roots r" "clean raw" root]
  by (auto simp: lexical_def Let_def split: if_splits option.splits)

lemma path_abs_absolute:
  "\<lbrakk>path_abs cwd p s = (Inr q, s'); \<And>d. cwd = Inr d \<Longrightarrow> is_abs d\<rbrakk> \<Longrightarrow> is_abs q \<and> s' = s"
proof -
  assume a: "path_abs cwd p s = (Inr q, s')" and w: "\<And>d. cwd = Inr d \<Longrightarrow> is_abs d"
  show ?thesis
  proof (cases "is_abs p")
    case True
    then show ?thesis using a by (auto simp: path_abs_def)
  next
    case False
    then obtain d where d: "cwd = Inr d" "q = path_join2 d p" "s' = s"
      using a by (auto simp: path_abs_def split: sum.splits)
    then have "is_abs d" using w by blast
    then have "is_abs (d @ [slash] @ p)" "d \<noteq> []" by (auto simp: is_abs_def split: list.splits)
    then show ?thesis using d \<open>is_abs d\<close> by (auto simp: path_join2_def)
  qed
qed

lemma io_bind_Inr:
  "io_bind m f s = (Inr y, s') \<longleftrightarrow> (\<exists>x s1. m s = (Inr x, s1) \<and> f x s1 = (Inr y, s'))"
  by (auto simp: io_bind_def split: prod.splits sum.splits)

lemma io_wrap_Inr: "io_wrap msg m s = (Inr x, s') \<longleftrightarrow> m s = (Inr x, s')"
  by (auto simp: io_wrap_def split: prod.splits sum.splits)

lemma canonical_root_absolute:
  "\<lbrakk>canonical_root cwd r root s = (Inr c, s'); \<And>d. cwd = Inr d \<Longrightarrow> is_abs d\<rbrakk> \<Longrightarrow> is_abs c"
  by (auto simp: canonical_root_def io_bind_Inr io_wrap_Inr dest!: path_abs_absolute)

text \<open>
  The contract of a resolved path: the request was absolute, without NUL and \<open>..\<close>, not
  forbidden, lexically inside one of the configured roots, and its canonical form is inside the
  canonical form of that root.
\<close>

definition resolved_ok ::
    "go_error + string \<Rightarrow> resolver \<Rightarrow> string \<Rightarrow> (string \<Rightarrow> bool) option \<Rightarrow> resolved_path \<Rightarrow> bool" where
  "resolved_ok cwd r raw forbidden p \<longleftrightarrow>
     rp_requested p = raw \<and> rp_lexical p = clean raw \<and> is_abs raw \<and> CHR 0x00 \<notin> set raw \<and>
     \<not> has_parent_traversal raw \<and> (case forbidden of None \<Rightarrow> True | Some f \<Rightarrow> \<not> f (clean raw)) \<and>
     rp_root p \<in> clean ` set (rs_roots r) \<and> elem_prefix (rp_root p) (rp_lexical p) \<and>
     (\<exists>canon_root s1 s2. canonical_root cwd r (rp_root p) s1 = (Inr canon_root, s2) \<and>
        elem_prefix canon_root (rp_canonical p))"

lemma lexical_resolved:
  assumes "lexical r raw forbidden = Inr (lexp, root)"
    and "canonical_root cwd r root s1 = (Inr cr, s2)" and "elem_prefix cr c"
  shows "resolved_ok cwd r raw forbidden
           \<lparr>rp_requested = raw, rp_lexical = lexp, rp_root = root, rp_canonical = c\<rparr>"
proof -
  note ok = lexical_ok [OF assms(1)]
  have "elem_prefix root lexp"
    using ok(1,2,7,8) within_root_iff by auto
  then show ?thesis
    using ok assms(2,3) unfolding resolved_ok_def by (auto split: option.splits)
qed

lemma resolve_existing_ok:
  assumes "resolve_existing cwd r raw forbidden s = (Inr p, s')"
    and w: "\<And>d. cwd = Inr d \<Longrightarrow> is_abs d"
  shows "resolved_ok cwd r raw forbidden p"
proof -
  obtain lexp root where lx: "lexical r raw forbidden = Inr (lexp, root)"
    using assms(1) by (auto simp: resolve_existing_def split: sum.splits)
  then obtain cr s1 c s2 c' s3 where
      cr: "canonical_root cwd r root s = (Inr cr, s1)" and ab: "path_abs cwd c s2 = (Inr c', s3)"
      and inside: "path_within_root cr (clean c')"
      and p: "p = \<lparr>rp_requested = raw, rp_lexical = lexp, rp_root = root, rp_canonical = clean c'\<rparr>"
    using assms(1)
    by (auto simp: resolve_existing_def io_bind_Inr io_wrap_Inr Let_def split: if_splits)
  have "elem_prefix cr (clean c')"
    using inside canonical_root_absolute [OF cr w] path_abs_absolute [OF ab w] within_root_iff by auto
  then show ?thesis
    using lexical_resolved [OF lx cr] p by simp
qed



end
