(* ===== verification/Logpolicy.thy ===== *)
theory Logpolicy
  imports Go_Fs
begin

text \<open>
  \<^verbatim>\<open>internal/logpolicy\<close>: where a service's log goes and how it is rotated. Parameters of the
  operations stand for what the code reads from outside: \<open>decode\<close> for \<^verbatim>\<open>json.Unmarshal\<close> of the
  settings file, \<open>fs_type\<close> for the filesystem magic number \<^verbatim>\<open>statfs\<close> reports (\<open>None\<close> when
  the call fails).
\<close>

datatype log_mode = Entware | Ram | Custom | OtherMode string

record log_settings =
  ls_mode :: log_mode
  ls_custom :: string
  ls_max_mb :: int
  ls_backups :: int

definition settings_path :: "string" where
  "settings_path = ''/opt/etc/routerforge/logging.json''"

definition ram_dir :: "string" where
  "ram_dir = ''/tmp/routerforge/logs''"

definition log_roots :: "string list" where
  "log_roots = [''/opt/var/log/'', ''/opt/mnt/'', ''/tmp/'', ''/mnt/'', ''/media/'', ''/storage/'', ''/var/log/'']"

definition safe_custom_path :: "string \<Rightarrow> bool" where
  "safe_custom_path path \<longleftrightarrow>
     (if path = [] \<or> int (length path) > 255 \<or> \<not> is_abs path \<or> clean path \<noteq> path \<or>
         \<not> has_suffix path ''.log'' \<or> contains_any path [CHR 0x0D, CHR 0x0A, CHR 0x00, CHR 0x5C]
      then False
      else if list_ex (\<lambda>seg. seg = ''.'' \<or> seg = ''..'') (split_char slash path) then False
      else list_ex (\<lambda>prefix. has_prefix path prefix \<and> length path > length prefix) log_roots)"

definition settings_valid :: "log_settings \<Rightarrow> go_error option" where
  "settings_valid s =
     (if ls_mode s \<noteq> Entware \<and> ls_mode s \<noteq> Ram \<and> ls_mode s \<noteq> Custom
      then Some (Msg ''invalid logging mode'')
      else if ls_max_mb s < 1 \<or> ls_max_mb s > 16 \<or> ls_backups s < 1 \<or> ls_backups s > 5
      then Some (Msg ''invalid log retention'')
      else if ls_custom s \<noteq> [] \<and> \<not> safe_custom_path (ls_custom s)
      then Some (Msg ''invalid custom log path'')
      else if ls_mode s = Custom \<and> ls_custom s = []
      then Some (Msg ''missing custom log path'')
      else None)"

definition default_settings :: "log_settings" where
  "default_settings = \<lparr>ls_mode = Entware, ls_custom = [], ls_max_mb = 1, ls_backups = 2\<rparr>"

definition read_settings :: "(string \<Rightarrow> go_error + log_settings) \<Rightarrow> string \<Rightarrow> log_settings io" where
  "read_settings decode config_file =
     io_try (fs_read_file config_file) (\<lambda>res.
       case res of
         Inl e \<Rightarrow> if is_not_exist e then io_return default_settings else io_fail e
       | Inr raw \<Rightarrow>
           if int (length raw) > 4096 then io_fail (Msg ''oversize logging settings'')
           else
             (case decode raw of
                Inl e \<Rightarrow> io_fail e
              | Inr s \<Rightarrow> (case settings_valid s of Some e \<Rightarrow> io_fail e | None \<Rightarrow> io_return s)))"

text \<open>The regular expression \<^verbatim>\<open>^[a-z][a-z0-9-]{0,39}$\<close>.\<close>

definition safe_component :: "string \<Rightarrow> bool" where
  "safe_component m \<longleftrightarrow>
     (case m of [] \<Rightarrow> False
      | c # cs \<Rightarrow> is_lower c \<and> length cs \<le> 39 \<and>
                  list_all (\<lambda>d. is_lower d \<or> is_digit d \<or> d = CHR ''-'') cs)"

definition log_resolve :: "log_settings \<Rightarrow> string \<Rightarrow> string \<Rightarrow> bool \<Rightarrow> go_error + string" where
  "log_resolve s module default_path ram_available =
     (case settings_valid s of
        Some e \<Rightarrow> Inl e
      | None \<Rightarrow>
          if \<not> safe_component module then Inl (Msg ''invalid module id'')
          else if default_path = [] \<or> \<not> is_abs default_path then Inl (Msg ''invalid default log path'')
          else if ls_mode s = Entware then Inr default_path
          else if ls_mode s = Ram \<and> \<not> ram_available then Inl (Msg ''RAM logging requested without tmpfs'')
          else
            (let directory = (if ls_mode s = Custom then path_dir (ls_custom s) else ram_dir);
                 extension = (if path_ext default_path \<noteq> ''.jsonl'' then ''.log'' else path_ext default_path)
             in Inr (path_join2 directory (''routerforge-'' @ module @ extension))))"

definition is_ram_fs :: "(string \<Rightarrow> int option) \<Rightarrow> string \<Rightarrow> bool" where
  "is_ram_fs fs_type path =
     (case fs_type path of None \<Rightarrow> False | Some t \<Rightarrow> t = 0x01021994 \<or> t = 0x858458f6)"

definition ram_fs_available :: "(string \<Rightarrow> int option) \<Rightarrow> bool" where
  "ram_fs_available fs_type = is_ram_fs fs_type ''/tmp''"

definition validate_destination :: "(string \<Rightarrow> int option) \<Rightarrow> log_settings \<Rightarrow> string \<Rightarrow> unit io" where
  "validate_destination fs_type s path =
     (let dir = path_dir path in
      io_bind
        (if ls_mode s = Custom then
           io_bind (fs_stat dir) (\<lambda>info.
             if \<not> is_dir info then io_fail (Msg ''custom logging parent is not a directory'')
             else io_try (fs_eval_symlinks dir) (\<lambda>res.
               case res of
                 Inl e \<Rightarrow> io_fail (Msg ''custom logging directory escapes allowed roots'')
               | Inr resolved \<Rightarrow>
                   if \<not> safe_custom_path (path_join2 resolved (path_base (ls_custom s)))
                   then io_fail (Msg ''custom logging directory escapes allowed roots'')
                   else io_return ()))
         else
           io_bind (fs_mkdir_all dir 493) (\<lambda>_.
             if ls_mode s = Ram then
               io_try (fs_eval_symlinks dir) (\<lambda>res.
                 case res of
                   Inl e \<Rightarrow> io_fail (Msg ''RAM log directory is not tmpfs'')
                 | Inr resolved \<Rightarrow>
                     if \<not> has_prefix resolved ''/tmp/'' \<or> \<not> is_ram_fs fs_type dir
                     then io_fail (Msg ''RAM log directory is not tmpfs'')
                     else io_return ())
             else io_return ()))
        (\<lambda>_. io_try (fs_lstat path) (\<lambda>res.
           case res of
             Inr info \<Rightarrow> if \<not> is_regular info then io_fail (Msg ''log target is not a regular file'')
                         else io_return ()
           | Inl e \<Rightarrow> if \<not> is_not_exist e then io_fail e else io_return ())))"

definition guarded_path ::
    "(string \<Rightarrow> go_error + log_settings) \<Rightarrow> (string \<Rightarrow> int option) \<Rightarrow> string \<Rightarrow> string \<Rightarrow> string io" where
  "guarded_path decode fs_type module default_path =
     io_bind (read_settings decode settings_path) (\<lambda>s.
       case log_resolve s module default_path (ram_fs_available fs_type) of
         Inl e \<Rightarrow> io_fail e
       | Inr path \<Rightarrow> io_bind (validate_destination fs_type s path) (\<lambda>_. io_return path))"

text \<open>
  \<^verbatim>\<open>open(O_WRONLY|O_APPEND|O_CREAT|O_NOFOLLOW, 0600)\<close>: creates the file when nothing is there,
  refuses a symbolic link and a directory.
\<close>

definition open_append_no_follow :: "string \<Rightarrow> unit io" where
  "open_append_no_follow path = syscall (\<lambda>s.
     case node_at s path of
       None \<Rightarrow> if parent_ok s path then (Inr (), put_node path (Regular 384 []) s) else (Inl ErrNotExist, s)
     | Some (Regular m c) \<Rightarrow> (Inr (), s)
     | Some _ \<Rightarrow> (Inl ErrIO, s))"

definition remove_if_regular :: "string \<Rightarrow> unit io" where
  "remove_if_regular path =
     io_try (fs_lstat path) (\<lambda>res.
       case res of
         Inl e \<Rightarrow> if is_not_exist e then io_return () else io_fail e
       | Inr info \<Rightarrow>
           if \<not> is_regular info then io_fail (Msg ''refusing to remove non-regular rotated log'')
           else fs_remove path)"

definition rename_if_regular :: "string \<Rightarrow> string \<Rightarrow> unit io" where
  "rename_if_regular source targ =
     io_try (fs_lstat source) (\<lambda>res.
       case res of
         Inl e \<Rightarrow> if is_not_exist e then io_return () else io_fail e
       | Inr info \<Rightarrow>
           if \<not> is_regular info then io_fail (Msg ''refusing to rotate non-regular log'')
           else fs_rename source targ)"

definition backup :: "string \<Rightarrow> nat \<Rightarrow> string" where
  "backup path i = path @ ''.'' @ itoa (int i)"

text \<open>The rotation loop, for \<open>i\<close> from \<open>Backups\<close> down to 1.\<close>

primrec rotate_loop :: "string \<Rightarrow> nat \<Rightarrow> nat \<Rightarrow> unit io" where
  "rotate_loop path backups 0 = io_return ()"
| "rotate_loop path backups (Suc i) =
     io_bind (if Suc i = backups then remove_if_regular (backup path (Suc i))
              else rename_if_regular (backup path (Suc i)) (backup path (Suc i + 1)))
       (\<lambda>_. rotate_loop path backups i)"

text \<open>The write and the close happen both; the first error of the two is the result.\<close>

definition append_bytes :: "string \<Rightarrow> string \<Rightarrow> unit io" where
  "append_bytes path rec =
     io_bind (open_append_no_follow path) (\<lambda>_.
     io_try (fs_write path rec) (\<lambda>w.
     io_try (fs_close path) (\<lambda>c.
       case w of Inl e \<Rightarrow> io_fail e | Inr _ \<Rightarrow> (case c of Inl e \<Rightarrow> io_fail e | Inr _ \<Rightarrow> io_return ()))))"

definition append_with_settings ::
    "(string \<Rightarrow> int option) \<Rightarrow> log_settings \<Rightarrow> string \<Rightarrow> string \<Rightarrow> string \<Rightarrow> bool \<Rightarrow> unit io" where
  "append_with_settings fs_type s module default_path rec ram_available =
     (case log_resolve s module default_path ram_available of
        Inl e \<Rightarrow> io_fail e
      | Inr path \<Rightarrow>
          io_bind (validate_destination fs_type s path) (\<lambda>_.
          io_bind
            (io_try (fs_lstat path) (\<lambda>res.
               case res of
                 Inr info \<Rightarrow>
                   if int (node_size info) + int (length rec) > ls_max_mb s * 1024 * 1024
                   then io_bind (rotate_loop path (nat (ls_backups s)) (nat (ls_backups s)))
                          (\<lambda>_. rename_if_regular path (path @ ''.1''))
                   else io_return ()
               | Inl e \<Rightarrow> if \<not> is_not_exist e then io_fail e else io_return ()))
            (\<lambda>_. append_bytes path rec)))"

definition log_append ::
    "(string \<Rightarrow> go_error + log_settings) \<Rightarrow> (string \<Rightarrow> int option) \<Rightarrow> string \<Rightarrow> string \<Rightarrow> string \<Rightarrow> unit io" where
  "log_append decode fs_type module default_path rec =
     (if rec = [] then io_return ()
      else if int (length rec) > 64 * 1024 then io_fail (Msg ''log record too large'')
      else io_bind (read_settings decode settings_path) (\<lambda>s.
             append_with_settings fs_type s module default_path rec (ram_fs_available fs_type)))"

text \<open>\<^verbatim>\<open>Writer.Write\<close> always reports the whole record as written.\<close>

definition log_write ::
    "(string \<Rightarrow> go_error + log_settings) \<Rightarrow> (string \<Rightarrow> int option) \<Rightarrow> string \<Rightarrow> string \<Rightarrow> string \<Rightarrow> nat io" where
  "log_write decode fs_type module default_path b =
     io_try (log_append decode fs_type module default_path b) (\<lambda>_. io_return (length b))"

subsection \<open>One step of a rotation\<close>

definition generation :: "string \<Rightarrow> nat \<Rightarrow> string" where
  "generation path i = (if i = 0 then path else backup path i)"

lemma backup_inj: "backup path i = backup path j \<longleftrightarrow> i = j"
  using itoa_inj [of "int i" "int j"] by (auto simp: backup_def)

lemma backup_not_path [simp]: "backup path i \<noteq> path" "path \<noteq> backup path i"
  by (auto simp: backup_def)

lemma backup_1: "path @ ''.1'' = backup path 1"
proof -
  have "itoa 1 = ''1''" by code_simp
  then show ?thesis by (simp add: backup_def)
qed

definition plain_or_absent :: "node option \<Rightarrow> bool" where
  "plain_or_absent n \<longleftrightarrow> n = None \<or> (\<exists>m c. n = Some (Regular m c))"

lemma is_regular_iff: "is_regular n \<longleftrightarrow> (\<exists>m c. n = Regular m c)"
  by (cases n) (auto simp: is_regular_def)

lemma remove_if_regular_result:
  assumes "remove_if_regular p s = (r, s')"
  shows "(is_ok r \<longrightarrow> node_at s' = (node_at s)(p := None)) \<and> same_except {p} s s'"
proof -
  obtain res s1 where st: "fs_lstat p s = (res, s1)" by fastforce
  note l = fs_lstat_result [OF st]
  show ?thesis
  proof (cases "\<exists>m c. res = Inr (Regular m c)")
    case True
    then obtain m c where res: "res = Inr (Regular m c)" by blast
    then have rm: "fs_remove p s1 = (r, s')" and at: "node_at s1 p = Some (Regular m c)"
      using assms st l by (simp_all add: remove_if_regular_def io_try_def is_regular_def)
    have "case r of Inl e \<Rightarrow> node_at s' = node_at s1 | Inr _ \<Rightarrow> node_at s' = (node_at s1)(p := None)"
      by (rule fs_remove_file_result [OF rm at]) (simp add: is_dir_def)
    then show ?thesis using l by (auto simp: same_except_def split: sum.splits)
  next
    case False
    then have "s' = s1 \<and> (is_ok r \<longrightarrow> node_at s p = None)"
      using assms st l by (auto simp: remove_if_regular_def io_try_def is_regular_iff split: sum.splits if_splits)
    then show ?thesis using l by (auto simp: same_except_def fun_upd_idem)
  qed
qed

lemma rename_if_regular_result:
  assumes "rename_if_regular a b s = (r, s')" and "a \<noteq> b"
  shows "same_except {a, b} s s'"
    "is_ok r \<Longrightarrow> node_at s b = None \<Longrightarrow> node_at s' = (node_at s)(a := None, b := node_at s a)"
    "is_ok r \<Longrightarrow> plain_or_absent (node_at s a)"
proof -
  obtain res s1 where st: "fs_lstat a s = (res, s1)" by fastforce
  note l = fs_lstat_result [OF st]
  have "same_except {a, b} s s' \<and>
    (is_ok r \<longrightarrow> plain_or_absent (node_at s a) \<and>
      (node_at s b = None \<longrightarrow> node_at s' = (node_at s)(a := None, b := node_at s a)))"
  proof (cases "\<exists>m c. res = Inr (Regular m c)")
    case True
    then obtain m c where res: "res = Inr (Regular m c)" by blast
    then have rn: "fs_rename a b s1 = (r, s')" and at: "node_at s1 a = Some (Regular m c)"
      using assms st l by (simp_all add: rename_if_regular_def io_try_def is_regular_def)
    show ?thesis
      using fs_rename_file_result [OF rn at assms(2)] l at
      by (cases r) (auto simp: same_except_def plain_or_absent_def)
  next
    case False
    then have "s' = s1 \<and> (is_ok r \<longrightarrow> node_at s a = None)"
      using assms st l by (auto simp: rename_if_regular_def io_try_def is_regular_iff split: sum.splits if_splits)
    then show ?thesis using l by (auto simp: same_except_def plain_or_absent_def fun_upd_idem)
  qed
  then show "same_except {a, b} s s'"
    "is_ok r \<Longrightarrow> node_at s b = None \<Longrightarrow> node_at s' = (node_at s)(a := None, b := node_at s a)"
    "is_ok r \<Longrightarrow> plain_or_absent (node_at s a)" by blast+
qed

subsection \<open>The whole rotation\<close>

lemma rotate_loop_result:
  "\<lbrakk>rotate_loop path n i s = (Inr (), s'); i \<le> n; 0 < n; i < n \<Longrightarrow> node_at s (backup path (Suc i)) = None\<rbrakk> \<Longrightarrow>
   node_at s' (backup path 1) = None \<and>
   (\<forall>j. 1 \<le> j \<and> j \<le> i \<and> j < n \<longrightarrow> node_at s' (backup path (Suc j)) = node_at s (backup path j) \<and>
      plain_or_absent (node_at s (backup path j))) \<and>
   (\<forall>q. q \<notin> backup path ` {1..Suc i} \<longrightarrow> node_at s' q = node_at s q)"
proof (induction i arbitrary: s)
  case 0
  then show ?case by auto
next
  case (Suc i)
  let ?b = "backup path"
  have step: "\<exists>s1. rotate_loop path n i s1 = (Inr (), s') \<and>
     node_at s1 (?b (Suc i)) = None \<and>
     (Suc i < n \<longrightarrow> node_at s1 (?b (Suc (Suc i))) = node_at s (?b (Suc i)) \<and>
        plain_or_absent (node_at s (?b (Suc i)))) \<and>
     (\<forall>q. q \<notin> {?b (Suc i), ?b (Suc (Suc i))} \<longrightarrow> node_at s1 q = node_at s q)"
  proof (cases "Suc i = n")
    case True
    then obtain s1 where s1: "remove_if_regular (?b (Suc i)) s = (Inr (), s1)"
        "rotate_loop path n i s1 = (Inr (), s')"
      using Suc.prems(1) by (auto simp: io_bind_def split: prod.splits sum.splits)
    show ?thesis
      using remove_if_regular_result [OF s1(1)] s1(2) True by (intro exI [of _ s1]) auto
  next
    case False
    then have lt: "Suc i < n" using Suc.prems(2) by simp
    then obtain s1 where s1: "rename_if_regular (?b (Suc i)) (?b (Suc (Suc i))) s = (Inr (), s1)"
        "rotate_loop path n i s1 = (Inr (), s')"
      using Suc.prems(1) False by (auto simp: io_bind_def split: prod.splits sum.splits)
    have ne: "?b (Suc i) \<noteq> ?b (Suc (Suc i))" by (simp add: backup_inj)
    show ?thesis
      using rename_if_regular_result [OF s1(1) ne] s1(2) Suc.prems(4) [OF lt] ne
      by (intro exI [of _ s1]) auto
  qed
  then obtain s1 where rest: "rotate_loop path n i s1 = (Inr (), s')"
     and none: "node_at s1 (?b (Suc i)) = None"
     and moved: "Suc i < n \<Longrightarrow> node_at s1 (?b (Suc (Suc i))) = node_at s (?b (Suc i)) \<and>
        plain_or_absent (node_at s (?b (Suc i)))"
     and other: "\<And>q. q \<notin> {?b (Suc i), ?b (Suc (Suc i))} \<Longrightarrow> node_at s1 q = node_at s q"
    by blast
  have low: "node_at s1 (?b j) = node_at s (?b j)" if "j \<le> i" for j
    using other [of "?b j"] that by (simp add: backup_inj)
  note ih = Suc.IH [OF rest _ Suc.prems(3) none]
  have top: "node_at s' (?b (Suc (Suc i))) = node_at s1 (?b (Suc (Suc i)))"
    using ih Suc.prems(2) by (auto simp: backup_inj image_iff)
  show ?case
  proof (intro conjI allI impI)
    show "node_at s' (?b 1) = None" using ih Suc.prems(2) by simp
  next
    fix j assume j: "1 \<le> j \<and> j \<le> Suc i \<and> j < n"
    show "node_at s' (?b (Suc j)) = node_at s (?b j)"
      using ih Suc.prems(2) j low [of j] top moved by (cases "j = Suc i") auto
    show "plain_or_absent (node_at s (?b j))"
      using ih Suc.prems(2) j low [of j] moved by (cases "j = Suc i") auto
  next
    fix q assume "q \<notin> ?b ` {1..Suc (Suc i)}"
    then show "node_at s' q = node_at s q"
      using ih Suc.prems(2) other [of q] by (auto simp: image_iff Suc_le_eq)
  qed
qed

subsection \<open>Appending\<close>

lemma open_append_result:
  "open_append_no_follow p s = (r, s') \<Longrightarrow>
   same_except {p} s s' \<and>
   (is_ok r \<longrightarrow> (case node_at s p of
      None \<Rightarrow> node_at s' p = Some (Regular 384 [])
    | Some n \<Rightarrow> node_at s' p = Some n \<and> is_regular n))"
  unfolding open_append_no_follow_def
  by (erule syscall_cases)
    (auto simp: same_except_def is_regular_def split: option.splits node.splits if_splits)

text \<open>What an append leaves at the path, given what was there before.\<close>

fun appended :: "string \<Rightarrow> node option \<Rightarrow> node option" where
  "appended rec None = Some (Regular 384 rec)"
| "appended rec (Some (Regular m c)) = Some (Regular m (c @ rec))"
| "appended rec (Some n) = None"

lemma append_bytes_result:
  assumes "append_bytes p rec s = (Inr (), s')"
  shows "node_at s' = (node_at s)(p := appended rec (node_at s p)) \<and> plain_or_absent (node_at s p)"
proof -
  obtain s1 where s1: "open_append_no_follow p s = (Inr (), s1)"
    using assms by (auto simp: append_bytes_def io_bind_def split: prod.splits sum.splits)
  obtain w s2 where s2: "fs_write p rec s1 = (w, s2)" by fastforce
  obtain c s3 where s3: "fs_close p s2 = (c, s3)" by fastforce
  have ok: "w = Inr ()" "s' = s3"
    using assms s1 s2 s3 by (auto simp: append_bytes_def io_bind_def io_try_def split: sum.splits)
  obtain m d where at: "node_at s1 p = Some (Regular m d)"
     and before: "node_at s p = None \<and> m = 384 \<and> d = [] \<or> node_at s p = Some (Regular m d)"
    using open_append_result [OF s1] by (auto simp: is_regular_iff split: option.splits)
  have "node_at s2 = (node_at s1)(p \<mapsto> Regular m (d @ rec))"
    using fs_write_result [OF s2 at] ok by simp
  moreover have "node_at s3 = node_at s2" by (rule fs_close_result [OF s3])
  moreover have "\<forall>q. q \<noteq> p \<longrightarrow> node_at s1 q = node_at s q"
    using open_append_result [OF s1] by (auto simp: same_except_def)
  ultimately show ?thesis
    using before ok by (auto simp: plain_or_absent_def fun_eq_iff)
qed

lemma validate_destination_result:
  assumes "validate_destination fs_type st path s = (r, s')"
  shows "(\<forall>p. node_at s' p = node_at s p \<or> node_at s p = None \<and> node_at s' p = Some (Directory 493))
    \<and> (is_ok r \<longrightarrow> plain_or_absent (node_at s' path))"
proof -
  let ?mk = "\<lambda>s s'. \<forall>p. node_at s' p = node_at s p \<or> node_at s p = None \<and> node_at s' p = Some (Directory 493)"
  define chk :: "unit io" where "chk = io_try (fs_lstat path) (\<lambda>res.
           case res of
             Inr info \<Rightarrow> if \<not> is_regular info then io_fail (Msg ''log target is not a regular file'')
                         else io_return ()
           | Inl e \<Rightarrow> if \<not> is_not_exist e then io_fail e else io_return ())"
  have chk: "node_at s2 = node_at s1 \<and> (is_ok r \<longrightarrow> plain_or_absent (node_at s2 path))"
    if c: "chk s1 = (r, s2)" for s1 s2 r
  proof -
    obtain res s3 where st: "fs_lstat path s1 = (res, s3)" by fastforce
    show ?thesis
      using c fs_lstat_result [OF st] st
      by (auto simp: chk_def io_try_def is_regular_iff plain_or_absent_def split: sum.splits if_splits)
  qed
  note unfolded = assms [unfolded validate_destination_def Let_def, folded chk_def]
  have "?mk s s'"
    using unfolded
    by (auto simp: io_bind_def io_try_def split: if_splits prod.splits sum.splits
        dest!: fs_mkdir_all_result read_only_node_at [OF read_only_calls(2)]
          read_only_node_at [OF read_only_calls(4)] conjunct1 [OF chk])
  moreover have "plain_or_absent (node_at s' path)" if ok: "is_ok r"
  proof -
    obtain s1 where "chk s1 = (r, s')"
      using unfolded ok by (auto simp: io_bind_def split: prod.splits sum.splits)
    then show ?thesis using chk [of s1 r s'] ok by (cases "node_at s' path") auto
  qed
  ultimately show ?thesis by blast
qed

subsection \<open>The rotation keeps every generation but the oldest\<close>

definition over_limit :: "log_settings \<Rightarrow> string \<Rightarrow> node option \<Rightarrow> bool" where
  "over_limit st rec n =
     (case n of Some (Regular m c) \<Rightarrow> int (length c) + int (length rec) > ls_max_mb st * 1024 * 1024
              | _ \<Rightarrow> False)"

lemma log_resolve_valid: "log_resolve st module dp ra = Inr path \<Longrightarrow> settings_valid st = None"
  by (auto simp: log_resolve_def split: option.splits)

lemma valid_backups: "settings_valid st = None \<Longrightarrow> 1 \<le> ls_backups st \<and> ls_backups st \<le> 5 \<and> 1 \<le> ls_max_mb st \<and> ls_max_mb st \<le> 16"
  by (auto simp: settings_valid_def split: if_splits)

definition rotate_if_full :: "log_settings \<Rightarrow> string \<Rightarrow> string \<Rightarrow> unit io" where
  "rotate_if_full st path rec =
     io_try (fs_lstat path) (\<lambda>res.
       case res of
         Inr info \<Rightarrow>
           if int (node_size info) + int (length rec) > ls_max_mb st * 1024 * 1024
           then io_bind (rotate_loop path (nat (ls_backups st)) (nat (ls_backups st)))
                  (\<lambda>_. rename_if_regular path (path @ ''.1''))
           else io_return ()
       | Inl e \<Rightarrow> if \<not> is_not_exist e then io_fail e else io_return ())"

lemma rotate_if_full_result:
  assumes "rotate_if_full st path rec s = (Inr (), s')" and "plain_or_absent (node_at s path)"
    and "1 \<le> ls_backups st"
  shows "if over_limit st rec (node_at s path)
    then node_at s' path = None \<and>
      (\<forall>i < nat (ls_backups st). plain_or_absent (node_at s (generation path i)) \<and>
         node_at s' (generation path (Suc i)) = node_at s (generation path i))
    else node_at s' = node_at s"
proof -
  obtain res s1 where st: "fs_lstat path s = (res, s1)" by fastforce
  note l = fs_lstat_result [OF st]
  let ?n = "nat (ls_backups st)"
  show ?thesis
  proof (cases "over_limit st rec (node_at s path)")
    case False
    then have "s' = s1"
      using assms(1,2) st l
      by (auto simp: rotate_if_full_def io_try_def over_limit_def node_size_def plain_or_absent_def
          split: sum.splits if_splits)
    then show ?thesis using l False by simp
  next
    case True
    then obtain m c where at: "node_at s path = Some (Regular m c)"
        and big: "int (length c) + int (length rec) > ls_max_mb st * 1024 * 1024"
      by (auto simp: over_limit_def split: option.splits node.splits)
    then have "res \<noteq> Inl ErrIO"
      using assms(1) st by (auto simp: rotate_if_full_def io_try_def)
    then have res: "res = Inr (Regular m c)"
      using l at by (auto split: sum.splits)
    obtain s2 where rot: "rotate_loop path ?n ?n s1 = (Inr (), s2)"
        and ren: "rename_if_regular path (backup path 1) s2 = (Inr (), s')"
      using assms(1) st res big
      by (auto simp: rotate_if_full_def io_try_def io_bind_def node_size_def backup_1
          split: prod.splits sum.splits)
    have n: "0 < ?n" using assms(3) by simp
    note loop = rotate_loop_result [OF rot order_refl n]
    have b1: "node_at s2 (backup path 1) = None" using loop by simp
    have same: "node_at s2 path = node_at s path" using loop l by (auto simp: image_iff)
    have s': "node_at s' = (node_at s2)(path := None, backup path 1 := node_at s path)"
      using rename_if_regular_result(2) [OF ren _ _ b1] same by simp
    have "plain_or_absent (node_at s (generation path i)) \<and>
       node_at s' (generation path (Suc i)) = node_at s (generation path i)" if i: "i < ?n" for i
    proof (cases i)
      case 0
      then show ?thesis using assms(2) s' by (simp add: generation_def)
    next
      case (Suc j)
      then show ?thesis using loop l i s' by (auto simp: generation_def backup_inj)
    qed
    then show ?thesis using True s' by simp
  qed
qed

lemma append_with_settings_steps:
  assumes "append_with_settings fs_type st module dp rec ra s = (Inr (), s')"
    and "log_resolve st module dp ra = Inr path"
  obtains s1 s2 where "validate_destination fs_type st path s = (Inr (), s1)"
    "rotate_if_full st path rec s1 = (Inr (), s2)" "append_bytes path rec s2 = (Inr (), s')"
  using assms that unfolding append_with_settings_def rotate_if_full_def
  by (auto simp: io_bind_def split: prod.splits sum.splits)

text \<open>C22: a successful append. When the record would take the log past its limit, the log file
  afterwards holds exactly the record and every older generation has moved up by one (the content
  of \<open>path\<close> is in \<open>path.1\<close>, that of \<open>path.i\<close> in \<open>path.(i+1)\<close>, only the oldest is gone);
  otherwise the record is added at the end of what was there and no generation changes.\<close>

theorem log_rotation_shifts_generations:
  assumes "append_with_settings fs_type st module dp rec ra s = (Inr (), s')"
    and "log_resolve st module dp ra = Inr path"
  shows "if over_limit st rec (node_at s path)
    then node_at s' path = Some (Regular 384 rec) \<and>
      (\<forall>i < nat (ls_backups st). node_at s' (generation path (Suc i)) = node_at s (generation path i))
    else node_at s' path = appended rec (node_at s path) \<and> plain_or_absent (node_at s path) \<and>
      (\<forall>q. q \<noteq> path \<and> node_at s q \<noteq> None \<longrightarrow> node_at s' q = node_at s q)"
proof -
  obtain s1 s2 where 1: "validate_destination fs_type st path s = (Inr (), s1)"
    and 2: "rotate_if_full st path rec s1 = (Inr (), s2)" and 3: "append_bytes path rec s2 = (Inr (), s')"
    using append_with_settings_steps [OF assms] by blast
  have mk: "node_at s1 p = node_at s p \<or> node_at s p = None \<and> node_at s1 p = Some (Directory 493)"
    and plain: "plain_or_absent (node_at s1 path)" for p
    using validate_destination_result [OF 1] by auto
  have keep: "plain_or_absent (node_at s1 p) \<Longrightarrow> node_at s1 p = node_at s p" for p
    using mk [of p] by (auto simp: plain_or_absent_def)
  have "1 \<le> ls_backups st" using valid_backups [OF log_resolve_valid [OF assms(2)]] by simp
  note rot = rotate_if_full_result [OF 2 plain this]
  have s': "node_at s' = (node_at s2)(path := appended rec (node_at s2 path))"
    using append_bytes_result [OF 3] by simp
  show ?thesis
  proof (cases "over_limit st rec (node_at s path)")
    case True
    then have none: "node_at s2 path = None"
      and gens: "\<forall>i < nat (ls_backups st). plain_or_absent (node_at s1 (generation path i)) \<and>
         node_at s2 (generation path (Suc i)) = node_at s1 (generation path i)"
      using rot keep [OF plain] by simp_all
    have "node_at s' (generation path (Suc i)) = node_at s (generation path i)"
      if "i < nat (ls_backups st)" for i
      using gens that keep [of "generation path i"] s' by (simp add: generation_def)
    then show ?thesis using True none s' by simp
  next
    case False
    then have "node_at s2 = node_at s1" using rot keep [OF plain] by simp
    moreover have "node_at s1 q = node_at s q" if "node_at s q \<noteq> None" for q
      using mk [of q] that by simp
    ultimately show ?thesis
      using False s' keep [OF plain] plain by (auto simp: plain_or_absent_def)
  qed
qed

text \<open>The size bound of the retention policy: after a successful append of one record the log
  file is a regular file of at most the configured number of mebibytes and ends with the record.\<close>

theorem log_stays_within_limit:
  assumes "append_with_settings fs_type st module dp rec ra s = (Inr (), s')"
    and "log_resolve st module dp ra = Inr path" and "length rec \<le> 64 * 1024"
  shows "\<exists>m c. node_at s' path = Some (Regular m (c @ rec)) \<and>
           int (length (c @ rec)) \<le> ls_max_mb st * 1024 * 1024"
proof -
  have mb: "1 \<le> ls_max_mb st" using valid_backups [OF log_resolve_valid [OF assms(2)]] by simp
  obtain s1 s2 where 1: "validate_destination fs_type st path s = (Inr (), s1)"
    and 2: "rotate_if_full st path rec s1 = (Inr (), s2)" and 3: "append_bytes path rec s2 = (Inr (), s')"
    using append_with_settings_steps [OF assms(1,2)] by blast
  have plain: "plain_or_absent (node_at s1 path)" using validate_destination_result [OF 1] by simp
  have "1 \<le> ls_backups st" using valid_backups [OF log_resolve_valid [OF assms(2)]] by simp
  note rot = rotate_if_full_result [OF 2 plain this]
  have new: "node_at s' path = appended rec (node_at s2 path)" using append_bytes_result [OF 3] by simp
  have small: "int (length rec) \<le> ls_max_mb st * 1024 * 1024" using assms(3) mb by linarith
  show ?thesis
  proof (cases "node_at s2 path")
    case None
    then show ?thesis using new small by auto
  next
    case (Some n)
    then have "\<not> over_limit st rec (node_at s1 path) \<and> node_at s2 path = node_at s1 path"
      using rot by (auto split: if_splits)
    then show ?thesis using Some new plain by (auto simp: over_limit_def plain_or_absent_def)
  qed
qed

definition sample_os :: "os" where
  "sample_os = \<lparr>tree = [(''/opt'', Directory 493), (''/opt/core.log'', Regular 384 ''one'')],
                faults = [], entropy = [], realpath = Inr\<rparr>"

lemma sample_append:
  "fst (append_with_settings (\<lambda>_. None) default_settings ''core'' ''/opt/core.log'' ''two'' False sample_os) = Inr ()"
  "log_resolve default_settings ''core'' ''/opt/core.log'' False = Inr ''/opt/core.log''"
  "node_at sample_os ''/opt/core.log'' = Some (Regular 384 ''one'')"
  by code_simp+

theorem log_rotation_witness:
  "node_at (snd (append_with_settings (\<lambda>_. None) default_settings ''core'' ''/opt/core.log'' ''two'' False sample_os))
     ''/opt/core.log'' = Some (Regular 384 ''onetwo'')"
  using log_rotation_shifts_generations [OF prod_eqI sample_append(2), of "\<lambda>_. None" "''two''" sample_os
      "snd (append_with_settings (\<lambda>_. None) default_settings ''core'' ''/opt/core.log'' ''two'' False sample_os)"]
    sample_append
  by (simp add: over_limit_def default_settings_def)

theorem log_limit_witness:
  "\<exists>m c. node_at (snd (append_with_settings (\<lambda>_. None) default_settings ''core'' ''/opt/core.log'' ''two'' False sample_os))
     ''/opt/core.log'' = Some (Regular m (c @ ''two'')) \<and> int (length (c @ ''two'')) \<le> 1024 * 1024"
  using log_stays_within_limit [OF prod_eqI sample_append(2), of "\<lambda>_. None" "''two''" sample_os
      "snd (append_with_settings (\<lambda>_. None) default_settings ''core'' ''/opt/core.log'' ''two'' False sample_os)"]
    sample_append
  by (simp add: default_settings_def)

subsection \<open>Logs in RAM stay in RAM\<close>

definition in_tmp :: "string set" where
  "in_tmp = {p. p = ''/tmp'' \<or> under ''/tmp'' p}"

lemma touches_remove_if_regular [frame]: "p \<in> P \<Longrightarrow> touches P (remove_if_regular p)"
  by (rule touchesI) (auto dest!: remove_if_regular_result intro: same_except_mono)

lemma touches_rename_if_regular [frame]:
  "\<lbrakk>a \<in> P; b \<in> P; a \<noteq> b\<rbrakk> \<Longrightarrow> touches P (rename_if_regular a b)"
  by (rule touchesI, drule rename_if_regular_result(1)) (auto intro: same_except_mono)

lemma touches_rotate_loop: "(\<And>i. backup path i \<in> P) \<Longrightarrow> touches P (rotate_loop path n i)"
  by (induction i) (auto intro!: frame simp: backup_inj)

lemma touches_append_bytes: "p \<in> P \<Longrightarrow> touches P (append_bytes p rec)"
proof -
  assume p: "p \<in> P"
  have "touches P (open_append_no_follow p)"
    by (rule touchesI, drule open_append_result) (use p in \<open>auto intro: same_except_mono\<close>)
  then show ?thesis
    unfolding append_bytes_def using p by (intro frame) auto
qed

lemma ram_path:
  assumes "log_resolve st module dp ra = Inr path" and "ls_mode st = Ram"
  obtains x where "path = ''/tmp/routerforge/logs/'' @ x" "path_dir path = ''/tmp/routerforge/logs''"
proof -
  let ?ext = "if path_ext dp \<noteq> ''.jsonl'' then ''.log'' else path_ext dp"
  let ?x = "''routerforge-'' @ module @ ?ext"
  have mod: "safe_component module" and path: "path = path_join2 ram_dir ?x"
    using assms by (auto simp: log_resolve_def Let_def split: option.splits if_splits)
  have "c \<noteq> slash" if "is_lower c \<or> is_digit c \<or> c = CHR ''-''" for c
  proof
    assume "c = slash"
    moreover have "\<not> (is_lower slash \<or> is_digit slash \<or> slash = CHR ''-'')" by code_simp
    ultimately show False using that by simp
  qed
  then have "slash \<notin> set module"
    using mod by (fastforce simp: safe_component_def list_all_iff split: list.splits)
  then have x: "plain_elem ?x"
    by (auto simp: plain_elem_def slash_def)
  have d: "is_abs ram_dir" "clean ram_dir = ram_dir" "ram_dir \<noteq> [slash]" by code_simp+
  have "path = ram_dir @ slash # ?x" "path_dir path = ram_dir"
    using path path_join_plain [OF d x] by simp_all
  then show thesis using that [of ?x] by (simp add: ram_dir_def slash_def)
qed

lemma in_tmp_prefix: "''/tmp/routerforge/logs/'' @ x \<in> in_tmp"
  by (simp add: in_tmp_def under_def dir_prefix_def has_prefix_def slash_def)

lemma ram_ancestors: "set (ancestors_from [slash] (elems ''/tmp/routerforge/logs'')) \<subseteq> in_tmp"
proof -
  have "ancestors_from [slash] (elems ''/tmp/routerforge/logs'') =
      [''/tmp'', ''/tmp/routerforge'', ''/tmp/routerforge/logs'']" by code_simp
  then show ?thesis
    by (auto simp: in_tmp_def under_def dir_prefix_def has_prefix_def slash_def)
qed

lemma ram_append_frame:
  assumes "ls_mode st = Ram"
  shows "touches in_tmp (append_with_settings fs_type st module dp rec ra)"
proof (cases "log_resolve st module dp ra")
  case (Inl e)
  then show ?thesis by (simp add: append_with_settings_def touches_def)
next
  case (Inr path)
  obtain x where path: "path = ''/tmp/routerforge/logs/'' @ x" "path_dir path = ''/tmp/routerforge/logs''"
    using ram_path [OF Inr assms] .
  have tmp: "path \<in> in_tmp" "backup path i \<in> in_tmp" for i
    using in_tmp_prefix [of x] in_tmp_prefix [of "x @ ''.'' @ itoa (int i)"] path by (auto simp: backup_def)
  have "touches in_tmp (validate_destination fs_type st path)"
    unfolding validate_destination_def Let_def
    using assms path(2) ram_ancestors by (intro frame) auto
  moreover have "touches in_tmp (rotate_if_full st path rec)"
    unfolding rotate_if_full_def backup_1
    by (intro frame touches_rotate_loop tmp) simp
  ultimately show ?thesis
    using touches_append_bytes [OF tmp(1)]
    unfolding append_with_settings_def Inr sum.case rotate_if_full_def [symmetric]
    by (intro touches_bind)
qed

lemma read_settings_frame: "touches P (read_settings decode f)"
  unfolding read_settings_def by (intro frame)


definition ram_decode :: "string \<Rightarrow> go_error + log_settings" where
  "ram_decode raw = Inr \<lparr>ls_mode = Ram, ls_custom = [], ls_max_mb = 1, ls_backups = 2\<rparr>"

definition ram_os :: "os" where
  "ram_os = \<lparr>tree = [(settings_path, Regular 384 ''ram''), (''/opt/core.log'', Regular 384 ''one'')],
             faults = [], entropy = [], realpath = Inr\<rparr>"


end
