(* ===== verification/Config_Vault.thy ===== *)
theory Config_Vault
  imports Safety_File "HOL-Library.Sublist"
begin

text \<open>
  \<^verbatim>\<open>internal/platform/configvault\<close>: content-addressed snapshots of configuration files. The
  record \<open>vault_env\<close> holds what the code takes from outside the modelled file system: the
  checksum (hex SHA-256), the JSON codec of manifests and of the state file, and the modification
  time \<^verbatim>\<open>Lstat\<close> reports. The clock and the random suffix of a snapshot id are arguments.
  Opening, reading to the limit and closing a file is one call of the file-system model.
\<close>

record artifact_spec =
  as_id :: string
  as_path :: string

record capture_request =
  cr_component :: string
  cr_reason :: string
  cr_transaction :: string
  cr_artifacts :: "artifact_spec list"

record artifact =
  ar_id :: string
  ar_source :: string
  ar_sha :: string
  ar_size :: int
  ar_mode :: nat
  ar_modified :: time

record snapshot =
  sn_schema :: int
  sn_id :: string
  sn_component :: string
  sn_reason :: string
  sn_transaction :: string
  sn_created :: time
  sn_artifacts :: "artifact list"
  sn_total :: int

record vault_state =
  vs_last_working :: string
  vs_updated :: time

record vault_options =
  vo_root :: string
  vo_allowed :: "string list"
  vo_max_artifact :: int
  vo_max_snapshot :: int
  vo_max_store :: int
  vo_max_snapshots :: int

record vault =
  v_root :: string
  v_allowed :: "string list"
  v_max_artifact :: int
  v_max_snapshot :: int
  v_max_store :: int
  v_max_snapshots :: int

record vault_env =
  ve_digest :: "string \<Rightarrow> string"
  ve_enc :: "snapshot \<Rightarrow> go_error + string"
  ve_dec :: "string \<Rightarrow> go_error + snapshot"
  ve_enc_state :: "vault_state \<Rightarrow> go_error + string"
  ve_dec_state :: "string \<Rightarrow> go_error + vault_state"
  ve_mtime :: "string \<Rightarrow> time"

definition schema_version :: "int" where
  "schema_version = 1"

definition manifest_read_limit :: "int" where
  "manifest_read_limit = 1048576"

text \<open>The three regular expressions.\<close>

definition id_pattern :: "string \<Rightarrow> bool" where
  "id_pattern s \<longleftrightarrow>
     (case s of [] \<Rightarrow> False
      | c # cs \<Rightarrow> is_alnum c \<and> int (length cs) \<le> 63 \<and>
          list_all (\<lambda>d. is_alnum d \<or> d \<in> {CHR ''.'', CHR ''_'', CHR ''-''}) cs)"

definition snapshot_pattern :: "string \<Rightarrow> bool" where
  "snapshot_pattern s \<longleftrightarrow>
     (case split_char (CHR ''-'') s of
        [a, n, h] \<Rightarrow> a = ''cfg'' \<and> n \<noteq> [] \<and> list_all is_digit n \<and> int (length h) = 16 \<and> list_all is_hex h
      | _ \<Rightarrow> False)"

definition sha_pattern :: "string \<Rightarrow> bool" where
  "sha_pattern s \<longleftrightarrow> int (length s) = 64 \<and> list_all is_hex s"

definition positive_or :: "int \<Rightarrow> int \<Rightarrow> int" where
  "positive_or value fallback = (if value > 0 then value else fallback)"

fun clean_roots :: "string list \<Rightarrow> go_error + string list" where
  "clean_roots [] = Inr []"
| "clean_roots (raw # raws) =
     (let v = clean (trim_space raw) in
      if v = ''.'' \<or> v = [] \<or> \<not> is_abs v
      then Inl (Msg (''allowed root must be absolute: '' @ quoted raw))
      else (case clean_roots raws of Inl e \<Rightarrow> Inl e | Inr vs \<Rightarrow> Inr (v # vs)))"

definition new_vault :: "vault_options \<Rightarrow> go_error + vault" where
  "new_vault opts =
     (let root = clean (trim_space (vo_root opts)) in
      if root = ''.'' \<or> root = [] \<or> \<not> is_abs root
      then Inl (Msg ''config vault root must be an absolute path'')
      else if vo_allowed opts = []
      then Inl (Msg ''config vault requires at least one allowed source root'')
      else
        (case clean_roots (vo_allowed opts) of
           Inl e \<Rightarrow> Inl e
         | Inr roots \<Rightarrow>
             (let v = \<lparr>v_root = root, v_allowed = sort_by (<) roots,
                       v_max_artifact = positive_or (vo_max_artifact opts) 2097152,
                       v_max_snapshot = positive_or (vo_max_snapshot opts) 8388608,
                       v_max_store = positive_or (vo_max_store opts) 33554432,
                       v_max_snapshots = (if vo_max_snapshots opts \<le> 0 then 32 else vo_max_snapshots opts)\<rparr>
              in if v_max_snapshot v < v_max_artifact v
                 then Inl (Msg ''max snapshot bytes must be >= max artifact bytes'')
                 else if v_max_store v < v_max_snapshot v
                 then Inl (Msg ''max store bytes must be >= max snapshot bytes'')
                 else Inr v)))"

subsection \<open>Paths of the store\<close>

definition objects_dir :: "vault \<Rightarrow> string" where
  "objects_dir v = path_join2 (v_root v) ''objects''"

definition snapshots_dir :: "vault \<Rightarrow> string" where
  "snapshots_dir v = path_join2 (v_root v) ''snapshots''"

definition object_path :: "vault \<Rightarrow> string \<Rightarrow> string" where
  "object_path v checksum = path_join2 (objects_dir v) checksum"

definition manifest_path :: "vault \<Rightarrow> string \<Rightarrow> string" where
  "manifest_path v i = path_join2 (snapshots_dir v) (i @ ''.json'')"

definition state_path :: "vault \<Rightarrow> string" where
  "state_path v = path_join2 (v_root v) ''state.json''"

definition ensure_layout :: "vault \<Rightarrow> unit io" where
  "ensure_layout v = io_iter (\<lambda>d. fs_mkdir_all d 448) [v_root v, objects_dir v, snapshots_dir v]"

subsection \<open>Reading\<close>

definition vault_get :: "vault_env \<Rightarrow> vault \<Rightarrow> string \<Rightarrow> snapshot io" where
  "vault_get env v i =
     (if \<not> snapshot_pattern i then io_fail (Msg ''invalid snapshot id'')
      else io_bind (fs_lstat (manifest_path v i)) (\<lambda>info.
        if \<not> is_regular info then io_fail (Msg ''snapshot manifest must be a regular non-symlink file'')
        else if int (node_size info) > manifest_read_limit
        then io_fail (Msg ''snapshot manifest exceeds read limit'')
        else io_bind (fs_read_file (manifest_path v i)) (\<lambda>content.
          case ve_dec env (limited (manifest_read_limit + 1) content) of
            Inl e \<Rightarrow> io_fail e
          | Inr m \<Rightarrow>
              if sn_schema m \<noteq> schema_version \<or> sn_id m \<noteq> i \<or> \<not> id_pattern (sn_component m)
              then io_fail (Msg ''invalid snapshot manifest'')
              else io_return m)))"

text \<open>Newest first, ties by descending id.\<close>

definition snapshot_before :: "snapshot \<Rightarrow> snapshot \<Rightarrow> bool" where
  "snapshot_before a b =
     (if sn_created a = sn_created b then sn_id b < sn_id a else sn_created b < sn_created a)"

definition snapshot_name :: "string \<times> node \<Rightarrow> string option" where
  "snapshot_name entry =
     (let name = fst entry in
      if is_dir (snd entry) then None
      else if \<not> has_suffix name ''.json'' then None
      else if \<not> snapshot_pattern (trim_suffix name ''.json'') then None
      else Some (trim_suffix name ''.json''))"

fun get_entries :: "vault_env \<Rightarrow> vault \<Rightarrow> (string \<times> node) list \<Rightarrow> snapshot list io" where
  "get_entries env v [] = io_return []"
| "get_entries env v (entry # entries) =
     (case snapshot_name entry of
        None \<Rightarrow> get_entries env v entries
      | Some i \<Rightarrow> io_bind (vault_get env v i) (\<lambda>m.
                  io_bind (get_entries env v entries) (\<lambda>ms. io_return (m # ms))))"

definition vault_list :: "vault_env \<Rightarrow> vault \<Rightarrow> snapshot list io" where
  "vault_list env v =
     io_try (fs_read_dir (snapshots_dir v)) (\<lambda>res.
       case res of
         Inl e \<Rightarrow> if is_not_exist e then io_return [] else io_fail e
       | Inr entries \<Rightarrow>
           io_bind (get_entries env v entries) (\<lambda>ms. io_return (sort_by snapshot_before ms)))"

definition vault_get_state :: "vault_env \<Rightarrow> vault \<Rightarrow> vault_state io" where
  "vault_get_state env v =
     io_try (fs_lstat (state_path v)) (\<lambda>res.
       case res of
         Inl e \<Rightarrow> if is_not_exist e then io_return \<lparr>vs_last_working = [], vs_updated = zero_time\<rparr>
                  else io_fail e
       | Inr info \<Rightarrow>
           if \<not> is_regular info then io_fail (Msg ''config vault state must be a regular non-symlink file'')
           else io_bind (fs_read_file (state_path v)) (\<lambda>payload.
             case ve_dec_state env payload of
               Inl e \<Rightarrow> io_fail e
             | Inr st \<Rightarrow>
                 if vs_last_working st \<noteq> [] \<and> \<not> snapshot_pattern (vs_last_working st)
                 then io_fail (Msg ''config vault state contains invalid snapshot id'')
                 else io_return st))"

definition mark_last_working :: "vault_env \<Rightarrow> time \<Rightarrow> vault \<Rightarrow> string \<Rightarrow> unit io" where
  "mark_last_working env now v i =
     io_bind (vault_get env v i) (\<lambda>_.
     io_bind (ensure_layout v) (\<lambda>_.
       case ve_enc_state env \<lparr>vs_last_working = i, vs_updated = now\<rparr> of
         Inl e \<Rightarrow> io_fail e
       | Inr payload \<Rightarrow> write_file_atomic (state_path v) (payload @ [CHR 0x0A]) 384))"

text \<open>\<^verbatim>\<open>allowed\<close> repeats the containment test of \<^verbatim>\<open>internal/safety\<close> on \<^verbatim>\<open>filepath.Rel\<close>.\<close>

definition vault_allowed :: "vault \<Rightarrow> string \<Rightarrow> bool" where
  "vault_allowed v path =
     list_ex (\<lambda>root. case path_rel root path of
         Inl _ \<Rightarrow> False
       | Inr rel \<Rightarrow> rel = ''.'' \<or> (rel \<noteq> ''..'' \<and> \<not> has_prefix rel (''..'' @ [slash]))) (v_allowed v)"

definition read_artifact :: "vault_env \<Rightarrow> vault \<Rightarrow> artifact_spec \<Rightarrow> (artifact \<times> string) io" where
  "read_artifact env v spec =
     (let path = clean (trim_space (as_path spec));
          too_big = Msg (''source exceeds '' @ itoa (v_max_artifact v) @ '' bytes'') in
      if \<not> is_abs path then io_fail (Msg ''source path must be absolute'')
      else if \<not> vault_allowed v path then io_fail (Msg ''source path is outside allowed roots'')
      else io_bind (fs_eval_symlinks path) (\<lambda>resolved.
        if clean resolved \<noteq> path then io_fail (Msg ''source path must not contain symlinks'')
        else io_bind (fs_lstat path) (\<lambda>info.
          if \<not> is_regular info then io_fail (Msg ''source must be a regular non-symlink file'')
          else if int (node_size info) > v_max_artifact v then io_fail too_big
          else io_bind (fs_read_file path) (\<lambda>whole.
            let content = limited (v_max_artifact v + 1) whole in
            if int (length content) > v_max_artifact v then io_fail too_big
            else io_return (\<lparr>ar_id = as_id spec, ar_source = path, ar_sha = ve_digest env content,
                             ar_size = int (length content), ar_mode = node_perm info,
                             ar_modified = ve_mtime env path\<rparr>, content)))))"

definition find_artifact :: "string \<Rightarrow> artifact list \<Rightarrow> artifact option" where
  "find_artifact i as = List.find (\<lambda>a. ar_id a = i) as"

definition vault_read_artifact :: "vault_env \<Rightarrow> vault \<Rightarrow> string \<Rightarrow> string \<Rightarrow> (artifact \<times> string) io" where
  "vault_read_artifact env v sid aid =
     (if \<not> id_pattern aid then io_fail (Msg ''invalid artifact id'')
      else io_bind (vault_get env v sid) (\<lambda>m.
        case find_artifact aid (sn_artifacts m) of
          None \<Rightarrow> io_fail ErrNotExist
        | Some rec \<Rightarrow>
            if \<not> sha_pattern (ar_sha rec) then io_fail (Msg ''artifact contains invalid object checksum'')
            else if ar_size rec < 0 \<or> ar_size rec > v_max_artifact v
            then io_fail (Msg ''artifact size is outside configured limits'')
            else io_bind (fs_lstat (object_path v (ar_sha rec))) (\<lambda>info.
              if \<not> is_regular info then io_fail (Msg ''artifact object must be a regular non-symlink file'')
              else if int (node_size info) \<noteq> ar_size rec then io_fail (Msg ''artifact object size mismatch'')
              else io_bind (fs_read_file (object_path v (ar_sha rec))) (\<lambda>whole.
                let content = limited (v_max_artifact v + 1) whole in
                if int (length content) \<noteq> ar_size rec then io_fail (Msg ''artifact object read size mismatch'')
                else if ve_digest env content \<noteq> ar_sha rec
                then io_fail (Msg ''artifact object checksum mismatch'')
                else io_return (rec, content)))))"

subsection \<open>Writing\<close>

definition ensure_object :: "vault_env \<Rightarrow> vault \<Rightarrow> string \<Rightarrow> string \<Rightarrow> unit io" where
  "ensure_object env v checksum content =
     (if \<not> sha_pattern checksum then io_fail (Msg ''invalid object checksum'')
      else io_try (fs_lstat (object_path v checksum)) (\<lambda>res.
        case res of
          Inr info \<Rightarrow>
            if \<not> is_regular info then io_fail (Msg ''existing object is not a regular file'')
            else io_bind (fs_read_file (object_path v checksum)) (\<lambda>existing.
              if ve_digest env existing \<noteq> checksum then io_fail (Msg ''existing object checksum mismatch'')
              else io_return ())
        | Inl e \<Rightarrow>
            if \<not> is_not_exist e then io_fail e
            else write_file_atomic (object_path v checksum) content 384))"

definition referenced :: "snapshot list \<Rightarrow> string list" where
  "referenced ms = filter sha_pattern (map ar_sha (concat (map sn_artifacts ms)))"

fun collect_entries :: "vault \<Rightarrow> string list \<Rightarrow> (string \<times> node) list \<Rightarrow> unit io" where
  "collect_entries v refs [] = io_return ()"
| "collect_entries v refs ((name, entry) # entries) =
     (if is_dir entry \<or> \<not> sha_pattern name then collect_entries v refs entries
      else if name \<in> set refs then collect_entries v refs entries
      else io_bind (fs_lstat (object_path v name)) (\<lambda>info.
        if \<not> is_regular info then collect_entries v refs entries
        else io_bind (fs_remove (object_path v name)) (\<lambda>_. collect_entries v refs entries)))"

definition gc_objects :: "vault_env \<Rightarrow> vault \<Rightarrow> unit io" where
  "gc_objects env v =
     io_bind (vault_list env v) (\<lambda>ms.
     io_try (fs_read_dir (objects_dir v)) (\<lambda>res.
       case res of
         Inl e \<Rightarrow> if is_not_exist e then io_return () else io_fail e
       | Inr entries \<Rightarrow> collect_entries v (referenced ms) entries))"

text \<open>\<^verbatim>\<open>WalkDir\<close> summing the sizes of the regular files below the root, as one call.\<close>

definition tree_size :: "string \<Rightarrow> os \<Rightarrow> int" where
  "tree_size d s = sum_list (map (\<lambda>(p, n). if p = d \<or> under d p then int (node_size n) else 0) (tree s))"

definition store_bytes :: "vault \<Rightarrow> int io" where
  "store_bytes v = syscall (\<lambda>s.
     (if node_at s (v_root v) = None then Inr 0 else Inr (tree_size (v_root v) s), s))"

definition find_victim :: "string \<Rightarrow> string \<Rightarrow> snapshot list \<Rightarrow> string" where
  "find_victim preserve last_working ms =
     (case List.find (\<lambda>m. sn_id m \<noteq> preserve \<and> sn_id m \<noteq> last_working) (rev ms) of
        None \<Rightarrow> [] | Some m \<Rightarrow> sn_id m)"

text \<open>One turn of the retention loop: \<open>Inr True\<close> is its \<^verbatim>\<open>return nil\<close>, \<open>Inr False\<close> goes round again.\<close>

definition prune_round :: "vault_env \<Rightarrow> vault \<Rightarrow> string \<Rightarrow> bool io" where
  "prune_round env v preserve =
     io_bind (vault_list env v) (\<lambda>ms.
     io_bind (store_bytes v) (\<lambda>usage.
       if int (length ms) \<le> v_max_snapshots v \<and> usage \<le> v_max_store v
       then io_bind (gc_objects env v) (\<lambda>_. io_return True)
       else
         io_bind (vault_get_state env v) (\<lambda>st.
           let victim = find_victim preserve (vs_last_working st) ms in
           if victim = []
           then io_fail (Msg ''config vault retention cannot be satisfied without deleting a protected snapshot'')
           else io_bind (fs_remove (manifest_path v victim)) (\<lambda>_.
                io_bind (gc_objects env v) (\<lambda>_. io_return False)))))"

text \<open>Calls that never add a node, for the termination of the loop.\<close>

definition shrinks :: "'a io \<Rightarrow> bool" where
  "shrinks m \<longleftrightarrow> (\<forall>s. subseq (tree (snd (m s))) (tree s))"

lemma shrinks_subseq: "shrinks m \<Longrightarrow> m s = (r, s') \<Longrightarrow> subseq (tree s') (tree s)"
  unfolding shrinks_def by (metis snd_conv)

lemma shrinksD: "shrinks m \<Longrightarrow> m s = (r, s') \<Longrightarrow> length (tree s') \<le> length (tree s)"
  by (metis shrinks_subseq list_emb_length)

lemma shrinks_bind: "shrinks m \<Longrightarrow> (\<And>x. shrinks (f x)) \<Longrightarrow> shrinks (io_bind m f)"
  unfolding shrinks_def io_bind_def
  by (auto split: prod.splits sum.splits) (metis subseq_order.order_trans snd_conv)+

lemma shrinks_try: "shrinks m \<Longrightarrow> (\<And>x. shrinks (f x)) \<Longrightarrow> shrinks (io_try m f)"
  unfolding shrinks_def io_try_def
  by (auto split: prod.splits) (metis subseq_order.order_trans snd_conv)

lemma shrinks_syscall: "(\<And>s. subseq (tree (snd (m s))) (tree s)) \<Longrightarrow> shrinks (syscall m)"
proof -
  assume a: "\<And>s. subseq (tree (snd (m s))) (tree s)"
  have "subseq (tree (snd (m (s\<lparr>faults := bs\<rparr>)))) (tree s)" for s bs
    using a [of "s\<lparr>faults := bs\<rparr>"] by simp
  then show ?thesis using a by (auto simp: shrinks_def syscall_def split: list.splits)
qed

lemma shrinks_calls:
  "shrinks (io_return x)" "shrinks (io_fail e)" "shrinks (fs_lstat p)" "shrinks (fs_read_file p)"
  "shrinks (fs_read_dir p)" "shrinks (fs_remove p)" "shrinks (store_bytes v)"
  unfolding fs_lstat_def fs_read_file_def fs_read_dir_def fs_remove_def store_bytes_def
  by (simp_all add: shrinks_def [of "io_return x"] shrinks_def [of "io_fail e"])
    (auto intro!: shrinks_syscall simp: del_node_def AList.delete_eq split: option.splits)

lemma shrinks_if: "shrinks a \<Longrightarrow> shrinks b \<Longrightarrow> shrinks (if c then a else b)"
  by simp

lemma shrinks_case_sum: "(\<And>e. shrinks (f e)) \<Longrightarrow> (\<And>x. shrinks (g x)) \<Longrightarrow> shrinks (case_sum f g r)"
  by (cases r) auto

lemma shrinks_case_option: "shrinks a \<Longrightarrow> (\<And>x. shrinks (g x)) \<Longrightarrow> shrinks (case_option a g r)"
  by (cases r) auto

lemmas shrinks_intros =
  shrinks_bind shrinks_try shrinks_if shrinks_case_sum shrinks_case_option shrinks_calls

lemma shrinks_get: "shrinks (vault_get env v i)"
  unfolding vault_get_def by (intro shrinks_intros)

lemma shrinks_get_entries: "shrinks (get_entries env v es)"
  by (induction es) (auto intro!: shrinks_intros shrinks_get split: option.splits simp del: io_return_simp)

lemma shrinks_list: "shrinks (vault_list env v)"
  unfolding vault_list_def by (intro shrinks_intros shrinks_get_entries)

lemma shrinks_state: "shrinks (vault_get_state env v)"
  unfolding vault_get_state_def by (intro shrinks_intros)

lemma shrinks_collect: "shrinks (collect_entries v refs es)"
proof (induction es)
  case Nil
  then show ?case by (simp add: shrinks_def)
next
  case (Cons e es)
  then show ?case by (cases e) (auto intro!: shrinks_intros)
qed

lemma shrinks_gc: "shrinks (gc_objects env v)"
  unfolding gc_objects_def by (intro shrinks_intros shrinks_list shrinks_collect)

lemma fs_remove_shrinks:
  assumes "fs_remove p s = (Inr (), s')"
  shows "length (tree s') < length (tree s)"
proof -
  have lt: "length (AList.delete p t) < length t" if found: "map_of t p = Some n" for n and t :: "(string \<times> node) list"
  proof -
    have "(p, n) \<in> set t" using found by (rule map_of_SomeD)
    then show ?thesis
      unfolding AList.delete_eq by (intro length_filter_less [of "(p, n)"]) auto
  qed
  show ?thesis
    using assms unfolding fs_remove_def
    by (elim syscall_cases) (auto simp: node_at_def del_node_def dest: lt split: option.splits if_splits)
qed

lemma prune_round_less:
  assumes "prune_round env v preserve s = (Inr False, s')"
  shows "length (tree s') < length (tree s)"
proof -
  obtain ms s1 n s2 st s3 victim s4 where steps: "vault_list env v s = (Inr ms, s1)"
      "store_bytes v s1 = (Inr n, s2)" "vault_get_state env v s2 = (Inr st, s3)"
      "fs_remove (manifest_path v victim) s3 = (Inr (), s4)" "gc_objects env v s4 = (Inr (), s')"
    using assms unfolding prune_round_def
    by (auto simp: io_bind_def Let_def split: prod.splits sum.splits if_splits)
  show ?thesis
    using shrinksD [OF shrinks_list steps(1)] shrinksD [OF shrinks_calls(7) steps(2)]
      shrinksD [OF shrinks_state steps(3)] fs_remove_shrinks [OF steps(4)]
      shrinksD [OF shrinks_gc steps(5)] by linarith
qed

text \<open>The loop ends: every turn that goes round again has removed a manifest.\<close>

function prune :: "vault_env \<Rightarrow> vault \<Rightarrow> string \<Rightarrow> os \<Rightarrow> (go_error + unit) \<times> os" where
  "prune env v preserve s =
     (case prune_round env v preserve s of
        (Inl e, s') \<Rightarrow> (Inl e, s')
      | (Inr finished, s') \<Rightarrow> if finished then (Inr (), s') else prune env v preserve s')"
  by pat_completeness auto
termination
proof (relation "measure (\<lambda>(env, v, p, s). length (tree s))", goal_cases)
  case 1
  show ?case by simp
next
  case (2 env v preserve s r s' finished)
  then have "prune_round env v preserve s = (Inr False, s')" by simp
  then show ?case using prune_round_less by auto
qed

declare prune.simps [simp del]

subsection \<open>Capture\<close>

fun capture_loop ::
    "vault_env \<Rightarrow> vault \<Rightarrow> artifact_spec list \<Rightarrow> string list \<Rightarrow> artifact list \<Rightarrow> int \<Rightarrow> (artifact list \<times> int) io" where
  "capture_loop env v [] seen recs acc = io_return (recs, acc)"
| "capture_loop env v (spec # specs) seen recs acc =
     (if \<not> id_pattern (as_id spec) then io_fail (Msg (''invalid artifact id '' @ quoted (as_id spec)))
      else if as_id spec \<in> set seen then io_fail (Msg (''duplicate artifact id '' @ quoted (as_id spec)))
      else
        io_bind (io_wrap (''artifact '' @ as_id spec @ '': '') (read_artifact env v spec)) (\<lambda>(rec, content).
        if acc > v_max_snapshot v - ar_size rec
        then io_fail (Msg (''snapshot exceeds '' @ itoa (v_max_snapshot v) @ '' bytes''))
        else
          io_bind (io_wrap (''artifact '' @ as_id spec @ '' object: '') (ensure_object env v (ar_sha rec) content))
            (\<lambda>_. capture_loop env v specs (as_id spec # seen) (recs @ [rec]) (acc + ar_size rec))))"

definition new_snapshot_id :: "go_error + string \<Rightarrow> time \<Rightarrow> go_error + string" where
  "new_snapshot_id rnd now =
     (case rnd of Inl e \<Rightarrow> Inl e | Inr h \<Rightarrow> Inr (''cfg-'' @ itoa (unix_nano now) @ ''-'' @ h))"

definition capture ::
    "vault_env \<Rightarrow> time \<Rightarrow> go_error + string \<Rightarrow> vault \<Rightarrow> capture_request \<Rightarrow> snapshot io" where
  "capture env now rnd v req =
     (if \<not> id_pattern (cr_component req) then io_fail (Msg ''invalid component id'')
      else if int (length (cr_reason req)) > 512 then io_fail (Msg ''snapshot reason is too long'')
      else if int (length (cr_transaction req)) > 128 then io_fail (Msg ''transaction id is too long'')
      else
        io_bind (ensure_layout v) (\<lambda>_.
        io_bind (capture_loop env v (cr_artifacts req) [] [] 0) (\<lambda>(recs, acc).
          case new_snapshot_id rnd now of
            Inl e \<Rightarrow> io_fail e
          | Inr i \<Rightarrow>
              (let m = \<lparr>sn_schema = schema_version, sn_id = i, sn_component = cr_component req,
                        sn_reason = trim_space (cr_reason req), sn_transaction = trim_space (cr_transaction req),
                        sn_created = now, sn_artifacts = sort_by (\<lambda>a b. ar_id a < ar_id b) recs,
                        sn_total = acc\<rparr>
               in case ve_enc env m of
                    Inl e \<Rightarrow> io_fail e
                  | Inr text \<Rightarrow>
                      (let payload = text @ [CHR 0x0A] in
                       if int (length payload) > manifest_read_limit
                       then io_fail (Msg ''snapshot manifest is unexpectedly large'')
                       else
                         io_bind (write_file_atomic (manifest_path v i) payload 384) (\<lambda>_.
                         io_try (prune env v i) (\<lambda>res.
                           case res of
                             Inl e \<Rightarrow> io_try (fs_remove (manifest_path v i)) (\<lambda>_.
                                      io_try (gc_objects env v) (\<lambda>_. io_fail e))
                           | Inr _ \<Rightarrow> io_return m)))))))"

subsection \<open>Names and paths\<close>

definition vault_ok :: "vault \<Rightarrow> bool" where
  "vault_ok v \<longleftrightarrow> target_ok (v_root v)"

lemma hex_not_slash: "is_hex c \<Longrightarrow> c \<noteq> slash \<and> c \<noteq> CHR ''.''"
  by (auto simp: is_hex_def is_digit_def byte_of_def slash_def)

lemma sha_plain: "sha_pattern h \<Longrightarrow> plain_elem h"
proof -
  assume a: "sha_pattern h"
  then have "length h = 64" by (simp add: sha_pattern_def)
  then have "h \<noteq> []" "h \<noteq> ''.''" "h \<noteq> ''..''" by auto
  moreover have "slash \<notin> set h"
    using a hex_not_slash by (fastforce simp: sha_pattern_def list_all_iff)
  ultimately show ?thesis by (simp add: plain_elem_def)
qed

lemma digit_not_slash: "is_digit c \<Longrightarrow> c \<noteq> slash"
  by (auto simp: is_digit_def byte_of_def slash_def)

lemma snapshot_plain: "snapshot_pattern i \<Longrightarrow> plain_elem (i @ ''.json'')"
proof -
  assume a: "snapshot_pattern i"
  then obtain n h where parts: "split_char (CHR ''-'') i = [''cfg'', n, h]"
      and n: "list_all is_digit n" and h: "list_all is_hex h"
    by (auto simp: snapshot_pattern_def split: list.splits)
  have i: "i = ''cfg'' @ ''-'' @ n @ ''-'' @ h"
    using join_split_char [of "CHR ''-''" i] parts by simp
  have "slash \<notin> set n" "slash \<notin> set h"
    using n h by (auto simp: list_all_iff dest: digit_not_slash hex_not_slash)
  then show ?thesis by (auto simp: i plain_elem_def slash_def)
qed

lemma snapshot_not_empty: "snapshot_pattern i \<Longrightarrow> i \<noteq> []"
  by (auto simp: snapshot_pattern_def)

lemma root_join:
  assumes "vault_ok v" and "plain_elem x"
  shows "path_join2 (v_root v) x = v_root v @ slash # x" "target_ok (v_root v @ slash # x)"
proof -
  have r: "is_abs (v_root v)" "clean (v_root v) = v_root v" "v_root v \<noteq> [slash]"
    using assms(1) by (auto simp: vault_ok_def target_ok_def)
  show "path_join2 (v_root v) x = v_root v @ slash # x"
    by (rule path_join_plain(1) [OF r assms(2)])
  have "v_root v \<noteq> []" using r(1) by (auto simp: is_abs_def)
  then have "v_root v @ slash # x \<noteq> [slash]" by (cases "v_root v") auto
  then show "target_ok (v_root v @ slash # x)"
    unfolding target_ok_def using path_join_plain(3,4) [OF r assms(2)] by simp
qed

lemma join2:
  assumes "target_ok d" and "plain_elem x"
  shows "path_join2 d x = d @ slash # x" "target_ok (d @ slash # x)"
  using root_join [of "\<lparr>v_root = d, v_allowed = [], v_max_artifact = 0, v_max_snapshot = 0,
      v_max_store = 0, v_max_snapshots = 0\<rparr>"] assms by (auto simp: vault_ok_def)

lemma store_names: "plain_elem ''objects''" "plain_elem ''snapshots''" "plain_elem ''state.json''"
  by (auto simp: plain_elem_def slash_def)

lemma vault_dirs:
  assumes "vault_ok v"
  shows "objects_dir v = v_root v @ slash # ''objects''" "target_ok (objects_dir v)"
    "snapshots_dir v = v_root v @ slash # ''snapshots''" "target_ok (snapshots_dir v)"
    "state_path v = v_root v @ slash # ''state.json''" "target_ok (state_path v)"
  using root_join [OF assms] store_names by (auto simp: objects_dir_def snapshots_dir_def state_path_def)

lemma object_path_eq:
  assumes "vault_ok v" and "sha_pattern h"
  shows "object_path v h = objects_dir v @ slash # h" "target_ok (object_path v h)"
  using join2 [OF vault_dirs(2) [OF assms(1)] sha_plain [OF assms(2)]] by (auto simp: object_path_def)

lemma manifest_path_eq:
  assumes "vault_ok v" and "snapshot_pattern i"
  shows "manifest_path v i = snapshots_dir v @ slash # i @ ''.json''" "target_ok (manifest_path v i)"
  using join2 [OF vault_dirs(4) [OF assms(1)] snapshot_plain [OF assms(2)]] by (auto simp: manifest_path_def)

lemma vault_paths_distinct:
  assumes "vault_ok v"
  shows "sha_pattern h \<Longrightarrow> snapshot_pattern i \<Longrightarrow> object_path v h \<noteq> manifest_path v i"
    "sha_pattern h \<Longrightarrow> object_path v h \<noteq> state_path v"
    "snapshot_pattern i \<Longrightarrow> manifest_path v i \<noteq> state_path v"
    "snapshot_pattern i \<Longrightarrow> snapshot_pattern j \<Longrightarrow> manifest_path v i = manifest_path v j \<longleftrightarrow> i = j"
    "sha_pattern h \<Longrightarrow> sha_pattern g \<Longrightarrow> object_path v h = object_path v g \<longleftrightarrow> h = g"
  using assms by (auto simp: object_path_eq manifest_path_eq vault_dirs slash_def)

lemma child_name_join: "d \<noteq> [slash] \<Longrightarrow> slash \<notin> set x \<Longrightarrow> x \<noteq> [] \<Longrightarrow> child_name d (d @ slash # x) = Some x"
  by (simp add: child_name_def dir_prefix_def has_prefix_def)

subsection \<open>What a listing contains\<close>

text \<open>A snapshot is stored when a valid manifest of it lies at the path of its id.\<close>

definition stored :: "vault_env \<Rightarrow> vault \<Rightarrow> (string \<Rightarrow> node option) \<Rightarrow> snapshot \<Rightarrow> bool" where
  "stored env v N m \<longleftrightarrow> snapshot_pattern (sn_id m) \<and> sn_schema m = schema_version \<and> id_pattern (sn_component m) \<and>
     (\<exists>k c. N (manifest_path v (sn_id m)) = Some (Regular k c) \<and> int (length c) \<le> manifest_read_limit \<and>
        ve_dec env c = Inr m)"

lemma fs_read_file_result:
  "fs_read_file p s = (Inr c, s') \<Longrightarrow> node_at s p = Some (Regular k d) \<Longrightarrow> c = d"
  unfolding fs_read_file_def
  by (erule syscall_cases) (auto simp: follow_link.simps split: sum.splits node.splits)

lemma vault_get_result:
  assumes "vault_get env v i s = (r, s')"
  shows "node_at s' = node_at s \<and>
    (case r of Inl e \<Rightarrow> True | Inr m \<Rightarrow> sn_id m = i \<and> stored env v (node_at s) m)"
proof -
  have "touches {} (vault_get env v i)" unfolding vault_get_def by (intro frame)
  from touchesD [OF this assms] have ro: "node_at s' = node_at s"
    by (auto simp: same_except_def)
  show ?thesis
  proof (cases r)
    case (Inr m)
    obtain info s1 c where 1: "fs_lstat (manifest_path v i) s = (Inr info, s1)"
      and 2: "fs_read_file (manifest_path v i) s1 = (Inr c, s')"
      and info: "is_regular info" "int (node_size info) \<le> manifest_read_limit"
      and dec: "ve_dec env (take (nat (manifest_read_limit + 1)) c) = Inr m"
      and m: "snapshot_pattern i" "sn_schema m = schema_version" "sn_id m = i" "id_pattern (sn_component m)"
      using assms Inr unfolding vault_get_def
      by (auto simp: io_bind_def split: if_splits prod.splits sum.splits)
    obtain k d where d: "info = Regular k d" using info(1) by (auto simp: is_regular_def split: node.splits)
    have at: "node_at s (manifest_path v i) = Some (Regular k d)" "node_at s1 (manifest_path v i) = Some (Regular k d)"
      using fs_lstat_result [OF 1] d by auto
    have "c = d" using fs_read_file_result [OF 2 at(2)] .
    moreover have "int (length d) \<le> manifest_read_limit" using info d by (simp add: node_size_def)
    ultimately have "stored env v (node_at s) m"
      using at dec m by (auto simp: stored_def)
    then show ?thesis using ro m Inr by simp
  qed (simp add: ro)
qed

lemma stored_unique: "stored env v N m \<Longrightarrow> stored env v N m' \<Longrightarrow> sn_id m = sn_id m' \<Longrightarrow> m = m'"
  by (auto simp: stored_def)

lemma get_entries_result:
  "get_entries env v es s = (r, s') \<Longrightarrow>
   node_at s' = node_at s \<and>
   (case r of Inl e \<Rightarrow> True
    | Inr ms \<Rightarrow> (\<forall>m\<in>set ms. stored env v (node_at s) m) \<and>
               sn_id ` set ms = {i. \<exists>e\<in>set es. snapshot_name e = Some i})"
proof (induction es arbitrary: s r s')
  case Nil
  then show ?case by auto
next
  case (Cons e es)
  show ?case
  proof (cases "snapshot_name e")
    case None
    then show ?thesis using Cons.IH [of s r s'] Cons.prems by (cases r) auto
  next
    case (Some i)
    obtain r1 s1 where 1: "vault_get env v i s = (r1, s1)" by fastforce
    note g = vault_get_result [OF 1]
    show ?thesis
    proof (cases r1)
      case (Inl x)
      then show ?thesis using Cons.prems Some 1 g by (auto simp: io_bind_def)
    next
      case (Inr m)
      obtain r2 s2 where 2: "get_entries env v es s1 = (r2, s2)" by fastforce
      note ih = Cons.IH [OF 2]
      show ?thesis
      proof (cases r2)
        case (Inl x)
        then show ?thesis using Cons.prems Some 1 g \<open>r1 = Inr m\<close> 2 ih by (auto simp: io_bind_def)
      next
        case ms: (Inr ms)
        then have r: "r = Inr (m # ms)" "s' = s2"
          using Cons.prems Some 1 Inr 2 by (simp_all add: io_bind_def)
        have "sn_id ` set (m # ms) = insert i (sn_id ` set ms)" using g Inr by simp
        also have "\<dots> = {j. \<exists>e'\<in>set (e # es). snapshot_name e' = Some j}"
          using ih ms Some by auto
        finally show ?thesis using r g Inr ih ms by auto
      qed
    qed
  qed
qed

lemma fs_read_dir_result:
  assumes "fs_read_dir d s = (r, s')"
  shows "node_at s' = node_at s"
    "r = Inr es \<Longrightarrow> node_at s p = Some n \<Longrightarrow> child_name d p = Some c \<Longrightarrow> (c, n) \<in> set es"
    "r = Inl e \<Longrightarrow> is_not_exist e \<Longrightarrow> node_at s d = None"
proof -
  show "node_at s' = node_at s" by (rule read_only_node_at [OF read_only_calls(5) assms])
  show "(c, n) \<in> set es" if "r = Inr es" "node_at s p = Some n" "child_name d p = Some c"
  proof -
    have "(p, n) \<in> set (tree s)" using that(2) by (simp add: node_at_def map_of_SomeD)
    then have "(c, n) \<in> set (List.map_filter (\<lambda>(p, n). map_option (\<lambda>c. (c, n)) (child_name d p)) (tree s))"
      using that(3) by (force simp: List.map_filter_def)
    then show ?thesis
      using assms that(1) unfolding fs_read_dir_def
      by (elim syscall_cases) (auto split: option.splits node.splits)
  qed
  show "node_at s d = None" if "r = Inl e" "is_not_exist e"
    using assms that unfolding fs_read_dir_def
    by (elim syscall_cases) (auto split: option.splits node.splits)
qed

lemma snapshot_name_Some:
  "snapshot_name e = Some i \<Longrightarrow> fst e = i @ ''.json'' \<and> snapshot_pattern i \<and> \<not> is_dir (snd e)"
  by (auto simp: snapshot_name_def Let_def trim_suffix_def has_suffix_iff split: if_splits)

lemma snapshot_name_json:
  "snapshot_pattern i \<Longrightarrow> \<not> is_dir n \<Longrightarrow> snapshot_name (i @ ''.json'', n) = Some i"
  by (auto simp: snapshot_name_def Let_def trim_suffix_def has_suffix_iff)

text \<open>A listing that succeeds is complete and correct.\<close>

lemma vault_list_result:
  assumes "vault_list env v s = (r, s')"
  shows "node_at s' = node_at s"
    "vault_ok v \<Longrightarrow> node_at s (snapshots_dir v) \<noteq> None \<Longrightarrow> r = Inr ms \<Longrightarrow>
     set ms = {m. stored env v (node_at s) m}"
    "r = Inr ms \<Longrightarrow> m \<in> set ms \<Longrightarrow> stored env v (node_at s) m"
proof -
  obtain d s1 where 1: "fs_read_dir (snapshots_dir v) s = (d, s1)" by fastforce
  note rd = fs_read_dir_result [OF 1]
  show "node_at s' = node_at s"
    using assms 1 rd(1) get_entries_result [of env v _ s1]
    by (auto simp: vault_list_def io_try_def io_bind_def split: sum.splits prod.splits if_splits)
  have sound: "\<exists>es ms0. d = Inr es \<and> get_entries env v es s1 = (Inr ms0, s') \<and> set ms = set ms0"
    if "r = Inr ms" "ms \<noteq> [] \<or> node_at s (snapshots_dir v) \<noteq> None"
  proof (cases d)
    case (Inl e)
    then show ?thesis
      using assms 1 that rd(3) by (auto simp: vault_list_def io_try_def split: if_splits)
  next
    case (Inr es)
    then show ?thesis
      using assms 1 that
      by (auto simp: vault_list_def io_try_def io_bind_def split: prod.splits sum.splits)
  qed
  show "stored env v (node_at s) m" if r: "r = Inr ms" and m: "m \<in> set ms"
  proof -
    obtain es ms0 where "get_entries env v es s1 = (Inr ms0, s')" "set ms = set ms0"
      using sound [OF r] list.set_cases [OF m] by blast
    then show ?thesis using get_entries_result m rd(1) by fastforce
  qed
  assume ok: "vault_ok v" and ex: "node_at s (snapshots_dir v) \<noteq> None" and r: "r = Inr ms"
  obtain es ms0 where es: "d = Inr es" and g: "get_entries env v es s1 = (Inr ms0, s')" and ms: "set ms = set ms0"
    using sound [OF r] ex by auto
  note ge = get_entries_result [OF g]
  have st: "\<forall>m\<in>set ms. stored env v (node_at s) m" using ge ms rd(1) by simp
  moreover have "m \<in> set ms" if m: "stored env v (node_at s) m" for m
  proof -
    let ?i = "sn_id m"
    have i: "snapshot_pattern ?i" using m by (simp add: stored_def)
    obtain k c where at: "node_at s (manifest_path v ?i) = Some (Regular k c)"
      using m by (auto simp: stored_def)
    have "plain_elem (?i @ ''.json'')" by (rule snapshot_plain [OF i])
    then have "child_name (snapshots_dir v) (manifest_path v ?i) = Some (?i @ ''.json'')"
      using vault_dirs(4) [OF ok] child_name_join [of "snapshots_dir v" "?i @ ''.json''"]
      by (simp add: manifest_path_eq [OF ok i] target_ok_def plain_elem_def)
    then have "(?i @ ''.json'', Regular k c) \<in> set es" using rd(2) [OF es at] by blast
    moreover have "snapshot_name (?i @ ''.json'', Regular k c) = Some ?i"
      by (rule snapshot_name_json [OF i]) (simp add: is_dir_def)
    ultimately have "?i \<in> sn_id ` set ms" using ge ms by auto
    then obtain m' where "m' \<in> set ms" "sn_id m' = ?i" by auto
    then show ?thesis using stored_unique [OF m, of m'] st by auto
  qed
  ultimately show "set ms = {m. stored env v (node_at s) m}" by auto
qed

subsection \<open>Garbage collection\<close>

text \<open>The object checksums that some stored snapshot refers to.\<close>

definition live :: "vault_env \<Rightarrow> vault \<Rightarrow> (string \<Rightarrow> node option) \<Rightarrow> string \<Rightarrow> bool" where
  "live env v N h \<longleftrightarrow> (\<exists>m a. stored env v N m \<and> a \<in> set (sn_artifacts m) \<and> ar_sha a = h) \<and> sha_pattern h"

lemma set_referenced: "set (referenced ms) = {h. sha_pattern h \<and> (\<exists>m\<in>set ms. h \<in> ar_sha ` set (sn_artifacts m))}"
  by (auto simp: referenced_def)

lemma collect_entries_result:
  "collect_entries v refs es s = (r, s') \<Longrightarrow>
   (\<forall>p. node_at s' p = node_at s p \<or>
      (\<exists>h. p = object_path v h \<and> sha_pattern h \<and> h \<notin> set refs \<and> node_at s' p = None)) \<and>
   (is_ok r \<longrightarrow> (\<forall>(h, n) \<in> set es. sha_pattern h \<and> \<not> is_dir n \<and> h \<notin> set refs \<longrightarrow>
      (\<forall>k c. node_at s' (object_path v h) \<noteq> Some (Regular k c))))"
proof (induction es arbitrary: s)
  case Nil
  then show ?case by auto
next
  case (Cons e es)
  obtain h n where e: "e = (h, n)" by (cases e)
  show ?case
  proof (cases "is_dir n \<or> \<not> sha_pattern h \<or> h \<in> set refs")
    case True
    then have "collect_entries v refs es s = (r, s')" using Cons.prems e by (auto split: if_splits)
    then show ?thesis using Cons.IH True e by auto
  next
    case False
    obtain res s1 where 1: "fs_lstat (object_path v h) s = (res, s1)" by fastforce
    note l = fs_lstat_result [OF 1]
    show ?thesis
    proof (cases res)
      case (Inl x)
      then show ?thesis using Cons.prems e False 1 l by (auto simp: io_bind_def)
    next
      case (Inr info)
      show ?thesis
      proof (cases "is_regular info")
        case irregular: False
        then have rest: "collect_entries v refs es s1 = (r, s')"
          using Cons.prems e False 1 Inr by (auto simp: io_bind_def)
        have "\<forall>k c. node_at s1 (object_path v h) \<noteq> Some (Regular k c)"
          using l Inr irregular by (auto simp: is_regular_def)
        moreover note ih = Cons.IH [OF rest]
        ultimately have no: "\<forall>k c. node_at s' (object_path v h) \<noteq> Some (Regular k c)"
          by (metis option.distinct(1))
        have "node_at s1 = node_at s" using l by simp
        then show ?thesis using ih no e by simp
      next
        case True
        obtain rm s2 where 2: "fs_remove (object_path v h) s1 = (rm, s2)" by fastforce
        have at: "node_at s1 (object_path v h) = Some info" "\<not> is_dir info"
          using l Inr True by (auto simp: is_regular_def is_dir_def split: node.splits)
        note rmr = fs_remove_file_result [OF 2 at]
        show ?thesis
        proof (cases rm)
          case (Inl x)
          then show ?thesis using Cons.prems e False 1 2 \<open>res = Inr info\<close> True l rmr
            by (auto simp: io_bind_def)
        next
          case gone: (Inr u)
          then have rest: "collect_entries v refs es s2 = (r, s')"
            using Cons.prems e False 1 2 \<open>res = Inr info\<close> True by (auto simp: io_bind_def)
          have s2: "node_at s2 = (node_at s)(object_path v h := None)" using rmr gone l by simp
          note ih = Cons.IH [OF rest]
          have none: "node_at s' (object_path v h) = None"
            using ih s2 by (metis fun_upd_same)
          have "node_at s' p = node_at s p \<or>
            (\<exists>h. p = object_path v h \<and> sha_pattern h \<and> h \<notin> set refs \<and> node_at s' p = None)" for p
          proof (cases "p = object_path v h")
            case True
            then show ?thesis using none False by blast
          next
            case p: False
            then have "node_at s2 p = node_at s p" using s2 by simp
            then show ?thesis using ih by metis
          qed
          then show ?thesis using ih none e by auto
        qed
      qed
    qed
  qed
qed

text \<open>
  Collection removes only objects no stored snapshot refers to, and after a success every regular
  object left is referred to.
\<close>

lemma gc_objects_result:
  assumes "vault_ok v" and "gc_objects env v s = (r, s')" and "node_at s (snapshots_dir v) \<noteq> None"
  shows "node_at s' p = node_at s p \<or>
      (\<exists>h. p = object_path v h \<and> sha_pattern h \<and> \<not> live env v (node_at s) h \<and> node_at s' p = None)"
    "r = Inr () \<Longrightarrow> node_at s (objects_dir v) \<noteq> None \<Longrightarrow> sha_pattern h \<Longrightarrow>
      node_at s' (object_path v h) = Some (Regular k c) \<Longrightarrow> live env v (node_at s) h"
proof -
  obtain l s1 where 1: "vault_list env v s = (l, s1)" by fastforce
  note ls = vault_list_result [OF 1]
  have "(node_at s' p = node_at s p \<or>
      (\<exists>h. p = object_path v h \<and> sha_pattern h \<and> \<not> live env v (node_at s) h \<and> node_at s' p = None)) \<and>
    (r = Inr () \<and> node_at s (objects_dir v) \<noteq> None \<and> sha_pattern h \<and>
      node_at s' (object_path v h) = Some (Regular k c) \<longrightarrow> live env v (node_at s) h)" for p h k c
  proof (cases l)
    case (Inl e)
    then show ?thesis using assms(2) 1 ls(1) by (auto simp: gc_objects_def io_bind_def)
  next
    case (Inr ms)
    have ms: "set ms = {m. stored env v (node_at s) m}" by (rule ls(2) [OF assms(1,3) Inr])
    have refs: "x \<in> set (referenced ms) \<longleftrightarrow> live env v (node_at s) x" for x
      by (auto simp: set_referenced ms live_def image_iff)
    obtain d s2 where 2: "fs_read_dir (objects_dir v) s1 = (d, s2)" by fastforce
    note rd = fs_read_dir_result [OF 2]
    show ?thesis
    proof (cases d)
      case (Inl e)
      then show ?thesis
        using assms(2) 1 2 \<open>l = Inr ms\<close> ls(1) rd by (auto simp: gc_objects_def io_bind_def io_try_def split: if_splits)
    next
      case es: (Inr es)
      then have col: "collect_entries v (referenced ms) es s2 = (r, s')"
        using assms(2) 1 2 Inr by (simp add: gc_objects_def io_bind_def io_try_def)
      note c = collect_entries_result [OF col]
      have s2: "node_at s2 = node_at s" using rd(1) ls(1) by simp
      have one: "node_at s' p = node_at s p \<or>
        (\<exists>h. p = object_path v h \<and> sha_pattern h \<and> \<not> live env v (node_at s) h \<and> node_at s' p = None)" for p
        using c s2 refs by metis
      moreover have "live env v (node_at s) h"
        if r: "r = Inr ()" and sha: "sha_pattern h" and at: "node_at s' (object_path v h) = Some (Regular k c)"
      proof (rule ccontr)
        assume dead: "\<not> live env v (node_at s) h"
        have "node_at s (object_path v h) = Some (Regular k c)"
          using one [of "object_path v h"] at by auto
        then have "node_at s1 (object_path v h) = Some (Regular k c)" using ls(1) by simp
        moreover have "child_name (objects_dir v) (object_path v h) = Some h"
          using vault_dirs(2) [OF assms(1)] child_name_join [of "objects_dir v" h] sha_plain [OF sha]
          by (simp add: object_path_eq(1) [OF assms(1) sha] target_ok_def plain_elem_def)
        ultimately have "(h, Regular k c) \<in> set es" using rd(2) [OF es] by blast
        then have "node_at s' (object_path v h) \<noteq> Some (Regular k c)"
          using c r sha dead refs by (fastforce simp: is_dir_def)
        then show False using at by simp
      qed
      ultimately show ?thesis by blast
    qed
  qed
  then show "node_at s' p = node_at s p \<or>
      (\<exists>h. p = object_path v h \<and> sha_pattern h \<and> \<not> live env v (node_at s) h \<and> node_at s' p = None)"
    "r = Inr () \<Longrightarrow> node_at s (objects_dir v) \<noteq> None \<Longrightarrow> sha_pattern h \<Longrightarrow>
      node_at s' (object_path v h) = Some (Regular k c) \<Longrightarrow> live env v (node_at s) h"
    by blast+
qed

subsection \<open>Retention\<close>

text \<open>The snapshots retention must not delete: the one being captured and the last working one.\<close>

definition guarded :: "vault_env \<Rightarrow> vault \<Rightarrow> string \<Rightarrow> (string \<Rightarrow> node option) \<Rightarrow> string \<Rightarrow> bool" where
  "guarded env v preserve N i \<longleftrightarrow>
     i = preserve \<or>
     (\<exists>k c st. N (state_path v) = Some (Regular k c) \<and> ve_dec_state env c = Inr st \<and> vs_last_working st = i)"

text \<open>What a turn may remove: objects no guarded snapshot refers to, and other manifests.\<close>

definition removable :: "vault_env \<Rightarrow> vault \<Rightarrow> string \<Rightarrow> (string \<Rightarrow> node option) \<Rightarrow> string \<Rightarrow> bool" where
  "removable env v preserve N p \<longleftrightarrow>
     (\<exists>h. p = object_path v h \<and> sha_pattern h \<and>
        (\<forall>m a. stored env v N m \<and> guarded env v preserve N (sn_id m) \<and> a \<in> set (sn_artifacts m) \<longrightarrow> ar_sha a \<noteq> h)) \<or>
     (\<exists>i. p = manifest_path v i \<and> snapshot_pattern i \<and> \<not> guarded env v preserve N i)"

definition retains :: "vault_env \<Rightarrow> vault \<Rightarrow> string \<Rightarrow> os \<Rightarrow> os \<Rightarrow> bool" where
  "retains env v preserve s s' \<longleftrightarrow>
     (\<forall>p. node_at s' p = node_at s p \<or> (node_at s' p = None \<and> removable env v preserve (node_at s) p))"

lemma retains_eq: "node_at s' = node_at s \<Longrightarrow> retains env v preserve s s'"
  by (simp add: retains_def)

lemma not_removable_dirs:
  assumes "vault_ok v"
  shows "\<not> removable env v preserve N (state_path v)" "\<not> removable env v preserve N (snapshots_dir v)"
  using assms vault_paths_distinct [OF assms]
  by (auto simp: removable_def object_path_eq manifest_path_eq vault_dirs slash_def)

lemma retains_dirs:
  assumes "vault_ok v" and "retains env v preserve s s'"
  shows "node_at s' (state_path v) = node_at s (state_path v)"
    "node_at s' (snapshots_dir v) = node_at s (snapshots_dir v)"
  using assms not_removable_dirs [OF assms(1)] unfolding retains_def by metis+

lemma retains_guarded:
  assumes "vault_ok v" and "retains env v preserve s s'"
  shows "guarded env v preserve (node_at s') = guarded env v preserve (node_at s)"
  using retains_dirs(1) [OF assms] by (auto simp: guarded_def fun_eq_iff)

lemma retains_manifest:
  assumes "vault_ok v" and "retains env v preserve s s'" and "snapshot_pattern i"
    and "guarded env v preserve (node_at s) i"
  shows "node_at s' (manifest_path v i) = node_at s (manifest_path v i)"
proof -
  have "\<not> removable env v preserve (node_at s) (manifest_path v i)"
    using assms vault_paths_distinct [OF assms(1)] by (auto simp: removable_def) metis+
  then show ?thesis using assms(2) unfolding retains_def by metis
qed

lemma retains_stored:
  assumes "vault_ok v" and "retains env v preserve s s'" and "stored env v (node_at s) m"
    and "guarded env v preserve (node_at s) (sn_id m)"
  shows "stored env v (node_at s') m"
  using retains_manifest [OF assms(1,2) _ assms(4)] assms(3) by (auto simp: stored_def)

lemma retains_object:
  assumes "vault_ok v" and "retains env v preserve s s'" and "stored env v (node_at s) m"
    and "guarded env v preserve (node_at s) (sn_id m)" and "a \<in> set (sn_artifacts m)" and "sha_pattern (ar_sha a)"
  shows "node_at s' (object_path v (ar_sha a)) = node_at s (object_path v (ar_sha a))"
proof -
  have "\<not> removable env v preserve (node_at s) (object_path v (ar_sha a))"
    using assms vault_paths_distinct [OF assms(1)] by (auto simp: removable_def)
  then show ?thesis using assms(2) unfolding retains_def by metis
qed

lemma retains_trans:
  assumes "vault_ok v" and "retains env v preserve s t" and "retains env v preserve t u"
  shows "retains env v preserve s u"
proof -
  have "removable env v preserve (node_at s) p" if "removable env v preserve (node_at t) p" for p
    using that retains_guarded [OF assms(1,2)] retains_stored [OF assms(1,2)]
    unfolding removable_def by metis
  then show ?thesis
    using assms(2,3) unfolding retains_def by metis
qed

lemma gc_retains:
  assumes "vault_ok v" and "gc_objects env v s = (r, s')" and "node_at s (snapshots_dir v) \<noteq> None"
  shows "retains env v preserve s s'"
  unfolding retains_def removable_def
  using gc_objects_result(1) [OF assms] by (metis live_def)

lemma vault_get_state_result:
  assumes "vault_get_state env v s = (r, s')"
  shows "node_at s' = node_at s"
    "r = Inr st \<Longrightarrow> node_at s (state_path v) = Some (Regular k c) \<Longrightarrow> ve_dec_state env c = Inr st' \<Longrightarrow> st' = st"
proof -
  have "touches {} (vault_get_state env v)" unfolding vault_get_state_def by (intro frame)
  from touchesD [OF this assms] show "node_at s' = node_at s" by (auto simp: same_except_def)
  show "st' = st" if r: "r = Inr st" and at: "node_at s (state_path v) = Some (Regular k c)"
     and dec': "ve_dec_state env c = Inr st'"
  proof -
    obtain res s1 where 1: "fs_lstat (state_path v) s = (res, s1)" by fastforce
    note l = fs_lstat_result [OF 1]
    have "res \<noteq> Inl ErrNotExist" using l at by auto
    then obtain n where res: "res = Inr n"
      using assms r 1 l by (auto simp: vault_get_state_def io_try_def split: sum.splits if_splits)
    then obtain payload where 2: "fs_read_file (state_path v) s1 = (Inr payload, s')"
        and dec: "ve_dec_state env payload = Inr st"
      using assms r 1
      by (auto simp: vault_get_state_def io_try_def io_bind_def split: sum.splits if_splits prod.splits)
    have "payload = c" using fs_read_file_result [OF 2] l at by simp
    then show ?thesis using dec dec' by simp
  qed
qed

lemma find_victim_result:
  assumes "find_victim preserve lw ms \<noteq> []"
  obtains m where "m \<in> set ms" "sn_id m = find_victim preserve lw ms"
    "sn_id m \<noteq> preserve" "sn_id m \<noteq> lw"
  using assms by (auto simp: find_victim_def find_Some_iff split: option.splits) (metis nth_mem set_rev length_rev)

lemma store_bytes_result:
  "store_bytes v s = (r, s') \<Longrightarrow>
   node_at s' = node_at s \<and> (r = Inr n \<longrightarrow> node_at s (v_root v) \<noteq> None \<longrightarrow> n = tree_size (v_root v) s \<and> tree s' = tree s)"
  unfolding store_bytes_def
  by (erule syscall_cases) (auto simp: tree_size_def)

lemma prune_round_retains:
  assumes ok: "vault_ok v" and run: "prune_round env v preserve s = (r, s')"
    and ex: "node_at s (snapshots_dir v) \<noteq> None"
  shows "retains env v preserve s s'"
proof -
  obtain l s1 where 1: "vault_list env v s = (l, s1)" by fastforce
  obtain n s2 where 2: "store_bytes v s1 = (n, s2)" by fastforce
  have same: "node_at s1 = node_at s" "node_at s2 = node_at s"
    using vault_list_result(1) [OF 1] store_bytes_result [OF 2] by simp_all
  show ?thesis
  proof (cases "(\<exists>ms. l = Inr ms) \<and> (\<exists>u. n = Inr u)")
    case False
    then have "s' = s1 \<or> s' = s2"
      using run 1 2 by (cases l; cases n) (auto simp: prune_round_def io_bind_def)
    then show ?thesis using same retains_eq by metis
  next
    case True
    then obtain ms u where ms: "l = Inr ms" and u: "n = Inr u" by blast
    obtain st s3 where 3: "vault_get_state env v s2 = (st, s3)" by fastforce
    note sr = vault_get_state_result [OF 3]
    obtain g s2' where g: "gc_objects env v s2 = (g, s2')" by fastforce
    show ?thesis
    proof (cases "int (length ms) \<le> v_max_snapshots v \<and> u \<le> v_max_store v")
      case True
      then have "s' = s2'"
        using run 1 2 ms u g by (auto simp: prune_round_def io_bind_def split: sum.splits)
      moreover have "retains env v preserve s2 s2'" by (rule gc_retains [OF ok g]) (use ex same in simp)
      ultimately show ?thesis using same by (simp add: retains_def)
    next
      case over: False
      show ?thesis
      proof (cases "\<exists>w. st = Inr w \<and> find_victim preserve (vs_last_working w) ms \<noteq> []")
        case False
        then have "s' = s3"
          using run 1 2 3 ms u over by (auto simp: prune_round_def io_bind_def Let_def split: sum.splits)
        then show ?thesis using same sr(1) by (simp add: retains_eq)
      next
        case True
        then obtain w where w: "st = Inr w" and vic: "find_victim preserve (vs_last_working w) ms \<noteq> []" by blast
        let ?i = "find_victim preserve (vs_last_working w) ms"
        obtain m where m: "m \<in> set ms" "sn_id m = ?i" "?i \<noteq> preserve" "?i \<noteq> vs_last_working w"
          using find_victim_result [OF vic] by metis
        have stm: "stored env v (node_at s) m" by (rule vault_list_result(3) [OF 1 ms m(1)])
        then have sp: "snapshot_pattern ?i" using m(2) by (metis stored_def)
        obtain k c where at: "node_at s (manifest_path v ?i) = Some (Regular k c)"
          using stm m(2) by (auto simp: stored_def)
        obtain rr s4 where 4: "fs_remove (manifest_path v ?i) s3 = (rr, s4)" by fastforce
        have s3: "node_at s3 = node_at s" using sr(1) same by simp
        have rm: "case rr of Inl e \<Rightarrow> node_at s4 = node_at s3
             | Inr _ \<Rightarrow> node_at s4 = (node_at s3)(manifest_path v ?i := None)"
          by (rule fs_remove_file_result [OF 4, of "Regular k c"]) (use at s3 in \<open>auto simp: is_dir_def\<close>)
        have unguarded: "\<not> guarded env v preserve (node_at s) ?i"
          using m(3,4) sr(2) [OF w] same unfolding guarded_def by metis
        have r4: "retains env v preserve s s4"
          using rm s3 sp unguarded by (auto simp: retains_def removable_def split: sum.splits)
        show ?thesis
        proof (cases rr)
          case (Inl e)
          then have "s' = s4"
            using run 1 2 3 4 ms u over w vic by (auto simp: prune_round_def io_bind_def Let_def)
          then show ?thesis using r4 by simp
        next
          case (Inr x)
          obtain g5 s5 where 5: "gc_objects env v s4 = (g5, s5)" by fastforce
          have "s' = s5"
            using run 1 2 3 4 5 ms u over w vic Inr
            by (auto simp: prune_round_def io_bind_def Let_def split: sum.splits)
          moreover have "retains env v preserve s4 s5"
            by (rule gc_retains [OF ok 5]) (use retains_dirs(2) [OF ok r4] ex in simp)
          ultimately show ?thesis using retains_trans [OF ok r4] by simp
        qed
      qed
    qed
  qed
qed

lemma prune_retains:
  assumes ok: "vault_ok v"
  shows "prune env v preserve s = (r, s') \<Longrightarrow> node_at s (snapshots_dir v) \<noteq> None \<Longrightarrow>
    retains env v preserve s s'"
proof (induction "length (tree s)" arbitrary: s rule: less_induct)
  case less
  obtain pr s1 where 1: "prune_round env v preserve s = (pr, s1)" by fastforce
  have r1: "retains env v preserve s s1" by (rule prune_round_retains [OF ok 1 less.prems(2)])
  show ?case
  proof (cases "pr = Inr False")
    case False
    then have "s' = s1"
      using less.prems(1) 1 by (subst (asm) prune.simps) (auto split: sum.splits if_splits)
    then show ?thesis using r1 by simp
  next
    case True
    have "prune env v preserve s1 = (r, s')"
      using less.prems(1) 1 True by (subst (asm) prune.simps) simp
    moreover have "length (tree s1) < length (tree s)" using prune_round_less 1 True by simp
    moreover have "node_at s1 (snapshots_dir v) \<noteq> None" using retains_dirs(2) [OF ok r1] less.prems(2) by simp
    ultimately have "retains env v preserve s1 s'" using less.hyps by blast
    then show ?thesis by (rule retains_trans [OF ok r1])
  qed
qed

lemma tree_size_subseq: "subseq t u \<Longrightarrow>
   sum_list (map (\<lambda>(p, n). if p = d \<or> under d p then int (node_size n) else 0) t)
   \<le> sum_list (map (\<lambda>(p, n). if p = d \<or> under d p then int (node_size n) else 0) u)"
  by (induction t u rule: list_emb.induct) (auto intro!: sum_list_nonneg)

lemma prune_bounds:
  assumes ok: "vault_ok v"
  shows "prune env v preserve s = (Inr (), s') \<Longrightarrow> node_at s (snapshots_dir v) \<noteq> None \<Longrightarrow> node_at s (v_root v) \<noteq> None \<Longrightarrow>
    int (card {m. stored env v (node_at s') m}) \<le> v_max_snapshots v \<and> tree_size (v_root v) s' \<le> v_max_store v"
proof (induction "length (tree s)" arbitrary: s rule: less_induct)
  case less
  obtain pr s1 where 1: "prune_round env v preserve s = (pr, s1)" by fastforce
  have r1: "retains env v preserve s s1" by (rule prune_round_retains [OF ok 1 less.prems(2)])
  have pr: "pr = Inr True \<and> s' = s1 \<or> pr = Inr False \<and> prune env v preserve s1 = (Inr (), s')"
    using less.prems(1) 1 by (subst (asm) prune.simps) (auto split: sum.splits if_splits)
  have root: "node_at s1 (v_root v) \<noteq> None"
  proof -
    have "\<not> removable env v preserve (node_at s) (v_root v)"
      using ok by (auto simp: removable_def object_path_eq manifest_path_eq vault_dirs)
    then show ?thesis using r1 less.prems(3) unfolding retains_def by metis
  qed
  show ?case
  proof (cases "pr = Inr False")
    case True
    then show ?thesis
      using less.hyps [of s1] prune_round_less 1 pr root retains_dirs(2) [OF ok r1] less.prems(2) by auto
  next
    case False
    then have s': "s' = s1" and "pr = Inr True" using pr by auto
    then obtain ms sa n sb where a: "vault_list env v s = (Inr ms, sa)" and b: "store_bytes v sa = (Inr n, sb)"
        and le: "int (length ms) \<le> v_max_snapshots v" "n \<le> v_max_store v"
        and g: "gc_objects env v sb = (Inr (), s')"
      using 1 by (auto simp: prune_round_def io_bind_def Let_def split: prod.splits sum.splits if_splits)
    note sa = vault_list_result [OF a]
    note sb = store_bytes_result [OF b]
    have nb: "node_at sb = node_at s" using sa(1) sb by simp
    have ms: "set ms = {m. stored env v (node_at s) m}" by (rule sa(2) [OF ok less.prems(2) refl])
    have "node_at s' (manifest_path v i) = node_at s (manifest_path v i)" if "snapshot_pattern i" for i
    proof -
      have "node_at sb (snapshots_dir v) \<noteq> None" using nb less.prems(2) by simp
      from gc_objects_result(1) [OF ok g this, of "manifest_path v i"] show ?thesis
        using vault_paths_distinct(1) [OF ok _ that] nb by metis
    qed
    then have "{m. stored env v (node_at s') m} = set ms"
      unfolding ms by (auto simp: stored_def)
    then have card: "int (card {m. stored env v (node_at s') m}) \<le> v_max_snapshots v"
      using le(1) card_length [of ms] by simp
    have "n = tree_size (v_root v) sb"
      using sb sa(1) less.prems(3) by (auto simp: tree_size_def)
    moreover have "subseq (tree s') (tree sb)" by (rule shrinks_subseq [OF shrinks_gc g])
    ultimately have "tree_size (v_root v) s' \<le> n"
      unfolding tree_size_def using tree_size_subseq by blast
    then show ?thesis using card le(2) by simp
  qed
qed

text \<open>C4: retention always ends (\<open>prune\<close> is total), and whatever happens on the way, faults
  included, it never deletes the manifest of the snapshot being captured or of the one marked last
  working, nor any object such a snapshot refers to; when it reports success the store holds at
  most the configured number of snapshots and bytes.\<close>

theorem prune_protects_and_bounds:
  assumes "vault_ok v" and "prune env v preserve s = (r, s')"
    and "node_at s (snapshots_dir v) \<noteq> None" and "node_at s (v_root v) \<noteq> None"
  shows "(\<forall>m. stored env v (node_at s) m \<and> guarded env v preserve (node_at s) (sn_id m) \<longrightarrow>
        stored env v (node_at s') m \<and>
        (\<forall>a\<in>set (sn_artifacts m). sha_pattern (ar_sha a) \<longrightarrow>
           node_at s' (object_path v (ar_sha a)) = node_at s (object_path v (ar_sha a)))) \<and>
     (r = Inr () \<longrightarrow> int (card {m. stored env v (node_at s') m}) \<le> v_max_snapshots v \<and>
        tree_size (v_root v) s' \<le> v_max_store v)"
proof -
  note kept = prune_retains [OF assms(1-3)]
  show ?thesis
    using retains_stored [OF assms(1) kept] retains_object [OF assms(1) kept]
      prune_bounds [OF assms(1) _ assms(3,4)] assms(2) by blast
qed

text \<open>C6: garbage collection deletes only objects to which no stored snapshot refers, and after a
  success every regular object left in the store is one some stored snapshot refers to.\<close>

theorem gc_deletes_exactly_the_dead:
  assumes "vault_ok v" and "gc_objects env v s = (r, s')"
    and "node_at s (snapshots_dir v) \<noteq> None" and "node_at s (objects_dir v) \<noteq> None"
  shows "(live env v (node_at s) h \<longrightarrow> node_at s' (object_path v h) = node_at s (object_path v h)) \<and>
    (r = Inr () \<and> sha_pattern h \<and> \<not> live env v (node_at s) h \<longrightarrow>
       (\<forall>k c. node_at s' (object_path v h) \<noteq> Some (Regular k c)))"
proof -
  have "node_at s' (object_path v h) = node_at s (object_path v h)" if l: "live env v (node_at s) h"
  proof -
    have "sha_pattern h" using l by (simp add: live_def)
    then show ?thesis
      using gc_objects_result(1) [OF assms(1-3), of "object_path v h"] l
        vault_paths_distinct(5) [OF assms(1)] by metis
  qed
  then show ?thesis
    using gc_objects_result(2) [OF assms(1-3) _ assms(4)] by blast
qed

text \<open>C7: a restore reads only verified bytes: what \<^verbatim>\<open>ReadArtifact\<close> returns has the recorded
  length and checksum, and the record is one of a stored snapshot with the requested ids.\<close>

theorem read_artifact_verified:
  "vault_read_artifact env v sid aid s = (Inr (a, c), s') \<Longrightarrow>
   ve_digest env c = ar_sha a \<and> int (length c) = ar_size a \<and> ar_size a \<le> v_max_artifact v \<and>
   ar_id a = aid \<and> node_at s' = node_at s \<and>
   (\<exists>m. stored env v (node_at s) m \<and> sn_id m = sid \<and> a \<in> set (sn_artifacts m))"
proof -
  assume run: "vault_read_artifact env v sid aid s = (Inr (a, c), s')"
  have "touches {} (vault_read_artifact env v sid aid)"
    unfolding vault_read_artifact_def vault_get_def Let_def by (intro frame)
  from touchesD [OF this run] have same: "node_at s' = node_at s" by (auto simp: same_except_def)
  obtain m s1 where 1: "vault_get env v sid s = (Inr m, s1)" and find: "find_artifact aid (sn_artifacts m) = Some a"
    and c: "ve_digest env c = ar_sha a" "int (length c) = ar_size a" "ar_size a \<le> v_max_artifact v"
    using run by (auto simp: vault_read_artifact_def io_bind_def Let_def
        split: prod.splits sum.splits option.splits if_splits)
  have "ar_id a = aid" "a \<in> set (sn_artifacts m)"
    using find by (auto simp: find_artifact_def find_Some_iff)
  then show ?thesis using vault_get_result [OF 1] c same by auto
qed

subsection \<open>What a successful capture has stored\<close>

definition extends :: "os \<Rightarrow> os \<Rightarrow> bool" where
  "extends s s' \<longleftrightarrow> (\<forall>p. node_at s p \<noteq> None \<longrightarrow> node_at s' p = node_at s p)"

lemma extends_refl: "node_at s' = node_at s \<Longrightarrow> extends s s'"
  by (simp add: extends_def)

lemma extends_trans: "extends s t \<Longrightarrow> extends t u \<Longrightarrow> extends s u"
  by (simp add: extends_def)

definition object_ok :: "vault_env \<Rightarrow> vault \<Rightarrow> os \<Rightarrow> string \<Rightarrow> bool" where
  "object_ok env v s h \<longleftrightarrow> sha_pattern h \<and>
     (\<exists>k c. node_at s (object_path v h) = Some (Regular k c) \<and> ve_digest env c = h)"

lemma object_ok_extends: "object_ok env v s h \<Longrightarrow> extends s s' \<Longrightarrow> object_ok env v s' h"
  by (fastforce simp: object_ok_def extends_def)

lemma ensure_object_result:
  assumes "vault_ok v" and "ensure_object env v (ve_digest env content) content s = (Inr (), s')"
  shows "extends s s' \<and> object_ok env v s' (ve_digest env content)"
proof -
  let ?h = "ve_digest env content"
  have sha: "sha_pattern ?h" using assms(2) by (auto simp: ensure_object_def split: if_splits)
  obtain res s1 where 1: "fs_lstat (object_path v ?h) s = (res, s1)" by fastforce
  note l = fs_lstat_result [OF 1]
  show ?thesis
  proof (cases res)
    case (Inr n)
    then obtain c where 2: "fs_read_file (object_path v ?h) s1 = (Inr c, s')" "ve_digest env c = ?h"
        and reg: "is_regular n"
      using assms(2) 1 sha by (auto simp: ensure_object_def io_try_def io_bind_def split: if_splits prod.splits sum.splits)
    obtain k d where n: "n = Regular k d" using reg by (auto simp: is_regular_def split: node.splits)
    have at: "node_at s1 (object_path v ?h) = Some (Regular k d)" using l Inr n by simp
    have "c = d" by (rule fs_read_file_result [OF 2(1) at])
    moreover have "node_at s' = node_at s" using read_only_node_at [OF read_only_calls(3) 2(1)] l by simp
    ultimately show ?thesis using sha 2(2) at l by (auto simp: object_ok_def extends_def)
  next
    case (Inl e)
    then have w: "write_file_atomic (object_path v ?h) content 384 s1 = (Inr (), s')"
        and none: "node_at s (object_path v ?h) = None"
      using assms(2) 1 sha l by (auto simp: ensure_object_def io_try_def split: if_splits)
    have s1: "node_at s1 = node_at s" using l by simp
    have "node_at s' (object_path v ?h) = Some (Regular 384 content)"
      by (rule wfa.published [OF object_path_eq(2) [OF assms(1) sha] w])
    moreover have "node_at s' p = node_at s1 p" if ex: "node_at s1 p \<noteq> None" for p
    proof (rule wfa.elsewhere [OF object_path_eq(2) [OF assms(1) sha] w _ ex])
      show "p \<noteq> object_path v ?h" using ex none s1 by auto
    qed
    ultimately show ?thesis using s1 sha by (auto simp: object_ok_def extends_def)
  qed
qed

definition sizes :: "artifact list \<Rightarrow> int" where
  "sizes as = sum_list (map ar_size as)"

lemma read_artifact_result:
  assumes "read_artifact env v spec s = (r, s')"
  shows "node_at s' = node_at s"
    "r = Inr (a, c) \<Longrightarrow> ar_id a = as_id spec \<and> ar_sha a = ve_digest env c \<and> ar_size a = int (length c) \<and>
       vault_allowed v (ar_source a) \<and> ar_size a \<le> v_max_artifact v \<and>
       (\<exists>k. node_at s (ar_source a) = Some (Regular k c))"
proof -
  have "touches {} (read_artifact env v spec)"
    unfolding read_artifact_def Let_def by (intro frame)
  from touchesD [OF this assms] show "node_at s' = node_at s" by (auto simp: same_except_def)
  show "ar_id a = as_id spec \<and> ar_sha a = ve_digest env c \<and> ar_size a = int (length c) \<and>
       vault_allowed v (ar_source a) \<and> ar_size a \<le> v_max_artifact v \<and>
       (\<exists>k. node_at s (ar_source a) = Some (Regular k c))" if r: "r = Inr (a, c)"
  proof -
    let ?p = "clean (trim_space (as_path spec))"
    obtain q s1 n s2 whole where 1: "fs_eval_symlinks ?p s = (Inr q, s1)" and 2: "fs_lstat ?p s1 = (Inr n, s2)"
      and 3: "fs_read_file ?p s2 = (Inr whole, s')"
      and n: "is_regular n" "int (node_size n) \<le> v_max_artifact v"
      and c: "c = take (nat (v_max_artifact v + 1)) whole" "int (length c) \<le> v_max_artifact v"
      and a: "vault_allowed v ?p" "a = \<lparr>ar_id = as_id spec, ar_source = ?p, ar_sha = ve_digest env c,
                             ar_size = int (length c), ar_mode = node_perm n,
                             ar_modified = ve_mtime env ?p\<rparr>"
      using assms r unfolding read_artifact_def
      by (auto simp: io_bind_def Let_def split: if_splits prod.splits sum.splits)
    obtain k d where k: "n = Regular k d" using n(1) by (auto simp: is_regular_def split: node.splits)
    have at: "node_at s2 ?p = Some (Regular k d)" "node_at s ?p = Some (Regular k d)"
      using fs_lstat_result [OF 2] read_only_node_at [OF read_only_calls(4) 1] k by auto
    have "whole = d" by (rule fs_read_file_result [OF 3 at(1)])
    moreover have "int (length d) \<le> v_max_artifact v" using n(2) k by (simp add: node_size_def)
    ultimately show ?thesis using c a at by auto
  qed
qed

lemma capture_loop_result:
  assumes ok: "vault_ok v"
  shows "capture_loop env v specs seen recs acc s = (Inr (out, acc'), s') \<Longrightarrow> acc \<le> v_max_snapshot v \<Longrightarrow>
    \<exists>new. out = recs @ new \<and> acc' = acc + sizes new \<and> acc' \<le> v_max_snapshot v \<and>
      map ar_id new = map as_id specs \<and> distinct (map ar_id new) \<and> set (map ar_id new) \<inter> set seen = {} \<and>
      (\<forall>a\<in>set new. object_ok env v s' (ar_sha a) \<and> vault_allowed v (ar_source a) \<and> ar_size a \<le> v_max_artifact v) \<and>
      extends s s'"
proof (induction specs arbitrary: seen recs acc s)
  case Nil
  then show ?case by (auto simp: sizes_def extends_def)
next
  case (Cons spec specs)
  obtain a c s1 s2 where 1: "read_artifact env v spec s = (Inr (a, c), s1)"
    and le: "acc + ar_size a \<le> v_max_snapshot v"
    and 2: "ensure_object env v (ar_sha a) c s1 = (Inr (), s2)"
    and 3: "capture_loop env v specs (as_id spec # seen) (recs @ [a]) (acc + ar_size a) s2 = (Inr (out, acc'), s')"
    and fresh: "as_id spec \<notin> set seen"
    using Cons.prems(1)
    by (auto simp: io_bind_def io_wrap_def split: if_splits prod.splits sum.splits)
  note ra = read_artifact_result [OF 1]
  have a: "ar_id a = as_id spec" "ar_sha a = ve_digest env c" "vault_allowed v (ar_source a)" "ar_size a \<le> v_max_artifact v"
    using ra(2) by auto
  have eo: "extends s1 s2 \<and> object_ok env v s2 (ar_sha a)"
    using ensure_object_result [OF ok] 2 a(2) by simp
  obtain new where new: "out = (recs @ [a]) @ new" "acc' = acc + ar_size a + sizes new" "acc' \<le> v_max_snapshot v"
      "map ar_id new = map as_id specs" "distinct (map ar_id new)" "set (map ar_id new) \<inter> set (as_id spec # seen) = {}"
      "\<forall>a\<in>set new. object_ok env v s' (ar_sha a) \<and> vault_allowed v (ar_source a) \<and> ar_size a \<le> v_max_artifact v"
      "extends s2 s'"
    using Cons.IH [OF 3 le] by blast
  have "extends s s'"
    using extends_refl [OF ra(1)] eo new(8) extends_trans by blast
  moreover have "object_ok env v s' (ar_sha a)" using eo new(8) object_ok_extends by blast
  ultimately show ?case
    using new fresh a by (intro exI [of _ "a # new"]) (auto simp: sizes_def)
qed

interpretation artifact_order: key_order "\<lambda>a b. ar_id a < ar_id b" ar_id
  by unfold_locales simp

interpretation snapshot_order: strict_weak snapshot_before
  by unfold_locales (auto simp: snapshot_before_def split: if_splits)

lemma sorted_ids:
  assumes "distinct (map ar_id as)"
  shows "sorted_wrt (<) (map ar_id (sort_by (\<lambda>a b. ar_id a < ar_id b) as))"
proof -
  let ?s = "sort_by (\<lambda>a b. ar_id a < ar_id b) as"
  have "mset (map ar_id ?s) = mset (map ar_id as)" by simp
  then have d: "distinct (map ar_id ?s)" using assms mset_eq_imp_distinct_iff by blast
  have "sorted_wrt (\<lambda>x y. \<not> ar_id y < ar_id x) ?s" by (rule artifact_order.ordered_sort_by)
  then have "sorted (map ar_id ?s)" by (simp add: sorted_wrt_map not_less)
  then show ?thesis using d strict_sorted_iff by blast
qed

lemma ensure_layout_result:
  "ensure_layout v s = (r, s') \<Longrightarrow>
   \<forall>p. node_at s' p = node_at s p \<or> (node_at s p = None \<and> node_at s' p = Some (Directory 448))"
proof -
  have step: "\<forall>p. node_at s2 p = node_at s p \<or> (node_at s p = None \<and> node_at s2 p = Some (Directory 448))"
    if "fs_mkdir_all d 448 s1 = (r, s2)"
      "\<forall>p. node_at s1 p = node_at s p \<or> (node_at s p = None \<and> node_at s1 p = Some (Directory 448))" for d s1 s2 r
    using fs_mkdir_all_result [OF that(1)] that(2) by metis
  have iter: "\<forall>p. node_at s2 p = node_at s p \<or> (node_at s p = None \<and> node_at s2 p = Some (Directory 448))"
    if "io_iter (\<lambda>d. fs_mkdir_all d 448) ds s1 = (r, s2)"
      "\<forall>p. node_at s1 p = node_at s p \<or> (node_at s p = None \<and> node_at s1 p = Some (Directory 448))" for ds s1 s2 r
    using that
  proof (induction ds arbitrary: s1)
    case Nil
    then show ?case by simp
  next
    case (Cons d ds)
    then show ?case by (auto simp: io_bind_def dest!: step split: prod.splits sum.splits)
  qed
  show "ensure_layout v s = (r, s') \<Longrightarrow> ?thesis"
    unfolding ensure_layout_def by (erule iter) simp
qed

lemma ensure_layout_exists:
  assumes "vault_ok v" and "ensure_layout v s = (Inr (), s')"
  shows "node_at s' (v_root v) \<noteq> None" "node_at s' (snapshots_dir v) \<noteq> None"
proof -
  obtain s1 s2 where 1: "fs_mkdir_all (v_root v) 448 s = (Inr (), s1)" "fs_mkdir_all (objects_dir v) 448 s1 = (Inr (), s2)"
      "fs_mkdir_all (snapshots_dir v) 448 s2 = (Inr (), s')"
    using assms(2) by (auto simp: ensure_layout_def io_bind_def split: prod.splits sum.splits)
  have "node_at s1 (v_root v) \<noteq> None"
    by (rule fs_mkdir_all_exists [OF 1(1)]) (use assms(1) in \<open>auto simp: vault_ok_def target_ok_def\<close>)
  then show "node_at s' (v_root v) \<noteq> None"
    using fs_mkdir_all_result [OF 1(2)] fs_mkdir_all_result [OF 1(3)] by metis
  show "node_at s' (snapshots_dir v) \<noteq> None"
    by (rule fs_mkdir_all_exists [OF 1(3)])
      (use vault_dirs(4) [OF assms(1)] in \<open>auto simp: target_ok_def\<close>)
qed

text \<open>The hypotheses on what the capture takes from outside: the manifest codec reads back what it
  wrote, the clock is past 1970, the random suffix is 16 hexadecimal digits.\<close>

definition codec_ok :: "vault_env \<Rightarrow> bool" where
  "codec_ok env \<longleftrightarrow> (\<forall>m t. ve_enc env m = Inr t \<longrightarrow> ve_dec env (t @ [CHR 0x0A]) = Inr m)"

definition suffix_ok :: "go_error + string \<Rightarrow> bool" where
  "suffix_ok rnd \<longleftrightarrow> (case rnd of Inl _ \<Rightarrow> True | Inr h \<Rightarrow> length h = 16 \<and> list_all is_hex h)"

lemma itoa_of_nat: "0 \<le> n \<Longrightarrow> itoa n \<noteq> [] \<and> list_all is_digit (itoa n)"
  using nat_digits_digits by (simp add: itoa_def)

lemma dash_not_in: "list_all is_digit n \<Longrightarrow> CHR ''-'' \<notin> set n" "list_all is_hex h \<Longrightarrow> CHR ''-'' \<notin> set h"
  by (auto simp: list_all_iff is_hex_def is_digit_def byte_of_def)

lemma new_snapshot_id_pattern:
  assumes "0 \<le> unix_nano now" and "suffix_ok rnd" and "new_snapshot_id rnd now = Inr i"
  shows "snapshot_pattern i"
proof -
  obtain h where h: "rnd = Inr h" "length h = 16" "list_all is_hex h"
      and i: "i = ''cfg'' @ CHR ''-'' # itoa (unix_nano now) @ CHR ''-'' # h"
    using assms by (auto simp: suffix_ok_def new_snapshot_id_def split: sum.splits)
  note n = itoa_of_nat [OF assms(1)]
  have "split_char (CHR ''-'') i = [''cfg'', itoa (unix_nano now), h]"
    unfolding i using n h dash_not_in
    by (subst split_char_append, simp, subst split_char_append) (auto simp: split_char_id)
  then show ?thesis using n h by (simp add: snapshot_pattern_def)
qed

text \<open>C5: a capture that succeeds has stored a complete snapshot: its manifest is published and
  decodes to the returned value, every artifact named in the request is in it exactly once, in
  the order of the ids, came from an allowed root, and has its object in the store under its
  checksum, even after retention has run; the sizes add up and stay within the limits.\<close>

theorem capture_stores_complete_snapshot:
  assumes ok: "vault_ok v" and codec: "codec_ok env" and now: "0 \<le> unix_nano now" and rnd: "suffix_ok rnd"
    and run: "capture env now rnd v req s = (Inr m, s')" and pos: "0 \<le> v_max_snapshot v"
  shows "stored env v (node_at s') m \<and>
    mset (map ar_id (sn_artifacts m)) = mset (map as_id (cr_artifacts req)) \<and>
    sorted_wrt (<) (map ar_id (sn_artifacts m)) \<and>
    (\<forall>a\<in>set (sn_artifacts m). object_ok env v s' (ar_sha a) \<and> vault_allowed v (ar_source a) \<and>
       ar_size a \<le> v_max_artifact v) \<and>
    sn_total m = sizes (sn_artifacts m) \<and> sn_total m \<le> v_max_snapshot v \<and>
    int (card {m. stored env v (node_at s') m}) \<le> v_max_snapshots v \<and> tree_size (v_root v) s' \<le> v_max_store v"
proof -
  obtain s1 recs acc s2 i body s3 where
      comp: "id_pattern (cr_component req)" and
      1: "ensure_layout v s = (Inr (), s1)" and
      2: "capture_loop env v (cr_artifacts req) [] [] 0 s1 = (Inr (recs, acc), s2)" and
      i: "new_snapshot_id rnd now = Inr i" and enc: "ve_enc env m = Inr body" and
      m: "sn_schema m = schema_version" "sn_id m = i" "sn_component m = cr_component req"
         "sn_artifacts m = sort_by (\<lambda>a b. ar_id a < ar_id b) recs" "sn_total m = acc" and
      len: "int (length (body @ [CHR 0x0A])) \<le> manifest_read_limit" and
      3: "write_file_atomic (manifest_path v i) (body @ [CHR 0x0A]) 384 s2 = (Inr (), s3)" and
      4: "prune env v i s3 = (Inr (), s')"
    using run
    by (auto simp: capture_def io_bind_def io_try_def Let_def split: if_splits prod.splits sum.splits)
  have sp: "snapshot_pattern i" by (rule new_snapshot_id_pattern [OF now rnd i])
  obtain new where new: "recs = new" "acc = sizes new" "acc \<le> v_max_snapshot v"
      "map ar_id new = map as_id (cr_artifacts req)" "distinct (map ar_id new)"
      "\<forall>a\<in>set new. object_ok env v s2 (ar_sha a) \<and> vault_allowed v (ar_source a) \<and> ar_size a \<le> v_max_artifact v"
      "extends s1 s2"
    using capture_loop_result [OF ok 2 pos] by auto
  note target = manifest_path_eq(2) [OF ok sp]
  have at: "node_at s3 (manifest_path v i) = Some (Regular 384 (body @ [CHR 0x0A]))"
    by (rule wfa.published [OF target 3])
  have keep3: "node_at s3 p = node_at s2 p" if "p \<noteq> manifest_path v i" "node_at s2 p \<noteq> None" for p
    by (rule wfa.elsewhere [OF target 3 that])
  have dirs: "node_at s3 (snapshots_dir v) \<noteq> None" "node_at s3 (v_root v) \<noteq> None"
    using ensure_layout_exists [OF ok 1] new(7) keep3 vault_dirs(3) [OF ok] manifest_path_eq(1) [OF ok sp]
    by (auto simp: extends_def)
  have st3: "stored env v (node_at s3) m"
    using at len m sp comp codec enc by (auto simp: stored_def codec_ok_def)
  note kept = prune_retains [OF ok 4 dirs(1)]
  have g: "guarded env v i (node_at s3) (sn_id m)" by (simp add: guarded_def m)
  have "object_ok env v s' (ar_sha a)" if a: "a \<in> set (sn_artifacts m)" for a
  proof -
    have o2: "object_ok env v s2 (ar_sha a)" using new(1,6) a m(4) by simp
    then have sha: "sha_pattern (ar_sha a)" by (simp add: object_ok_def)
    have "node_at s3 (object_path v (ar_sha a)) = node_at s2 (object_path v (ar_sha a))"
      by (rule keep3) (use o2 vault_paths_distinct(1) [OF ok sha sp] in \<open>auto simp: object_ok_def\<close>)
    then show ?thesis
      using o2 retains_object [OF ok kept st3 g a sha] by (simp add: object_ok_def)
  qed
  moreover have "mset (map ar_id (sn_artifacts m)) = mset (map as_id (cr_artifacts req))"
    unfolding m(4) new(1) by (simp only: mset_map_sort_by new(4))
  moreover have "sn_total m = sizes (sn_artifacts m)"
    unfolding m(4,5) new(1,2) sizes_def by (simp only: sum_list_sort_by)
  moreover have "sorted_wrt (<) (map ar_id (sn_artifacts m))"
    using sorted_ids [OF new(5)] m(4) new(1) by simp
  ultimately show ?thesis
    using retains_stored [OF ok kept st3 g] prune_bounds [OF ok 4 dirs] new(1,3,6) m(4,5) by auto
qed

subsection \<open>A concrete store\<close>

definition sample_vault :: "vault" where
  "sample_vault = \<lparr>v_root = ''/v'', v_allowed = [''/etc''], v_max_artifact = 8, v_max_snapshot = 16,
                   v_max_store = 64, v_max_snapshots = 2\<rparr>"

definition sample_digest :: "string \<Rightarrow> string" where
  "sample_digest c = replicate 63 (CHR ''0'') @ (if c = ''x'' then ''1'' else ''2'')"

definition sample_now :: "time" where
  "sample_now = 62135596800 * second + 5"

definition sample_snapshot :: "snapshot" where
  "sample_snapshot = \<lparr>sn_schema = 1, sn_id = ''cfg-5-0123456789abcdef'', sn_component = ''dns'', sn_reason = [],
     sn_transaction = [], sn_created = sample_now,
     sn_artifacts = [\<lparr>ar_id = ''a'', ar_source = ''/etc/a'', ar_sha = sample_digest ''x'', ar_size = 1,
                      ar_mode = 420, ar_modified = 7\<rparr>], sn_total = 1\<rparr>"

definition sample_env :: "vault_env" where
  "sample_env = \<lparr>ve_digest = sample_digest,
     ve_enc = (\<lambda>m. if m = sample_snapshot then Inr ''m'' else Inl ErrIO),
     ve_dec = (\<lambda>c. if c = ''m'' @ [CHR 0x0A] then Inr sample_snapshot else Inl ErrIO),
     ve_enc_state = (\<lambda>_. Inl ErrIO), ve_dec_state = (\<lambda>_. Inl ErrIO), ve_mtime = (\<lambda>_. 7)\<rparr>"

definition sample_source :: "os" where
  "sample_source = \<lparr>tree = [(''/etc'', Directory 493), (''/etc/a'', Regular 420 ''x'')],
                    faults = [], entropy = [''1'', ''2''], realpath = Inr\<rparr>"

definition sample_request :: "capture_request" where
  "sample_request = \<lparr>cr_component = ''dns'', cr_reason = [], cr_transaction = [],
                     cr_artifacts = [\<lparr>as_id = ''a'', as_path = ''/etc/a''\<rparr>]\<rparr>"

definition sample_run :: "(go_error + snapshot) \<times> os" where
  "sample_run = capture sample_env sample_now (Inr ''0123456789abcdef'') sample_vault sample_request sample_source"

lemma sample_ok: "vault_ok sample_vault" "codec_ok sample_env" "0 \<le> unix_nano sample_now"
    "suffix_ok (Inr ''0123456789abcdef'')" "0 \<le> v_max_snapshot sample_vault"
proof -
  show "vault_ok sample_vault" by code_simp
  show "codec_ok sample_env" by (auto simp: codec_ok_def sample_env_def split: if_splits)
  show "0 \<le> unix_nano sample_now" "suffix_ok (Inr ''0123456789abcdef'')" "0 \<le> v_max_snapshot sample_vault"
    by code_simp+
qed

lemma sample_run_result: "fst sample_run = Inr sample_snapshot"
  by code_simp

theorem capture_witness:
  "stored sample_env sample_vault (node_at (snd sample_run)) sample_snapshot \<and>
   object_ok sample_env sample_vault (snd sample_run) (sample_digest ''x'')"
proof -
  have "capture sample_env sample_now (Inr ''0123456789abcdef'') sample_vault sample_request sample_source =
      (Inr sample_snapshot, snd sample_run)"
    using sample_run_result unfolding sample_run_def by (metis prod.collapse)
  from capture_stores_complete_snapshot [OF sample_ok(1-4) this sample_ok(5)] show ?thesis
    by (simp add: sample_snapshot_def)
qed

lemma sample_manifest:
  "node_at (snd sample_run) (manifest_path sample_vault (sn_id sample_snapshot)) = Some (Regular 384 (''m'' @ [CHR 0x0A]))"
  "node_at (snd sample_run) (snapshots_dir sample_vault) = Some (Directory 448)"
  "node_at (snd sample_run) (objects_dir sample_vault) = Some (Directory 448)"
  "node_at (snd sample_run) (v_root sample_vault) = Some (Directory 448)"
  by code_simp+

lemma sample_fields:
  "snapshot_pattern (sn_id sample_snapshot)" "sn_schema sample_snapshot = schema_version"
  "id_pattern (sn_component sample_snapshot)" "ve_dec sample_env (''m'' @ [CHR 0x0A]) = Inr sample_snapshot"
  "sha_pattern (sample_digest ''x'')" "sha_pattern (sample_digest ''y'')"
  "ar_sha (hd (sn_artifacts sample_snapshot)) = sample_digest ''x''"
  by code_simp+

lemma sample_stored: "stored sample_env sample_vault (node_at (snd sample_run)) sample_snapshot"
proof -
  have "int (length (''m'' @ [CHR 0x0A])) \<le> manifest_read_limit" by code_simp
  then show ?thesis
    unfolding stored_def using sample_manifest(1) sample_fields(1-4) by blast
qed

theorem prune_witness:
  "stored sample_env sample_vault
     (node_at (snd (prune sample_env sample_vault (sn_id sample_snapshot) (snd sample_run)))) sample_snapshot \<and>
   tree_size ''/v'' (snd (prune sample_env sample_vault (sn_id sample_snapshot) (snd sample_run))) \<le> 64"
proof -
  let ?p = "prune sample_env sample_vault (sn_id sample_snapshot) (snd sample_run)"
  have ok: "fst ?p = Inr ()" by code_simp
  have ex: "node_at (snd sample_run) (snapshots_dir sample_vault) \<noteq> None"
      "node_at (snd sample_run) (v_root sample_vault) \<noteq> None"
    using sample_manifest by simp_all
  have g: "guarded sample_env sample_vault (sn_id sample_snapshot) (node_at (snd sample_run)) (sn_id sample_snapshot)"
    by (simp add: guarded_def)
  have v: "v_root sample_vault = ''/v''" "v_max_store sample_vault = 64" by (simp_all add: sample_vault_def)
  show ?thesis
    using prune_protects_and_bounds [OF sample_ok(1) surjective_pairing ex] ok sample_stored g v by metis
qed

definition with_garbage :: "os" where
  "with_garbage = put_node (object_path sample_vault (sample_digest ''y'')) (Regular 384 ''y'') (snd sample_run)"

theorem gc_witness:
  "node_at with_garbage (object_path sample_vault (sample_digest ''y'')) = Some (Regular 384 ''y'') \<and>
   (\<forall>k c. node_at (snd (gc_objects sample_env sample_vault with_garbage)) (object_path sample_vault (sample_digest ''y''))
      \<noteq> Some (Regular k c)) \<and>
   node_at (snd (gc_objects sample_env sample_vault with_garbage)) (object_path sample_vault (sample_digest ''x''))
      = node_at with_garbage (object_path sample_vault (sample_digest ''x''))"
proof -
  let ?g = "gc_objects sample_env sample_vault with_garbage"
  have ok: "fst ?g = Inr ()" by code_simp
  have nodes: "node_at with_garbage (manifest_path sample_vault (sn_id sample_snapshot)) = Some (Regular 384 (''m'' @ [CHR 0x0A]))"
    "node_at with_garbage (snapshots_dir sample_vault) = Some (Directory 448)"
    "node_at with_garbage (objects_dir sample_vault) = Some (Directory 448)"
    "sample_digest ''x'' \<noteq> sample_digest ''y''"
    "int (length (''m'' @ [CHR 0x0A])) \<le> manifest_read_limit"
    "sn_artifacts sample_snapshot = [hd (sn_artifacts sample_snapshot)]"
    by code_simp+
  have only: "m = sample_snapshot" if "stored sample_env sample_vault (node_at with_garbage) m" for m
    using that by (auto simp: stored_def sample_env_def split: if_splits)
  have st: "stored sample_env sample_vault (node_at with_garbage) sample_snapshot"
    unfolding stored_def using nodes sample_fields(1-4) by blast
  have dead: "\<not> live sample_env sample_vault (node_at with_garbage) (sample_digest ''y'')"
    using only nodes(4,6) sample_fields(7) unfolding live_def by (metis list.set_cases list.distinct(1) list.sel(1) empty_iff list.set(1) set_ConsD)
  have alive: "live sample_env sample_vault (node_at with_garbage) (sample_digest ''x'')"
    using st nodes(6) sample_fields(5,7) unfolding live_def by (metis list.set_intros(1))
  have ex: "node_at with_garbage (snapshots_dir sample_vault) \<noteq> None"
      "node_at with_garbage (objects_dir sample_vault) \<noteq> None"
    using nodes by simp_all
  have gone: "\<forall>k c. node_at (snd ?g) (object_path sample_vault (sample_digest ''y'')) \<noteq> Some (Regular k c)"
    using gc_deletes_exactly_the_dead [OF sample_ok(1) surjective_pairing ex] ok dead sample_fields(6) by blast
  have kept: "node_at (snd ?g) (object_path sample_vault (sample_digest ''x''))
      = node_at with_garbage (object_path sample_vault (sample_digest ''x''))"
    using gc_deletes_exactly_the_dead [OF sample_ok(1) surjective_pairing ex] alive by blast
  show ?thesis using gone kept by (simp add: with_garbage_def)
qed

theorem read_artifact_witness:
  "ve_digest sample_env ''x'' = ar_sha (hd (sn_artifacts sample_snapshot)) \<and>
   fst (vault_read_artifact sample_env sample_vault (sn_id sample_snapshot) ''a'' (snd sample_run)) =
     Inr (hd (sn_artifacts sample_snapshot), ''x'')"
proof -
  let ?r = "vault_read_artifact sample_env sample_vault (sn_id sample_snapshot) ''a'' (snd sample_run)"
  have "fst ?r = Inr (hd (sn_artifacts sample_snapshot), ''x'')" by code_simp
  moreover from this have "?r = (Inr (hd (sn_artifacts sample_snapshot), ''x''), snd ?r)"
    by (metis prod.collapse)
  from read_artifact_verified [OF this]
  have "ve_digest sample_env ''x'' = ar_sha (hd (sn_artifacts sample_snapshot))" by blast
  ultimately show ?thesis by blast
qed

end
