(* ===== verification/Vault_Admin.thy ===== *)
theory Vault_Admin
  imports Config_Vault Safety_Path
begin

text \<open>
  \<^verbatim>\<open>components/control/maintenance_config_vault.go\<close> and \<^verbatim>\<open>maintenance_config_vault_prechange.go\<close>:
  the service's own configuration directory under the vault. Every regular file below the
  managed root is an artifact; the handlers list, capture, mark and compare snapshots, and every
  file operation on the managed root is preceded by an automatic capture. The decoded request is an
  argument (\<open>Inl\<close>: it did not decode), one instant \<open>now\<close> stands for the readings of the clock during a
  request, and the mutex of the mutations is the order of the calls.
\<close>

subsection \<open>Two more calls of the file system\<close>

text \<open>\<^verbatim>\<open>filepath.Walk\<close>: the root and everything reached from it through real directories (links are
  not followed), parents before children, names in order. The walk is one call: a walk
  function that returns the error it is given makes any failure below the root fail the walk.\<close>

definition dir_at :: "os \<Rightarrow> string \<Rightarrow> bool" where
  "dir_at s p \<longleftrightarrow> (case node_at s p of Some (Directory _) \<Rightarrow> True | _ \<Rightarrow> False)"

definition below :: "string \<Rightarrow> string \<Rightarrow> string list" where
  "below d p = split_char slash (drop (length (dir_prefix d)) p)"

definition reached :: "os \<Rightarrow> string \<Rightarrow> string \<Rightarrow> bool" where
  "reached s d p \<longleftrightarrow> p = d \<or>
     (under d p \<and> list_all plain_elem (below d p) \<and>
      list_all (dir_at s) (d # butlast (ancestors_from d (below d p))))"

definition walk_entries :: "string \<Rightarrow> os \<Rightarrow> (string \<times> node) list" where
  "walk_entries d s =
     sort_by (\<lambda>a b. elems (fst a) < elems (fst b))
       (List.map_filter (\<lambda>p. if reached s d p then map_option (Pair p) (node_at s p) else None)
          (remdups (map fst (tree s))))"

definition fs_walk :: "string \<Rightarrow> (string \<times> node) list io" where
  "fs_walk d = syscall (\<lambda>s. (if node_at s d = None then Inl ErrNotExist else Inr (walk_entries d s), s))"

definition fs_mkdir :: "string \<Rightarrow> nat \<Rightarrow> unit io" where
  "fs_mkdir p m = syscall (\<lambda>s.
     if node_at s p \<noteq> None then (Inl ErrExist, s)
     else if \<not> parent_ok s p then (Inl ErrNotExist, s)
     else (Inr (), put_node p (Directory m) s))"

subsection \<open>Requests, answers and the managed files\<close>

definition config_vault_root :: "string" where
  "config_vault_root = ''/opt/var/lib/routerforge/config-vault''"

definition managed_root :: "string" where
  "managed_root = ''/opt/etc/routerforge''"

definition max_files :: "int" where
  "max_files = 128"

definition reason_max_len :: "int" where
  "reason_max_len = 256"

definition transaction_max_len :: "int" where
  "transaction_max_len = 128"

record capture_body =
  cb_reason :: string
  cb_transaction :: string
  cb_confirm :: string

record last_working_body =
  lw_snapshot :: string
  lw_confirm :: string

record managed_file =
  mg_id :: string
  mg_path :: string
  mg_relative :: string
  mg_size :: int

record diff_item =
  di_id :: string
  di_source :: string
  di_status :: string
  di_snapshot :: string
  di_current :: string

record vault_diff =
  vd_snapshot :: string
  vd_component :: string
  vd_changed :: bool
  vd_items :: "diff_item list"

datatype vault_answer =
    VaultError string
  | NotFoundPage
  | OverviewAnswer vault "managed_file list" "snapshot list" vault_state
  | SnapshotAnswer snapshot
  | CapturedAnswer snapshot int
  | StateAnswer vault_state
  | DiffAnswer vault_diff
  | PreviewAnswer vault_diff

definition new_admin_vault :: "go_error + vault" where
  "new_admin_vault = new_vault \<lparr>vo_root = config_vault_root, vo_allowed = [managed_root],
     vo_max_artifact = 0, vo_max_snapshot = 0, vo_max_store = 0, vo_max_snapshots = 0\<rparr>"

text \<open>The first eight bytes of the checksum are its first sixteen hexadecimal digits.\<close>

definition artifact_id :: "vault_env \<Rightarrow> string \<Rightarrow> string" where
  "artifact_id env relative = ''file-'' @ take 16 (ve_digest env relative)"

text \<open>The function \<^verbatim>\<open>filepath.Walk\<close> calls, over the entries it is called with.\<close>

fun visit_managed :: "vault_env \<Rightarrow> (string \<times> node) list \<Rightarrow> managed_file list \<Rightarrow> go_error + managed_file list" where
  "visit_managed env [] acc = Inr acc"
| "visit_managed env ((p, n) # es) acc =
     (if p = managed_root then visit_managed env es acc
      else if \<not> is_regular n then visit_managed env es acc
      else if int (length acc) \<ge> max_files
      then Inl (Msg (''managed config file count exceeds '' @ itoa max_files))
      else (case path_rel managed_root p of
              Inl e \<Rightarrow> Inl e
            | Inr rel \<Rightarrow> visit_managed env es
                (acc @ [\<lparr>mg_id = artifact_id env rel, mg_path = p, mg_relative = rel, mg_size = int (node_size n)\<rparr>])))"

definition spec_of :: "managed_file \<Rightarrow> artifact_spec" where
  "spec_of m = \<lparr>as_id = mg_id m, as_path = mg_path m\<rparr>"

definition discover_artifacts :: "vault_env \<Rightarrow> (managed_file list \<times> artifact_spec list) io" where
  "discover_artifacts env =
     io_try (fs_lstat managed_root) (\<lambda>res.
       case res of
         Inl e \<Rightarrow> if is_not_exist e then io_return ([], []) else io_fail e
       | Inr info \<Rightarrow>
           if \<not> is_dir info then io_fail (Msg ''RouterForge config root must be a regular directory'')
           else io_bind (fs_walk managed_root) (\<lambda>es.
             case visit_managed env es [] of
               Inl e \<Rightarrow> io_fail e
             | Inr ms \<Rightarrow> io_return (sort_by (\<lambda>a b. mg_relative a < mg_relative b) ms,
                                  sort_by (\<lambda>a b. as_path a < as_path b) (map spec_of ms))))"

subsection \<open>Comparing with a snapshot\<close>

definition sha256_regular_file :: "vault_env \<Rightarrow> string \<Rightarrow> string io" where
  "sha256_regular_file env p =
     io_bind (fs_lstat p) (\<lambda>info.
       if \<not> is_regular info then io_fail (Msg ''managed config path is not a regular non-symlink file'')
       else io_bind (fs_read_file p) (\<lambda>c. io_return (ve_digest env c)))"

fun diff_snapshot :: "vault_env \<Rightarrow> managed_file list \<Rightarrow> artifact list \<Rightarrow> (diff_item list \<times> bool) io" where
  "diff_snapshot env current [] = io_return ([], False)"
| "diff_snapshot env current (a # as) =
     (case List.find (\<lambda>m. mg_path m = ar_source a) current of
        None \<Rightarrow>
          io_bind (diff_snapshot env current as) (\<lambda>(items, changed).
            io_return (\<lparr>di_id = ar_id a, di_source = ar_source a, di_status = ''removed'',
                        di_snapshot = ar_sha a, di_current = []\<rparr> # items, True))
      | Some m \<Rightarrow>
          io_bind (sha256_regular_file env (mg_path m)) (\<lambda>checksum.
          io_bind (diff_snapshot env current as) (\<lambda>(items, changed).
            io_return (\<lparr>di_id = ar_id a, di_source = ar_source a,
                        di_status = (if checksum \<noteq> ar_sha a then ''changed'' else ''unchanged''),
                        di_snapshot = ar_sha a, di_current = checksum\<rparr> # items,
                       checksum \<noteq> ar_sha a \<or> changed))))"

fun diff_added :: "vault_env \<Rightarrow> string list \<Rightarrow> managed_file list \<Rightarrow> (diff_item list \<times> bool) io" where
  "diff_added env seen [] = io_return ([], False)"
| "diff_added env seen (m # ms) =
     (if mg_path m \<in> set seen then diff_added env seen ms
      else
        io_bind (sha256_regular_file env (mg_path m)) (\<lambda>checksum.
        io_bind (diff_added env seen ms) (\<lambda>(items, changed).
          io_return (\<lparr>di_id = mg_id m, di_source = mg_path m, di_status = ''added'', di_snapshot = [],
                      di_current = checksum\<rparr> # items, True))))"

definition build_diff :: "vault_env \<Rightarrow> string \<Rightarrow> vault_diff io" where
  "build_diff env i =
     (case new_admin_vault of
        Inl e \<Rightarrow> io_fail e
      | Inr v \<Rightarrow>
          io_bind (vault_get env v i) (\<lambda>m.
          io_bind (discover_artifacts env) (\<lambda>(current, specs).
          io_bind (diff_snapshot env current (sn_artifacts m)) (\<lambda>(items, changed).
          io_bind (diff_added env (map ar_source (sn_artifacts m)) current) (\<lambda>(more_items, more_changed).
            io_return \<lparr>vd_snapshot = sn_id m, vd_component = sn_component m, vd_changed = changed \<or> more_changed,
                       vd_items = sort_by (\<lambda>a b. di_source a < di_source b) (items @ more_items)\<rparr>)))))"

subsection \<open>The handlers\<close>

definition vault_failure :: "int \<Rightarrow> go_error \<Rightarrow> int \<times> vault_answer" where
  "vault_failure code e = (code, VaultError (error_text e))"

definition handle_overview :: "vault_env \<Rightarrow> os \<Rightarrow> (int \<times> vault_answer) \<times> os" where
  "handle_overview env s =
     (case new_admin_vault of
        Inl e \<Rightarrow> (vault_failure 500 e, s)
      | Inr v \<Rightarrow>
          (case (io_bind (vault_list env v) (\<lambda>ms.
                 io_bind (vault_get_state env v) (\<lambda>st.
                 io_bind (discover_artifacts env) (\<lambda>(managed, specs). io_return (managed, ms, st))))) s of
             (Inl e, s') \<Rightarrow> (vault_failure 500 e, s')
           | (Inr (managed, ms, st), s') \<Rightarrow> ((200, OverviewAnswer v managed ms st), s')))"

definition handle_get :: "vault_env \<Rightarrow> string \<Rightarrow> os \<Rightarrow> (int \<times> vault_answer) \<times> os" where
  "handle_get env url_path s =
     (let i = trim_space (trim_prefix url_path ''/v1/maintenance/config-vault/'') in
      if i = [] \<or> slash \<in> set i then ((404, NotFoundPage), s)
      else
        (case new_admin_vault of
           Inl e \<Rightarrow> (vault_failure 500 e, s)
         | Inr v \<Rightarrow>
             (case vault_get env v i s of
                (Inl e, s') \<Rightarrow> (if is_not_exist e then (404, VaultError ''snapshot not found'') else vault_failure 400 e, s')
              | (Inr m, s') \<Rightarrow> ((200, SnapshotAnswer m), s'))))"

definition handle_capture ::
    "vault_env \<Rightarrow> time \<Rightarrow> go_error + string \<Rightarrow> go_error + capture_body \<Rightarrow> os \<Rightarrow> (int \<times> vault_answer) \<times> os" where
  "handle_capture env now rnd body s =
     (case body of
        Inl _ \<Rightarrow> ((400, VaultError ''invalid config vault capture request''), s)
      | Inr q \<Rightarrow>
          (let reason = trim_space (cb_reason q); tx = trim_space (cb_transaction q) in
           if cb_confirm q \<noteq> ''SNAPSHOT'' then ((409, VaultError ''confirm must equal SNAPSHOT''), s)
           else if int (length reason) > reason_max_len then ((400, VaultError ''reason is too long''), s)
           else if int (length tx) > transaction_max_len then ((400, VaultError ''transaction_id is too long''), s)
           else
             (case discover_artifacts env s of
                (Inl e, s1) \<Rightarrow> (vault_failure 500 e, s1)
              | (Inr (managed, specs), s1) \<Rightarrow>
                  (case new_admin_vault of
                     Inl e \<Rightarrow> (vault_failure 500 e, s1)
                   | Inr v \<Rightarrow>
                       (case capture env now rnd v \<lparr>cr_component = ''admin'', cr_reason = reason,
                               cr_transaction = tx, cr_artifacts = specs\<rparr> s1 of
                          (Inl e, s2) \<Rightarrow> (vault_failure 500 e, s2)
                        | (Inr m, s2) \<Rightarrow> ((200, CapturedAnswer m (int (length managed))), s2))))))"

definition handle_last_working ::
    "vault_env \<Rightarrow> time \<Rightarrow> go_error + last_working_body \<Rightarrow> os \<Rightarrow> (int \<times> vault_answer) \<times> os" where
  "handle_last_working env now body s =
     (case body of
        Inl _ \<Rightarrow> ((400, VaultError ''invalid LAST WORKING request''), s)
      | Inr q \<Rightarrow>
          if lw_confirm q \<noteq> ''LAST_WORKING'' then ((409, VaultError ''confirm must equal LAST_WORKING''), s)
          else
            (case new_admin_vault of
               Inl e \<Rightarrow> (vault_failure 500 e, s)
             | Inr v \<Rightarrow>
                 (case mark_last_working env now v (trim_space (lw_snapshot q)) s of
                    (Inl e, s1) \<Rightarrow> (vault_failure (if is_not_exist e then 404 else 400) e, s1)
                  | (Inr _, s1) \<Rightarrow>
                      (case vault_get_state env v s1 of
                         (Inl e, s2) \<Rightarrow> ((200, StateAnswer \<lparr>vs_last_working = [], vs_updated = zero_time\<rparr>), s2)
                       | (Inr st, s2) \<Rightarrow> ((200, StateAnswer st), s2)))))"

definition handle_diff :: "vault_env \<Rightarrow> string \<Rightarrow> os \<Rightarrow> (int \<times> vault_answer) \<times> os" where
  "handle_diff env query s =
     (case build_diff env (trim_space query) s of
        (Inl e, s') \<Rightarrow> (vault_failure (if is_not_exist e then 404 else 400) e, s')
      | (Inr d, s') \<Rightarrow> ((200, DiffAnswer d), s'))"

definition handle_preview :: "vault_env \<Rightarrow> string \<Rightarrow> os \<Rightarrow> (int \<times> vault_answer) \<times> os" where
  "handle_preview env query s =
     (case build_diff env (trim_space query) s of
        (Inl e, s') \<Rightarrow> (vault_failure (if is_not_exist e then 404 else 400) e, s')
      | (Inr d, s') \<Rightarrow> ((200, PreviewAnswer d), s'))"

subsection \<open>The snapshot before a change\<close>

record prechange =
  pc_protected :: bool
  pc_snapshot :: string
  pc_transaction :: string
  pc_artifacts :: int
  pc_empty :: bool

definition within_managed :: "string \<Rightarrow> string \<Rightarrow> bool" where
  "within_managed root0 path0 =
     (let root = clean (trim_space root0); path = clean (trim_space path0) in
      if \<not> is_abs root \<or> \<not> is_abs path then False
      else (case path_rel root path of
              Inl _ \<Rightarrow> False
            | Inr rel \<Rightarrow> rel = ''.'' \<or> (rel \<noteq> ''..'' \<and> \<not> has_prefix rel (''..'' @ [slash]))))"

definition managed_mutation :: "string list \<Rightarrow> bool" where
  "managed_mutation paths = list_ex (within_managed managed_root) paths"

definition no_prechange :: "prechange" where
  "no_prechange = \<lparr>pc_protected = False, pc_snapshot = [], pc_transaction = [], pc_artifacts = 0, pc_empty = False\<rparr>"

definition capture_prechange ::
    "vault_env \<Rightarrow> time \<Rightarrow> go_error + string \<Rightarrow> string \<Rightarrow> string list \<Rightarrow> prechange io" where
  "capture_prechange env now rnd action0 paths =
     (if \<not> managed_mutation paths then io_return no_prechange
      else
        io_bind (discover_artifacts env) (\<lambda>(managed, specs).
          case new_admin_vault of
            Inl e \<Rightarrow> io_fail e
          | Inr v \<Rightarrow>
              (let action = (if trim_space action0 = [] then ''managed-mutation'' else trim_space action0);
                   tx = ''auto-prechange-'' @ itoa (unix_nano now)
               in io_bind (capture env now rnd v \<lparr>cr_component = ''admin'',
                       cr_reason = ''automatic pre-change snapshot: '' @ action,
                       cr_transaction = tx, cr_artifacts = specs\<rparr>) (\<lambda>m.
                    io_return \<lparr>pc_protected = True, pc_snapshot = sn_id m, pc_transaction = tx,
                               pc_artifacts = int (length managed), pc_empty = (managed = [])\<rparr>))))"

subsection \<open>The managed files of a state\<close>

text \<open>The specification: what lies below the managed root, path by path, and its checksums.\<close>

definition managed_area :: "string set" where
  "managed_area = {p. p = managed_root \<or> under managed_root p}"

definition managed_content :: "os \<Rightarrow> string \<Rightarrow> string option" where
  "managed_content s p =
     (if p \<noteq> managed_root \<and> reached s managed_root p
      then (case node_at s p of Some (Regular _ c) \<Rightarrow> Some c | _ \<Rightarrow> None) else None)"

definition managed_sums :: "vault_env \<Rightarrow> os \<Rightarrow> (string \<times> string) set" where
  "managed_sums env s = {(p, h). \<exists>c. managed_content s p = Some c \<and> h = ve_digest env c}"

definition snapshot_sums :: "snapshot \<Rightarrow> (string \<times> string) set" where
  "snapshot_sums m = (\<lambda>a. (ar_source a, ar_sha a)) ` set (sn_artifacts m)"

lemma ancestors_under: "x \<in> set (ancestors_from d es) \<Longrightarrow> under d x"
proof (induction es arbitrary: d)
  case (Cons e es)
  have "under d x" if "under (dir_prefix d @ e) x" for x
    using that by (auto simp: under_def has_prefix_iff dir_prefix_def append_eq_Cons_conv split: if_splits)
  then show ?case using Cons by (auto simp: under_def has_prefix_iff)
qed simp

lemma managed_sums_fun: "(p, g) \<in> managed_sums env s \<Longrightarrow> (p, h) \<in> managed_sums env s \<Longrightarrow> g = h"
  by (auto simp: managed_sums_def)

lemma reached_frame:
  assumes "same_except (- managed_area) s s'"
  shows "reached s' managed_root p = reached s managed_root p"
proof -
  let ?as = "managed_root # butlast (ancestors_from managed_root (below managed_root p))"
  have "set ?as \<subseteq> managed_area"
    by (auto simp: managed_area_def dest!: in_set_butlastD ancestors_under)
  then have "\<forall>a\<in>set ?as. dir_at s' a = dir_at s a"
    using assms by (fastforce simp: same_except_def dir_at_def)
  then have "list_all (dir_at s') ?as = list_all (dir_at s) ?as" by (simp add: list_all_iff)
  then show ?thesis unfolding reached_def by simp
qed

lemma managed_content_frame:
  assumes "same_except (- managed_area) s s'"
  shows "managed_content s' = managed_content s"
proof
  fix p
  have "node_at s' p = node_at s p" if "reached s managed_root p"
    using assms that by (auto simp: same_except_def managed_area_def reached_def)
  then show "managed_content s' p = managed_content s p"
    using reached_frame [OF assms, of p] by (auto simp: managed_content_def)
qed

lemma managed_sums_frame: "same_except (- managed_area) s s' \<Longrightarrow> managed_sums env s' = managed_sums env s"
  by (simp add: managed_sums_def managed_content_frame)

lemma managed_content_cong: "node_at s' = node_at s \<Longrightarrow> managed_content s' = managed_content s"
  by (rule managed_content_frame) (simp add: same_except_def)

lemma managed_sums_cong: "node_at s' = node_at s \<Longrightarrow> managed_sums env s' = managed_sums env s"
  using managed_content_cong [of s' s] by (simp add: managed_sums_def)

lemma managed_root_elems: "elems managed_root = [''opt'', ''etc'', ''routerforge'']" "is_abs managed_root"
  "clean managed_root = managed_root" "managed_root = slash # join [slash] [''opt'', ''etc'', ''routerforge'']"
  "dir_prefix managed_root = managed_root @ [slash]" "managed_root \<noteq> [slash]"
  "trim_space managed_root = managed_root"
proof -
  show "elems managed_root = [''opt'', ''etc'', ''routerforge'']" by code_simp
  show "is_abs managed_root" by code_simp
  show "clean managed_root = managed_root" by code_simp
  show "managed_root = slash # join [slash] [''opt'', ''etc'', ''routerforge'']" by code_simp
  show "dir_prefix managed_root = managed_root @ [slash]" by code_simp
  show "managed_root \<noteq> [slash]" by code_simp
  show "trim_space managed_root = managed_root" by code_simp
qed

lemma below_join: "under managed_root p \<Longrightarrow> p = managed_root @ slash # join [slash] (below managed_root p)"
  using join_split_char [of slash "drop (length (dir_prefix managed_root)) p"]
  by (auto simp: under_def has_prefix_iff below_def managed_root_elems(5))

lemma reached_path:
  assumes "reached s managed_root p" and "p \<noteq> managed_root"
  shows "under managed_root p" "is_abs p" "clean p = p"
    "elems p = elems managed_root @ below managed_root p" "below managed_root p \<noteq> []"
proof -
  have u: "under managed_root p" and pl: "list_all plain_elem (below managed_root p)"
    using assms by (auto simp: reached_def)
  show "under managed_root p" by (rule u)
  show ne: "below managed_root p \<noteq> []" by (simp add: below_def)
  have "p = slash # join [slash] ([''opt'', ''etc'', ''routerforge''] @ below managed_root p)"
    using below_join [OF u] ne by (cases "below managed_root p") (simp_all add: managed_root_elems(4))
  moreover have "list_all plain_elem ([''opt'', ''etc'', ''routerforge''] @ below managed_root p)"
    using pl by (simp add: plain_elem_def slash_def)
  ultimately show "is_abs p" "clean p = p" "elems p = elems managed_root @ below managed_root p"
    using clean_abs_join elems_abs_join managed_root_elems(1) by (metis is_abs_Cons)+
qed

lemma in_map_filter: "y \<in> set (List.map_filter f xs) \<longleftrightarrow> (\<exists>x\<in>set xs. f x = Some y)"
  by (induction xs) (auto split: option.splits)

lemma set_walk_entries: "(p, n) \<in> set (walk_entries d s) \<longleftrightarrow> reached s d p \<and> node_at s p = Some n"
proof -
  have "p \<in> fst ` set (tree s)" if "node_at s p = Some n"
    using that by (force simp: node_at_def dest: map_of_SomeD)
  then show ?thesis
    by (auto simp: walk_entries_def in_map_filter split: if_splits intro!: bexI [of _ p])
qed

lemma reached_cong: "node_at s = node_at t \<Longrightarrow> reached s = reached t"
proof -
  assume "node_at s = node_at t"
  then have "dir_at s = dir_at t" by (simp add: dir_at_def fun_eq_iff)
  then show ?thesis by (intro ext) (simp only: reached_def)
qed

lemma fs_walk_result:
  "fs_walk d s = (r, s') \<Longrightarrow> node_at s' = node_at s \<and> (\<forall>es. r = Inr es \<longrightarrow> set es = set (walk_entries d s))"
proof (unfold fs_walk_def, erule syscall_cases)
  fix fs
  assume "(if node_at (s\<lparr>faults := fs\<rparr>) d = None then Inl ErrNotExist else Inr (walk_entries d (s\<lparr>faults := fs\<rparr>)), s\<lparr>faults := fs\<rparr>) = (r, s')"
  moreover have "set (walk_entries d (s\<lparr>faults := fs\<rparr>)) = set (walk_entries d s)"
    using reached_cong [of "s\<lparr>faults := fs\<rparr>" s] by (auto simp: set_walk_entries)
  ultimately show ?thesis by (auto split: if_splits)
qed simp

subsection \<open>What the discovery and the comparison report\<close>

lemma touches_walk [frame]: "touches P (fs_walk d)"
  by (rule touchesI, drule fs_walk_result) (simp add: same_except_def)

lemma visit_managed_set:
  "visit_managed env es acc = Inr ms \<Longrightarrow>
   mg_path ` set ms = mg_path ` set acc \<union> {p. \<exists>n. (p, n) \<in> set es \<and> p \<noteq> managed_root \<and> is_regular n}"
proof (induction env es acc rule: visit_managed.induct)
  case (2 env p n es acc)
  then show ?case
    by (cases "p = managed_root \<or> \<not> is_regular n") (auto split: if_splits sum.splits)
qed simp

lemma managed_regular_iff: "is_regular n \<longleftrightarrow> (\<exists>k c. n = Regular k c)"
  by (cases n) (simp_all add: is_regular_def)

lemma managed_content_dom: "dom (managed_content s) =
    {p. \<exists>n. reached s managed_root p \<and> node_at s p = Some n \<and> p \<noteq> managed_root \<and> is_regular n}"
  by (auto simp: managed_content_def managed_regular_iff split: option.splits node.splits if_splits)

lemma touches_discover [frame]: "touches P (discover_artifacts env)"
  unfolding discover_artifacts_def by (intro frame)

lemma discover_same: "discover_artifacts env s = (r, s') \<Longrightarrow> node_at s' = node_at s"
  using touchesD [OF touches_discover [of "{}"]] by (auto simp: same_except_def)

lemma discover_result:
  assumes "discover_artifacts env s = (Inr (ms, specs), s')"
  shows "mg_path ` set ms = dom (managed_content s) \<and> mset specs = mset (map spec_of ms)"
proof -
  obtain res s1 where 1: "fs_lstat managed_root s = (res, s1)" by fastforce
  note l = fs_lstat_result [OF 1]
  show ?thesis
  proof (cases res)
    case (Inl e)
    then have r: "ms = []" "specs = []" "is_not_exist e"
      using assms 1 by (auto simp: discover_artifacts_def io_try_def split: if_splits)
    then have "node_at s managed_root = None" using l Inl by auto
    then have "dom (managed_content s) = {}" by (auto simp: managed_content_dom reached_def dir_at_def)
    then show ?thesis using r by simp
  next
    case (Inr n)
    then obtain es s2 all where 2: "fs_walk managed_root s1 = (Inr es, s2)"
        and v: "visit_managed env es [] = Inr all"
        and r: "ms = sort_by (\<lambda>a b. mg_relative a < mg_relative b) all"
          "specs = sort_by (\<lambda>a b. as_path a < as_path b) (map spec_of all)"
      using assms 1 by (auto simp: discover_artifacts_def io_try_def io_bind_def split: if_splits prod.splits sum.splits)
    have "set es = set (walk_entries managed_root s1)" using fs_walk_result [OF 2] by blast
    then have "mg_path ` set all = dom (managed_content s1)"
      using visit_managed_set [OF v] by (auto simp: set_walk_entries managed_content_dom)
    then show ?thesis using managed_content_cong [of s1 s] l r by simp
  qed
qed

lemma sha256_result:
  "sha256_regular_file env p s = (r, s') \<Longrightarrow>
   node_at s' = node_at s \<and> (\<forall>h. r = Inr h \<longrightarrow> (\<exists>k c. node_at s p = Some (Regular k c) \<and> h = ve_digest env c))"
proof -
  assume run: "sha256_regular_file env p s = (r, s')"
  have "touches {} (sha256_regular_file env p)" unfolding sha256_regular_file_def by (intro frame)
  from touchesD [OF this run] have same: "node_at s' = node_at s" by (auto simp: same_except_def)
  have "\<exists>k c. node_at s p = Some (Regular k c) \<and> h = ve_digest env c" if r: "r = Inr h" for h
  proof -
    obtain n s1 c where 1: "fs_lstat p s = (Inr n, s1)" "is_regular n" and 2: "fs_read_file p s1 = (Inr c, s')"
        and h: "h = ve_digest env c"
      using run r by (auto simp: sha256_regular_file_def io_bind_def split: if_splits prod.splits sum.splits)
    obtain k d where n: "n = Regular k d" using 1(2) by (auto simp: is_regular_def split: node.splits)
    have at: "node_at s1 p = Some (Regular k d)" "node_at s p = Some (Regular k d)"
      using fs_lstat_result [OF 1(1)] n by auto
    show ?thesis using fs_read_file_result [OF 2 at(1)] at(2) h by auto
  qed
  then show ?thesis using same by blast
qed

lemma managed_node: "managed_content s p = Some x \<Longrightarrow> \<exists>k. node_at s p = Some (Regular k x)"
  by (auto simp: managed_content_def split: if_splits option.splits node.splits)

lemma managed_sha:
  "sha256_regular_file env p s = (Inr h, s') \<Longrightarrow> p \<in> dom (managed_content s) \<Longrightarrow>
   (p, g) \<in> managed_sums env s \<longleftrightarrow> g = h"
  by (drule sha256_result) (fastforce simp: managed_sums_def dest: managed_node)

lemma diff_snapshot_result:
  "diff_snapshot env current as s = (Inr (items, changed), s') \<Longrightarrow> mg_path ` set current = dom (managed_content s) \<Longrightarrow>
   node_at s' = node_at s \<and> (changed \<longleftrightarrow> \<not> (\<lambda>a. (ar_source a, ar_sha a)) ` set as \<subseteq> managed_sums env s)"
proof (induction as arbitrary: s items changed)
  case Nil
  then show ?case by simp
next
  case (Cons a as)
  show ?case
  proof (cases "List.find (\<lambda>m. mg_path m = ar_source a) current")
    case None
    then have "ar_source a \<notin> dom (managed_content s)"
      using Cons.prems(2) by (metis (mono_tags, lifting) find_None_iff image_iff)
    then have out: "(ar_source a, ar_sha a) \<notin> managed_sums env s" by (auto simp: managed_sums_def)
    obtain items' ch where rest: "diff_snapshot env current as s = (Inr (items', ch), s')" and c: "changed"
      using Cons.prems(1) None by (auto simp: io_bind_def split: prod.splits sum.splits)
    then show ?thesis using Cons.IH [OF rest Cons.prems(2)] out by simp
  next
    case (Some m)
    then have m: "mg_path m = ar_source a" "m \<in> set current" by (auto simp: find_Some_iff)
    obtain h s1 items' ch where 1: "sha256_regular_file env (ar_source a) s = (Inr h, s1)"
        and rest: "diff_snapshot env current as s1 = (Inr (items', ch), s')"
        and c: "changed \<longleftrightarrow> h \<noteq> ar_sha a \<or> ch"
      using Cons.prems(1) Some m by (auto simp: io_bind_def split: prod.splits sum.splits)
    have same: "node_at s1 = node_at s" using sha256_result [OF 1] by blast
    have "ar_source a \<in> dom (managed_content s)" using m Cons.prems(2) by (metis image_eqI)
    note sum = managed_sha [OF 1 this, of "ar_sha a"]
    have dom1: "mg_path ` set current = dom (managed_content s1)"
      using Cons.prems(2) managed_content_cong [OF same] by simp
    show ?thesis
      using Cons.IH [OF rest dom1] sum c same managed_sums_cong [OF same] by auto
  qed
qed

lemma diff_added_result:
  "diff_added env seen ms s = (Inr (items, changed), s') \<Longrightarrow>
   node_at s' = node_at s \<and> (changed \<longleftrightarrow> \<not> mg_path ` set ms \<subseteq> set seen)"
proof (induction ms arbitrary: s items changed)
  case Nil
  then show ?case by simp
next
  case (Cons m ms)
  show ?case
  proof (cases "mg_path m \<in> set seen")
    case True
    then show ?thesis using Cons by simp
  next
    case False
    obtain h s1 items' ch where 1: "sha256_regular_file env (mg_path m) s = (Inr h, s1)"
        and rest: "diff_added env seen ms s1 = (Inr (items', ch), s')" and c: changed
      using Cons.prems False by (auto simp: io_bind_def split: prod.splits sum.splits)
    then show ?thesis using Cons.IH [OF rest] sha256_result [OF 1] False by simp
  qed
qed

subsection \<open>The store of the service\<close>

definition admin_vault :: "vault" where
  "admin_vault = \<lparr>v_root = config_vault_root, v_allowed = [managed_root], v_max_artifact = 2097152,
     v_max_snapshot = 8388608, v_max_store = 33554432, v_max_snapshots = 32\<rparr>"

lemma new_admin_vault_eq: "new_admin_vault = Inr admin_vault"
  by code_simp

lemma admin_vault_ok: "vault_ok admin_vault" "0 \<le> v_max_snapshot admin_vault"
  by code_simp+

lemma touches_sha256 [frame]: "touches P (sha256_regular_file env p)"
  unfolding sha256_regular_file_def by (intro frame)

lemma diff_snapshot_frame [frame]: "touches P (diff_snapshot env current as)"
proof (induction as)
  case Nil
  show ?case by (simp add: touches_def)
next
  case (Cons a as)
  then show ?case unfolding diff_snapshot.simps by (intro frame)
qed

lemma diff_added_frame [frame]: "touches P (diff_added env seen ms)"
proof (induction ms)
  case Nil
  show ?case by (simp add: touches_def)
next
  case (Cons m ms)
  then show ?case unfolding diff_added.simps by (intro frame)
qed

lemma build_diff_frame [frame]: "touches P (build_diff env i)"
  unfolding build_diff_def vault_get_def by (intro frame)

text \<open>A comparison reports a change exactly when the managed files, path by path and checksum by
  checksum, are not those of the stored snapshot.\<close>

lemma build_diff_result:
  assumes "build_diff env i s = (Inr d, s')"
  shows "node_at s' = node_at s \<and>
    (\<exists>m. stored env admin_vault (node_at s) m \<and> sn_id m = i \<and> vd_snapshot d = i \<and>
       (vd_changed d \<longleftrightarrow> snapshot_sums m \<noteq> managed_sums env s))"
proof -
  obtain m s1 ms specs s2 items1 ch1 s3 items2 ch2 where
      1: "vault_get env admin_vault i s = (Inr m, s1)" and
      2: "discover_artifacts env s1 = (Inr (ms, specs), s2)" and
      3: "diff_snapshot env ms (sn_artifacts m) s2 = (Inr (items1, ch1), s3)" and
      4: "diff_added env (map ar_source (sn_artifacts m)) ms s3 = (Inr (items2, ch2), s')" and
      d: "vd_changed d \<longleftrightarrow> ch1 \<or> ch2" "vd_snapshot d = sn_id m"
    using assms by (auto simp: build_diff_def new_admin_vault_eq io_bind_def split: prod.splits sum.splits)
  note g = vault_get_result [OF 1, simplified]
  have n2: "node_at s1 = node_at s" "node_at s2 = node_at s" using g discover_same [OF 2] by simp_all
  have dom: "mg_path ` set ms = dom (managed_content s)"
    using discover_result [OF 2] managed_content_cong [OF n2(1)] by simp
  then have "mg_path ` set ms = dom (managed_content s2)" using managed_content_cong [OF n2(2)] by simp
  note c1 = diff_snapshot_result [OF 3 this]
  note c2 = diff_added_result [OF 4]
  have sub: "ch1 \<longleftrightarrow> \<not> snapshot_sums m \<subseteq> managed_sums env s"
    using c1 managed_sums_cong [OF n2(2)] by (simp add: snapshot_sums_def)
  have "ch2 \<longleftrightarrow> \<not> dom (managed_content s) \<subseteq> fst ` snapshot_sums m"
    using c2 dom by (auto simp: snapshot_sums_def image_image)
  moreover have "managed_sums env s \<subseteq> snapshot_sums m \<longleftrightarrow> dom (managed_content s) \<subseteq> fst ` snapshot_sums m"
    if "snapshot_sums m \<subseteq> managed_sums env s"
  proof
    assume "managed_sums env s \<subseteq> snapshot_sums m"
    then show "dom (managed_content s) \<subseteq> fst ` snapshot_sums m" by (force simp: managed_sums_def)
  next
    assume a: "dom (managed_content s) \<subseteq> fst ` snapshot_sums m"
    show "managed_sums env s \<subseteq> snapshot_sums m"
    proof
      fix x
      assume x: "x \<in> managed_sums env s"
      then have "fst x \<in> fst ` snapshot_sums m" using a by (force simp: managed_sums_def)
      then obtain h where h: "(fst x, h) \<in> snapshot_sums m" by force
      then have "(fst x, h) \<in> managed_sums env s" using that by blast
      then have "x = (fst x, h)" using x by (cases x) (auto simp: managed_sums_def)
      then show "x \<in> snapshot_sums m" using h by simp
    qed
  qed
  ultimately have "vd_changed d \<longleftrightarrow> snapshot_sums m \<noteq> managed_sums env s"
    using d(1) sub by blast
  then show ?thesis using g d(2) c1 c2 n2 by auto
qed

subsection \<open>The store and the managed files do not meet\<close>

lemma store_outside: "p = config_vault_root \<or> under config_vault_root p \<Longrightarrow> p \<notin> managed_area"
  by (auto simp: managed_area_def under_def has_prefix_iff config_vault_root_def managed_root_def dir_prefix_def slash_def)

lemma store_dirs: "objects_dir admin_vault = config_vault_root @ slash # ''objects''"
    "snapshots_dir admin_vault = config_vault_root @ slash # ''snapshots''"
    "state_path admin_vault = config_vault_root @ slash # ''state.json''"
    "dir_prefix config_vault_root = config_vault_root @ [slash]"
  using vault_dirs [OF admin_vault_ok(1)]
  by (simp_all add: admin_vault_def) (simp add: config_vault_root_def dir_prefix_def slash_def)

lemma store_children:
  "under (objects_dir admin_vault) p \<Longrightarrow> under config_vault_root p"
  "under (snapshots_dir admin_vault) p \<Longrightarrow> under config_vault_root p"
  by (auto simp: under_def has_prefix_iff store_dirs dir_prefix_def slash_def)

lemma store_paths:
  "sha_pattern h \<Longrightarrow> under config_vault_root (object_path admin_vault h)"
  "snapshot_pattern i \<Longrightarrow> under config_vault_root (manifest_path admin_vault i)"
  using object_path_eq(1) [OF admin_vault_ok(1)] manifest_path_eq(1) [OF admin_vault_ok(1)]
  by (auto simp: under_def has_prefix_iff store_dirs)

lemma temp_under: "under d (temp_name d pat x)"
  by (simp add: temp_name_def under_def)

lemma store_write_outside:
  assumes "target_ok (d @ slash # x)" and "plain_elem x" and "target_ok d"
    and "d = objects_dir admin_vault \<or> d = snapshots_dir admin_vault"
  shows "touches (- managed_area) (write_file_atomic (d @ slash # x) c m)"
proof (rule write_file_atomic_touches [OF assms(1)])
  have "path_dir (d @ slash # x) = d"
    using path_join_plain(2) [OF _ _ _ assms(2), of d] assms(3) by (simp add: target_ok_def)
  moreover have "under config_vault_root p" if "under d p" for p
    using that assms(4) store_children by auto
  moreover have "under d (d @ slash # x)"
    using assms(3) by (simp add: under_def target_ok_def dir_prefix_def has_prefix_iff)
  ultimately show "insert (d @ slash # x)
      (range (temp_name (path_dir (d @ slash # x)) (''.'' @ path_base (d @ slash # x) @ ''.tmp-*''))) \<subseteq> - managed_area"
    using temp_under store_outside by auto
qed

lemma object_write_outside:
  "sha_pattern h \<Longrightarrow> touches (- managed_area) (write_file_atomic (object_path admin_vault h) c m)"
  using object_path_eq [OF admin_vault_ok(1)] sha_plain vault_dirs(2) [OF admin_vault_ok(1)]
  by (auto intro: store_write_outside)

lemma manifest_write_outside:
  "snapshot_pattern i \<Longrightarrow> touches (- managed_area) (write_file_atomic (manifest_path admin_vault i) c m)"
  using manifest_path_eq [OF admin_vault_ok(1)] snapshot_plain vault_dirs(4) [OF admin_vault_ok(1)]
  by (auto intro: store_write_outside)

lemma ensure_object_outside: "touches (- managed_area) (ensure_object env admin_vault h c)"
  unfolding ensure_object_def
  by (cases "sha_pattern h") (auto intro!: frame object_write_outside split: sum.splits)

lemma touches_read_artifact [frame]: "touches P (read_artifact env v spec)"
  unfolding read_artifact_def Let_def by (intro frame)

lemma capture_loop_outside: "touches (- managed_area) (capture_loop env admin_vault specs seen recs acc)"
proof (induction specs arbitrary: seen recs acc)
  case Nil
  show ?case by (simp add: touches_def)
next
  case (Cons spec specs)
  then show ?case by (auto intro!: frame ensure_object_outside split: prod.splits)
qed

lemma ensure_layout_outside: "touches (- managed_area) (ensure_layout admin_vault)"
proof -
  have "set (ancestors_from [slash] (elems d)) \<subseteq> - managed_area"
    if "d = v_root admin_vault \<or> d = objects_dir admin_vault \<or> d = snapshots_dir admin_vault" for d
  proof -
    have a: "ancestors_from [slash] (elems (v_root admin_vault)) =
          [''/opt'', ''/opt/var'', ''/opt/var/lib'', ''/opt/var/lib/routerforge'', config_vault_root]"
      "ancestors_from [slash] (elems (objects_dir admin_vault)) =
          [''/opt'', ''/opt/var'', ''/opt/var/lib'', ''/opt/var/lib/routerforge'', config_vault_root, objects_dir admin_vault]"
      "ancestors_from [slash] (elems (snapshots_dir admin_vault)) =
          [''/opt'', ''/opt/var'', ''/opt/var/lib'', ''/opt/var/lib/routerforge'', config_vault_root, snapshots_dir admin_vault]"
      by code_simp+
    have "''/opt'' \<notin> managed_area" "''/opt/var'' \<notin> managed_area" "''/opt/var/lib'' \<notin> managed_area"
      "''/opt/var/lib/routerforge'' \<notin> managed_area"
      by (auto simp: managed_area_def under_def has_prefix_iff managed_root_def dir_prefix_def slash_def)
    moreover have "config_vault_root \<notin> managed_area" "objects_dir admin_vault \<notin> managed_area"
      "snapshots_dir admin_vault \<notin> managed_area"
      using store_outside by (auto simp: store_dirs under_def has_prefix_iff)
    ultimately show ?thesis using that a by auto
  qed
  then show ?thesis unfolding ensure_layout_def by (intro touches_iter_set touches_mkdir_all) auto
qed

lemma retains_outside: "retains env admin_vault preserve s s' \<Longrightarrow> same_except (- managed_area) s s'"
  using store_paths store_outside by (fastforce simp: same_except_def retains_def removable_def)

lemma gc_outside: "gc_objects env admin_vault s = (r, s') \<Longrightarrow> node_at s (snapshots_dir admin_vault) \<noteq> None \<Longrightarrow>
    same_except (- managed_area) s s'"
  by (rule retains_outside, rule gc_retains [OF admin_vault_ok(1)])

lemma manifest_not_dir: "snapshot_pattern i \<Longrightarrow> manifest_path admin_vault i \<noteq> snapshots_dir admin_vault"
  using manifest_path_eq(1) [OF admin_vault_ok(1)] by simp

text \<open>Publishing the manifest, retention, and taking the manifest back when retention fails.\<close>

lemma publish_outside:
  assumes i: "snapshot_pattern i" and dir: "node_at s (snapshots_dir admin_vault) \<noteq> None"
    and run: "io_bind (write_file_atomic (manifest_path admin_vault i) payload 384) (\<lambda>_.
       io_try (prune env admin_vault i) (\<lambda>res.
         case res of
           Inl e \<Rightarrow> io_try (fs_remove (manifest_path admin_vault i)) (\<lambda>_.
                      io_try (gc_objects env admin_vault) (\<lambda>_. io_fail e))
         | Inr _ \<Rightarrow> io_return m)) s = (r, s')"
  shows "same_except (- managed_area) s s'"
proof -
  let ?p = "manifest_path admin_vault i" and ?A = "- managed_area"
  obtain r1 s1 where 1: "write_file_atomic ?p payload 384 s = (r1, s1)" by fastforce
  have a1: "same_except ?A s s1" by (rule touchesD [OF manifest_write_outside [OF i] 1])
  have dir1: "node_at s1 (snapshots_dir admin_vault) \<noteq> None"
    using wfa.elsewhere [OF manifest_path_eq(2) [OF admin_vault_ok(1) i] 1] manifest_not_dir [OF i] dir by metis
  obtain r2 s2 where 2: "prune env admin_vault i s1 = (r2, s2)" by fastforce
  note kept = prune_retains [OF admin_vault_ok(1) 2 dir1]
  have a2: "same_except ?A s1 s2" by (rule retains_outside [OF kept])
  have dir2: "node_at s2 (snapshots_dir admin_vault) \<noteq> None"
    using retains_dirs(2) [OF admin_vault_ok(1) kept] dir1 by simp
  obtain r3 s3 where 3: "fs_remove ?p s2 = (r3, s3)" by fastforce
  have f3: "same_except {?p} s2 s3" by (rule touchesD [OF touches_changes(4) 3]) simp
  have p: "?p \<notin> managed_area" using store_paths(2) [OF i] store_outside by simp
  have a3: "same_except ?A s2 s3" by (rule same_except_mono [OF f3]) (use p in simp)
  have dir3: "node_at s3 (snapshots_dir admin_vault) \<noteq> None"
    using f3 dir2 manifest_not_dir [OF i] by (simp add: same_except_def)
  obtain r4 s4 where 4: "gc_objects env admin_vault s3 = (r4, s4)" by fastforce
  have a4: "same_except ?A s3 s4" by (rule gc_outside [OF 4 dir3])
  have a12: "same_except ?A s s2" by (rule same_except_trans [OF a1 a2])
  have a14: "same_except ?A s s4" by (rule same_except_trans [OF a12 same_except_trans [OF a3 a4]])
  have "s' = s1 \<or> s' = s2 \<or> s' = s4"
    using run 1 2 3 4 by (auto simp: io_bind_def io_try_def split: sum.splits)
  then show ?thesis using a1 a12 a14 by blast
qed

lemma capture_outside:
  assumes "0 \<le> unix_nano now" and "suffix_ok rnd" and run: "capture env now rnd admin_vault req s = (r, s')"
  shows "same_except (- managed_area) s s'"
proof -
  let ?A = "- managed_area"
  obtain r1 s1 where 1: "ensure_layout admin_vault s = (r1, s1)" by fastforce
  obtain r2 s2 where 2: "capture_loop env admin_vault (cr_artifacts req) [] [] 0 s1 = (r2, s2)" by fastforce
  have a1: "same_except ?A s s1" by (rule touchesD [OF ensure_layout_outside 1])
  have a2: "same_except ?A s s2" by (rule same_except_trans [OF a1 touchesD [OF capture_loop_outside 2]])
  show ?thesis
  proof (cases "s' = s \<or> s' = s1 \<or> s' = s2")
    case True
    then show ?thesis using a1 a2 by auto
  next
    case False
    then obtain u recs acc i m payload where r: "r1 = Inr u" "r2 = Inr (recs, acc)" "new_snapshot_id rnd now = Inr i"
      and rest: "io_bind (write_file_atomic (manifest_path admin_vault i) payload 384) (\<lambda>_.
         io_try (prune env admin_vault i) (\<lambda>res.
           case res of
             Inl e \<Rightarrow> io_try (fs_remove (manifest_path admin_vault i)) (\<lambda>_.
                        io_try (gc_objects env admin_vault) (\<lambda>_. io_fail e))
           | Inr _ \<Rightarrow> io_return m)) s2 = (r, s')"
      using run 1 2
      unfolding capture_def io_bind_def [of "ensure_layout admin_vault"] io_bind_def [of "capture_loop _ _ _ _ _ _"] Let_def
      by (auto split: if_splits sum.splits)
    have "node_at s1 (snapshots_dir admin_vault) \<noteq> None"
      using ensure_layout_exists(2) [OF admin_vault_ok(1)] 1 r(1) by auto
    then have "node_at s2 (snapshots_dir admin_vault) \<noteq> None"
      using capture_loop_result [OF admin_vault_ok(1)] 2 r(2) admin_vault_ok(2) by (fastforce simp: extends_def)
    from publish_outside [OF new_snapshot_id_pattern [OF assms(1,2) r(3)] this rest]
    show ?thesis by (rule same_except_trans [OF a2])
  qed
qed

subsection \<open>A capture of the discovered files is complete\<close>

lemma read_artifact_source:
  "read_artifact env v spec s = (Inr (a, c), s') \<Longrightarrow> ar_source a = clean (trim_space (as_path spec))"
  unfolding read_artifact_def
  by (auto simp: io_bind_def Let_def split: if_splits prod.splits sum.splits)

definition captured :: "vault_env \<Rightarrow> os \<Rightarrow> artifact_spec \<Rightarrow> artifact \<Rightarrow> bool" where
  "captured env s spec a \<longleftrightarrow> ar_source a = clean (trim_space (as_path spec)) \<and>
     (\<exists>k c. node_at s (ar_source a) = Some (Regular k c) \<and> ar_sha a = ve_digest env c)"

lemma capture_loop_captured:
  "capture_loop env admin_vault specs seen recs acc s = (Inr (out, acc'), s') \<Longrightarrow>
   \<forall>spec\<in>set specs. clean (trim_space (as_path spec)) \<in> managed_area \<Longrightarrow>
   same_except (- managed_area) s0 s \<Longrightarrow>
   \<exists>new. out = recs @ new \<and> list_all2 (captured env s0) specs new"
proof (induction specs arbitrary: seen recs acc s)
  case Nil
  then show ?case by simp
next
  case (Cons spec specs)
  obtain a c s1 s2 where 1: "read_artifact env admin_vault spec s = (Inr (a, c), s1)"
    and 2: "ensure_object env admin_vault (ar_sha a) c s1 = (Inr (), s2)"
    and 3: "capture_loop env admin_vault specs (as_id spec # seen) (recs @ [a]) (acc + ar_size a) s2 = (Inr (out, acc'), s')"
    using Cons.prems(1) by (auto simp: io_bind_def io_wrap_def split: if_splits prod.splits sum.splits)
  note src = read_artifact_source [OF 1]
  have "same_except (- managed_area) s s1" using read_artifact_result(1) [OF 1] by (simp add: same_except_def)
  then have s2: "same_except (- managed_area) s0 s2"
    using touchesD [OF ensure_object_outside 2] Cons.prems(3) same_except_trans by blast
  obtain k where k: "node_at s (ar_source a) = Some (Regular k c)" "ar_sha a = ve_digest env c"
    using read_artifact_result(2) [OF 1] by auto
  moreover have "node_at s (ar_source a) = node_at s0 (ar_source a)"
    using Cons.prems(2,3) src by (simp add: same_except_def)
  ultimately have "\<exists>k c. node_at s0 (ar_source a) = Some (Regular k c) \<and> ar_sha a = ve_digest env c"
    by (intro exI [of _ k] exI [of _ c]) simp
  then have "captured env s0 spec a" using src by (simp only: captured_def)
  moreover obtain new where "out = (recs @ [a]) @ new" "list_all2 (captured env s0) specs new"
    using Cons.IH [OF 3 _ s2] Cons.prems(2) by auto
  ultimately show ?case by (intro exI [of _ "a # new"]) simp
qed

text \<open>The stages of a capture that succeeded.\<close>

lemma capture_success:
  assumes "capture env now rnd v req s = (Inr m, s')"
  obtains s1 recs acc s2 payload s3 where "ensure_layout v s = (Inr (), s1)"
    "capture_loop env v (cr_artifacts req) [] [] 0 s1 = (Inr (recs, acc), s2)"
    "new_snapshot_id rnd now = Inr (sn_id m)" "sn_artifacts m = sort_by (\<lambda>a b. ar_id a < ar_id b) recs"
    "write_file_atomic (manifest_path v (sn_id m)) payload 384 s2 = (Inr (), s3)"
    "prune env v (sn_id m) s3 = (Inr (), s')"
  using assms
  by (auto simp: capture_def io_bind_def io_try_def Let_def split: if_splits prod.splits sum.splits)

text \<open>Names that begin or end in white space are the exception: the store trims the path.\<close>

definition tidy_names :: "os \<Rightarrow> bool" where
  "tidy_names s \<longleftrightarrow> (\<forall>p\<in>dom (managed_content s). trim_space p = p)"

lemma managed_content_path:
  "managed_content s p = Some c \<Longrightarrow> clean p = p \<and> p \<in> managed_area \<and> under managed_root p"
  using reached_path [of s p] by (auto simp: managed_content_def managed_area_def split: if_splits)

lemma capture_complete:
  assumes disc: "discover_artifacts env s0 = (Inr (ms, specs), s)" and tidy: "tidy_names s0"
    and run: "capture env now rnd admin_vault req s = (Inr m, s')" and req: "cr_artifacts req = specs"
  shows "snapshot_sums m = managed_sums env s0"
proof -
  obtain s1 recs acc s2 payload s3 where 1: "ensure_layout admin_vault s = (Inr (), s1)"
    and 2: "capture_loop env admin_vault specs [] [] 0 s1 = (Inr (recs, acc), s2)"
    and m: "sn_artifacts m = sort_by (\<lambda>a b. ar_id a < ar_id b) recs"
    using capture_success [OF run] req by metis
  have paths: "as_path ` set specs = dom (managed_content s0)"
  proof -
    have "as_path ` set specs = as_path ` spec_of ` set ms"
      using discover_result [OF disc] by (metis set_mset_mset set_map)
    then show ?thesis using discover_result [OF disc] by (simp add: image_image spec_of_def)
  qed
  have tidy_spec: "clean (trim_space (as_path spec)) = as_path spec" "as_path spec \<in> managed_area"
    if "spec \<in> set specs" for spec
  proof -
    have "as_path spec \<in> dom (managed_content s0)" using that paths by blast
    then show "clean (trim_space (as_path spec)) = as_path spec" "as_path spec \<in> managed_area"
      using tidy managed_content_path by (auto simp: tidy_names_def)
  qed
  have "same_except (- managed_area) s0 s1"
    using discover_same [OF disc] touchesD [OF ensure_layout_outside 1] by (simp add: same_except_def)
  then have cap: "list_all2 (captured env s0) specs recs"
    using capture_loop_captured [OF 2, of s0] tidy_spec by simp
  have one: "(ar_source a, ar_sha a) \<in> managed_sums env s0 \<and> ar_source a = as_path spec"
    if cs: "captured env s0 spec a" "spec \<in> set specs" for spec a
  proof -
    have src: "ar_source a = as_path spec" using cs tidy_spec by (simp add: captured_def)
    then obtain c where c: "managed_content s0 (ar_source a) = Some c" using cs(2) paths by blast
    then show ?thesis using cs(1) src managed_node [OF c] by (auto simp: captured_def managed_sums_def)
  qed
  have of_rec: "\<exists>spec\<in>set specs. captured env s0 spec a" if "a \<in> set recs" for a
    using cap that by (metis in_set_conv_nth list_all2_conv_all_nth)
  have of_spec: "\<exists>a\<in>set recs. captured env s0 spec a" if "spec \<in> set specs" for spec
    using cap that by (metis in_set_conv_nth list_all2_conv_all_nth)
  have "snapshot_sums m = (\<lambda>a. (ar_source a, ar_sha a)) ` set recs" by (simp add: snapshot_sums_def m)
  also have "\<dots> = managed_sums env s0"
  proof
    show "(\<lambda>a. (ar_source a, ar_sha a)) ` set recs \<subseteq> managed_sums env s0"
    proof
      fix x
      assume "x \<in> (\<lambda>a. (ar_source a, ar_sha a)) ` set recs"
      then obtain a where a: "x = (ar_source a, ar_sha a)" "a \<in> set recs" by blast
      then show "x \<in> managed_sums env s0" using of_rec [OF a(2)] one by blast
    qed
    show "managed_sums env s0 \<subseteq> (\<lambda>a. (ar_source a, ar_sha a)) ` set recs"
    proof
      fix x
      assume x: "x \<in> managed_sums env s0"
      then have "fst x \<in> as_path ` set specs" using paths by (auto simp: managed_sums_def)
      then obtain spec where spec: "fst x = as_path spec" "spec \<in> set specs" by blast
      then obtain a where a: "fst x = as_path spec" "captured env s0 spec a" "spec \<in> set specs" "a \<in> set recs"
        using of_spec by blast
      then have "(fst x, ar_sha a) \<in> managed_sums env s0" using one [OF a(2,3)] by metis
      then have "snd x = ar_sha a" using managed_sums_fun [of "fst x" "snd x"] x by simp
      then have "x = (ar_source a, ar_sha a)" using one [OF a(2,3)] a(1) by (metis prod.collapse)
      then show "x \<in> (\<lambda>a. (ar_source a, ar_sha a)) ` set recs" using a(4) by blast
    qed
  qed
  finally show ?thesis .
qed

text \<open>The manifests of other snapshots stay as they were or go.\<close>

lemma capture_keeps_manifests:
  assumes "0 \<le> unix_nano now" and "suffix_ok rnd" and run: "capture env now rnd admin_vault req s = (Inr m, s')"
    and j: "snapshot_pattern j" "j \<noteq> sn_id m" "node_at s (manifest_path admin_vault j) = Some n"
  shows "node_at s' (manifest_path admin_vault j) = Some n \<or> node_at s' (manifest_path admin_vault j) = None"
proof -
  obtain s1 recs acc s2 payload s3 where 1: "ensure_layout admin_vault s = (Inr (), s1)"
    and 2: "capture_loop env admin_vault (cr_artifacts req) [] [] 0 s1 = (Inr (recs, acc), s2)"
    and i: "new_snapshot_id rnd now = Inr (sn_id m)"
    and 3: "write_file_atomic (manifest_path admin_vault (sn_id m)) payload 384 s2 = (Inr (), s3)"
    and 4: "prune env admin_vault (sn_id m) s3 = (Inr (), s')"
    using capture_success [OF run] by metis
  let ?p = "manifest_path admin_vault j"
  note ok = admin_vault_ok(1)
  have sp: "snapshot_pattern (sn_id m)" by (rule new_snapshot_id_pattern [OF assms(1,2) i])
  have "node_at s1 ?p = Some n" using ensure_layout_result [OF 1] j(3) by (metis option.distinct(1))
  then have n2: "node_at s2 ?p = Some n"
    using capture_loop_result [OF ok 2] admin_vault_ok(2) by (auto simp: extends_def)
  have "?p \<noteq> manifest_path admin_vault (sn_id m)" using vault_paths_distinct(4) [OF ok j(1) sp] j(2) by simp
  then have n3: "node_at s3 ?p = Some n"
    using wfa.elsewhere [OF manifest_path_eq(2) [OF ok sp] 3, of ?p] n2 by simp
  have "node_at s1 (snapshots_dir admin_vault) \<noteq> None" by (rule ensure_layout_exists(2) [OF ok 1])
  then have "node_at s2 (snapshots_dir admin_vault) \<noteq> None"
    using capture_loop_result [OF ok 2] admin_vault_ok(2) by (auto simp: extends_def)
  then have "node_at s3 (snapshots_dir admin_vault) \<noteq> None"
    using wfa.elsewhere [OF manifest_path_eq(2) [OF ok sp] 3] manifest_not_dir [OF sp] by metis
  from prune_retains [OF ok 4 this] show ?thesis using n3 by (metis retains_def)
qed

subsection \<open>Every change of the managed files is preceded by a capture\<close>

lemma join_not_abs: "\<forall>e\<in>set es. e \<noteq> [] \<and> slash \<notin> set e \<Longrightarrow> \<not> is_abs (join [slash] es)"
proof (cases es)
  case (Cons e fs)
  assume "\<forall>e\<in>set es. e \<noteq> [] \<and> slash \<notin> set e"
  then show ?thesis using Cons by (cases e; cases fs) (auto simp: is_abs_def)
qed (simp add: is_abs_def)

lemma clean_abs_iff: "is_abs (clean s) \<longleftrightarrow> is_abs s"
proof (cases "is_abs s")
  case False
  have "\<forall>e\<in>set (fold (clean_step False) ps st). e \<noteq> [] \<and> slash \<notin> set e"
    if "\<forall>e\<in>set st. e \<noteq> [] \<and> slash \<notin> set e" "\<forall>e\<in>set ps. slash \<notin> set e" for ps st
    using that
  proof (induction ps arbitrary: st)
    case (Cons p ps)
    have "\<forall>e\<in>set (clean_step False p st). e \<noteq> [] \<and> slash \<notin> set e"
      using Cons.prems by (cases st) (auto split: if_splits)
    from Cons.IH [OF this] Cons.prems(2) show ?case by (simp del: clean_step.simps)
  qed simp
  from this [of "[]" "split_char slash s"]
  have "\<forall>e\<in>set (clean_elems False (split_char slash s)). e \<noteq> [] \<and> slash \<notin> set e"
    by (auto simp: clean_elems_def dest: split_char_no_sep)
  then show ?thesis
    using False join_not_abs [of "clean_elems False (split_char slash s)"]
    by (simp add: clean_def Let_def) (simp add: is_abs_def slash_def)
qed simp

lemma path_rel_not_abs: "is_abs a \<Longrightarrow> is_abs b \<Longrightarrow> path_rel a b = Inr rel \<Longrightarrow> \<not> is_abs rel"
proof -
  assume ab: "is_abs a" "is_abs b" "path_rel a b = Inr rel"
  obtain bs ts where st: "strip_common (elems (clean a)) (elems (clean b)) = (bs, ts)" by fastforce
  have "\<forall>e\<in>set (map (\<lambda>_. ''..'') bs @ ts). e \<noteq> [] \<and> slash \<notin> set e"
    using strip_common_subset [OF st] plain_elems_clean [OF ab(2)]
    by (auto simp: list_all_iff plain_elem_def slash_def)
  then show ?thesis
    using path_rel_abs [OF ab(1,2)] ab(3) st join_not_abs by (auto simp: is_abs_def slash_def split: if_splits)
qed

text \<open>The state \<open>s\<close> can be brought back: a stored snapshot lists exactly the managed
  files of \<open>s\<close>, and its objects are in the store.\<close>

definition recoverable :: "vault_env \<Rightarrow> os \<Rightarrow> os \<Rightarrow> string \<Rightarrow> bool" where
  "recoverable env s s' i \<longleftrightarrow>
     (\<exists>m. stored env admin_vault (node_at s') m \<and> sn_id m = i \<and> snapshot_sums m = managed_sums env s \<and>
        (\<forall>a\<in>set (sn_artifacts m). object_ok env admin_vault s' (ar_sha a)))"

lemma within_managed_iff:
  "within_managed managed_root p \<longleftrightarrow> is_abs (trim_space p) \<and> elem_prefix managed_root (trim_space p)"
proof (cases "is_abs (trim_space p)")
  case True
  have "path_rel managed_root (clean (trim_space p)) = path_rel managed_root (trim_space p)"
    by (simp add: path_rel_def clean_idem_abs [OF True])
  then have "within_managed managed_root p \<longleftrightarrow> path_within_root managed_root (trim_space p)"
    using True path_rel_not_abs [OF managed_root_elems(2) True]
    unfolding within_managed_def Let_def managed_root_elems(3,7) path_within_root_def
    by (auto simp: managed_root_elems(2) split: sum.splits)
  then show ?thesis using True within_root_iff [OF managed_root_elems(2) True] by simp
next
  case False
  then show ?thesis by (simp add: within_managed_def Let_def clean_abs_iff)
qed

lemma capture_recoverable:
  assumes clock: "0 \<le> unix_nano now" and rnd: "suffix_ok rnd" and codec: "codec_ok env" and tidy: "tidy_names s"
    and disc: "discover_artifacts env s = (Inr (ms, specs), s1)"
    and run: "capture env now rnd admin_vault req s1 = (Inr m, s')" and req: "cr_artifacts req = specs"
  shows "stored env admin_vault (node_at s') m" "\<forall>a\<in>set (sn_artifacts m). object_ok env admin_vault s' (ar_sha a)"
    "snapshot_sums m = managed_sums env s" "\<forall>p\<in>managed_area. node_at s' p = node_at s p"
    "recoverable env s s' (sn_id m)"
proof -
  note cap = capture_stores_complete_snapshot [OF admin_vault_ok(1) codec clock rnd run admin_vault_ok(2)]
  show st: "stored env admin_vault (node_at s') m" and ob: "\<forall>a\<in>set (sn_artifacts m). object_ok env admin_vault s' (ar_sha a)"
    using cap by blast+
  show sums: "snapshot_sums m = managed_sums env s" by (rule capture_complete [OF disc tidy run req])
  show "\<forall>p\<in>managed_area. node_at s' p = node_at s p"
    using capture_outside [OF clock rnd run] discover_same [OF disc] by (simp add: same_except_def)
  show "recoverable env s s' (sn_id m)" using st ob sums by (auto simp: recoverable_def)
qed


subsection \<open>What the handlers promise\<close>

text \<open>Looking changes nothing; a preview announces a change exactly when the managed files differ
  from the stored snapshot; a capture answered 200 can be gone back to.\<close>

lemma looking_changes_nothing:
  "node_at (snd (handle_get env url s)) = node_at s"
  "node_at (snd (handle_diff env query s)) = node_at s"
  "node_at (snd (handle_preview env query s)) = node_at s"
proof -
  have d: "node_at s1 = node_at s" if "build_diff env i s = (r, s1)" for i r s1
    using touchesD [OF build_diff_frame [of "{}"] that] by (auto simp: same_except_def)
  show "node_at (snd (handle_get env url s)) = node_at s"
    by (auto simp: handle_get_def new_admin_vault_eq Let_def dest: vault_get_result split: prod.splits sum.splits)
  show "node_at (snd (handle_diff env query s)) = node_at s" "node_at (snd (handle_preview env query s)) = node_at s"
    by (auto simp: handle_diff_def handle_preview_def dest: d split: prod.splits sum.splits)
qed

lemma preview_exact:
  assumes "handle_preview env query s = ((200, PreviewAnswer d), s')"
  shows "\<exists>m. stored env admin_vault (node_at s) m \<and> sn_id m = trim_space query \<and>
    (vd_changed d \<longleftrightarrow> snapshot_sums m \<noteq> managed_sums env s)"
proof -
  have "build_diff env (trim_space query) s = (Inr d, s')"
    using assms by (auto simp: handle_preview_def vault_failure_def split: prod.splits sum.splits)
  then show ?thesis using build_diff_result by blast
qed

lemma capture_handler_saves:
  assumes "0 \<le> unix_nano now" "suffix_ok rnd" "codec_ok env" "tidy_names s"
    and "handle_capture env now rnd body s = ((200, CapturedAnswer m n), s')"
  shows "recoverable env s s' (sn_id m)"
proof -
  obtain ms specs s1 req where disc: "discover_artifacts env s = (Inr (ms, specs), s1)"
      and cap: "capture env now rnd admin_vault req s1 = (Inr m, s')" "cr_artifacts req = specs"
    using assms(5)
    by (auto simp: handle_capture_def new_admin_vault_eq Let_def vault_failure_def split: sum.splits prod.splits if_splits)
  show ?thesis by (rule capture_recoverable(5) [OF assms(1-4) disc cap])
qed

text \<open>For evaluation: the error text is computed only where it is needed.\<close>

lemma read_artifact_eval [code]:
  "read_artifact env v spec =
     (if \<not> is_abs (clean (trim_space (as_path spec))) then io_fail (Msg ''source path must be absolute'')
      else if \<not> vault_allowed v (clean (trim_space (as_path spec)))
      then io_fail (Msg ''source path is outside allowed roots'')
      else io_bind (fs_eval_symlinks (clean (trim_space (as_path spec)))) (\<lambda>resolved.
        if clean resolved \<noteq> clean (trim_space (as_path spec)) then io_fail (Msg ''source path must not contain symlinks'')
        else io_bind (fs_lstat (clean (trim_space (as_path spec)))) (\<lambda>info.
          if \<not> is_regular info then io_fail (Msg ''source must be a regular non-symlink file'')
          else if int (node_size info) > v_max_artifact v
          then io_fail (Msg (''source exceeds '' @ itoa (v_max_artifact v) @ '' bytes''))
          else io_bind (fs_read_file (clean (trim_space (as_path spec)))) (\<lambda>whole.
            if int (length (limited (v_max_artifact v + 1) whole)) > v_max_artifact v
            then io_fail (Msg (''source exceeds '' @ itoa (v_max_artifact v) @ '' bytes''))
            else io_return (\<lparr>ar_id = as_id spec, ar_source = clean (trim_space (as_path spec)),
                             ar_sha = ve_digest env (limited (v_max_artifact v + 1) whole),
                             ar_size = int (length (limited (v_max_artifact v + 1) whole)), ar_mode = node_perm info,
                             ar_modified = ve_mtime env (clean (trim_space (as_path spec)))\<rparr>,
                            limited (v_max_artifact v + 1) whole)))))"
  unfolding read_artifact_def Let_def ..

definition prechange_example :: "snapshot" where
  "prechange_example = \<lparr>sn_schema = 1, sn_id = ''cfg-5-00000000000000ff'', sn_component = ''admin'',
     sn_reason = ''automatic pre-change snapshot: write'', sn_transaction = ''auto-prechange-5'',
     sn_created = sample_now,
     sn_artifacts = [\<lparr>ar_id = ''file-0000000000000000'', ar_source = ''/opt/etc/routerforge/a'',
        ar_sha = sample_digest ''x'', ar_size = 1, ar_mode = 384, ar_modified = 7\<rparr>], sn_total = 1\<rparr>"

definition prechange_env :: "vault_env" where
  "prechange_env = \<lparr>ve_digest = sample_digest,
     ve_enc = (\<lambda>m. if m = prechange_example then Inr ''m'' else Inl ErrIO),
     ve_dec = (\<lambda>c. if c = ''m'' @ [CHR 0x0A] then Inr prechange_example else Inl ErrIO),
     ve_enc_state = (\<lambda>_. Inl ErrIO), ve_dec_state = (\<lambda>_. Inl ErrIO), ve_mtime = (\<lambda>_. 7)\<rparr>"

definition prechange_os :: "os" where
  "prechange_os = \<lparr>tree = [(''/opt'', Directory 493), (''/opt/etc'', Directory 493), (managed_root, Directory 493),
      (''/opt/etc/routerforge/a'', Regular 384 ''x'')],
    faults = [], entropy = [''1'', ''2''], realpath = Inr\<rparr>"

definition prechange_run :: "(go_error + prechange) \<times> os" where
  "prechange_run = capture_prechange prechange_env sample_now (Inr ''00000000000000ff'') '' write '' [''/opt/etc/routerforge/a''] prechange_os"

lemma prechange_run_result: "fst prechange_run = Inr \<lparr>pc_protected = True, pc_snapshot = ''cfg-5-00000000000000ff'',
    pc_transaction = ''auto-prechange-5'', pc_artifacts = 1, pc_empty = False\<rparr>"
  by code_simp

lemma tidy_by_list:
  "list_all (\<lambda>p. trim_space p = p) (filter (under managed_root) (map fst (tree s))) \<Longrightarrow> tidy_names s"
proof -
  assume a: "list_all (\<lambda>p. trim_space p = p) (filter (under managed_root) (map fst (tree s)))"
  have "p \<in> set (filter (under managed_root) (map fst (tree s)))" if p: "managed_content s p = Some c" for p c
  proof -
    obtain k where "node_at s p = Some (Regular k c)" using managed_node [OF p] by blast
    then have "p \<in> fst ` set (tree s)" by (force simp: node_at_def dest: map_of_SomeD)
    then show ?thesis using managed_content_path [OF p] by simp
  qed
  then show "tidy_names s" using a by (fastforce simp: tidy_names_def list_all_iff)
qed


end
