(* ===== verification/Vault_Restore.thy ===== *)
theory Vault_Restore
  imports Vault_Admin Transaction
begin

text \<open>
  \<^verbatim>\<open>components/control/maintenance_config_vault_restore.go\<close>: bringing the managed files back to a
  snapshot as a guarded transaction: check the target, capture the present files, verify
  the objects, write and remove files, compare what is on disk with the snapshot, and go back to the captured
  files when anything after the first write fails. One instant \<open>now\<close> stands for the readings of the
  clock during a request.
\<close>

record restore_body =
  rb_snapshot :: string
  rb_confirm_snapshot :: string
  rb_transaction :: string
  rb_confirm :: string

record restore_outcome =
  ro_ok :: bool
  ro_target :: string
  ro_safety :: string
  ro_tx :: manifest
  ro_rolled_back :: bool
  ro_rollback_verified :: bool
  ro_readback_verified :: bool
  ro_probe :: string
  ro_error :: string

datatype restore_answer = RestoreError string | RestoreAnswer restore_outcome

subsection \<open>Checks\<close>

definition validate_restore_path :: "string \<Rightarrow> string \<Rightarrow> go_error + string" where
  "validate_restore_path root0 path0 =
     (let root = clean (trim_space root0); path = clean (trim_space path0) in
      if \<not> is_abs root \<or> \<not> is_abs path then Inl (Msg ''restore paths must be absolute'')
      else (case path_rel root path of
              Inl e \<Rightarrow> Inl e
            | Inr rel \<Rightarrow>
                if rel = ''.'' \<or> rel = ''..'' \<or> has_prefix rel (''..'' @ [slash])
                then Inl (Msg ''restore path is outside managed root'')
                else Inr path))"

fun validate_artifacts :: "string \<Rightarrow> string list \<Rightarrow> string list \<Rightarrow> artifact list \<Rightarrow> go_error option" where
  "validate_artifacts root ids paths [] = None"
| "validate_artifacts root ids paths (a # as) =
     (if ar_id a = [] then Some (Msg ''snapshot contains empty artifact id'')
      else if ar_id a \<in> set ids then Some (Msg (''duplicate artifact id '' @ quoted (ar_id a)))
      else
        (case validate_restore_path root (ar_source a) of
           Inl e \<Rightarrow> Some (Wrap (''artifact '' @ ar_id a @ '': '') e)
         | Inr cl \<Rightarrow>
             if cl \<noteq> ar_source a then Some (Msg (''artifact '' @ ar_id a @ '' source path is not canonical''))
             else if cl \<in> set paths then Some (Msg (''duplicate artifact path '' @ quoted cl))
             else validate_artifacts root (ar_id a # ids) (cl # paths) as))"

definition validate_restore_manifest :: "string \<Rightarrow> snapshot \<Rightarrow> go_error option" where
  "validate_restore_manifest root m =
     (if sn_schema m \<noteq> schema_version then Some (Msg ''unsupported config vault schema'')
      else if sn_component m \<noteq> ''admin'' then Some (Msg ''snapshot component must be admin'')
      else if int (length (sn_artifacts m)) > max_files
      then Some (Msg (''snapshot contains more than '' @ itoa max_files @ '' artifacts''))
      else validate_artifacts root [] [] (sn_artifacts m))"

fun validate_objects :: "vault_env \<Rightarrow> vault \<Rightarrow> string \<Rightarrow> artifact list \<Rightarrow> unit io" where
  "validate_objects env v i [] = io_return ()"
| "validate_objects env v i (a # as) =
     io_bind (io_wrap (''artifact '' @ ar_id a @ '': '') (vault_read_artifact env v i (ar_id a))) (\<lambda>(rec, content).
       if ar_source rec \<noteq> ar_source a \<or> ar_sha rec \<noteq> ar_sha a \<or> int (length content) \<noteq> ar_size a
       then io_fail (Msg (''artifact '' @ ar_id a @ '' manifest/object mismatch''))
       else validate_objects env v i as)"

definition validate_restore_content :: "vault_env \<Rightarrow> vault \<Rightarrow> string \<Rightarrow> snapshot \<Rightarrow> unit io" where
  "validate_restore_content env v root m =
     (case validate_restore_manifest root m of
        Some e \<Rightarrow> io_fail e
      | None \<Rightarrow> validate_objects env v (sn_id m) (sn_artifacts m))"

subsection \<open>Writing a snapshot back\<close>

fun ensure_parts :: "string \<Rightarrow> string list \<Rightarrow> unit io" where
  "ensure_parts current [] = io_return ()"
| "ensure_parts current (part # parts) =
     (let here = path_join2 current part in
      io_bind
        (io_try (fs_lstat here) (\<lambda>res.
           case res of
             Inl e \<Rightarrow> if is_not_exist e then io_bind (fs_mkdir here 448) (\<lambda>_. fs_lstat here) else io_fail e
           | Inr info \<Rightarrow> io_return info))
        (\<lambda>info.
           if \<not> is_dir info then io_fail (Msg (''restore parent is not a safe directory: '' @ here))
           else ensure_parts here parts))"

definition ensure_parent :: "string \<Rightarrow> string \<Rightarrow> unit io" where
  "ensure_parent root target =
     (case validate_restore_path root target of
        Inl e \<Rightarrow> io_fail e
      | Inr cl \<Rightarrow>
          io_bind (fs_lstat root) (\<lambda>info.
            if \<not> is_dir info then io_fail (Msg ''managed root must be a non-symlink directory'')
            else (case path_rel root (path_dir cl) of
                    Inl e \<Rightarrow> io_fail e
                  | Inr rel \<Rightarrow> if rel = ''.'' then io_return () else ensure_parts root (split_char slash rel))))"

definition check_target :: "string \<Rightarrow> unit io" where
  "check_target p =
     io_try (fs_lstat p) (\<lambda>res.
       case res of
         Inr info \<Rightarrow> if \<not> is_regular info
                     then io_fail (Msg (''restore target is not a regular non-symlink file: '' @ p)) else io_return ()
       | Inl e \<Rightarrow> if is_not_exist e then io_return () else io_fail e)"

definition restore_mode :: "nat \<Rightarrow> nat" where
  "restore_mode m = (if m mod 512 = 0 then 384 else m mod 512)"

fun write_artifacts :: "vault_env \<Rightarrow> vault \<Rightarrow> string \<Rightarrow> string \<Rightarrow> artifact list \<Rightarrow> unit io" where
  "write_artifacts env v root i [] = io_return ()"
| "write_artifacts env v root i (a # as) =
     io_bind (vault_read_artifact env v i (ar_id a)) (\<lambda>(rec, content).
     io_bind (ensure_parent root (ar_source rec)) (\<lambda>_.
     io_bind (check_target (ar_source rec)) (\<lambda>_.
     io_bind (write_file_atomic (ar_source rec) content (restore_mode (ar_mode rec))) (\<lambda>_.
       write_artifacts env v root i as))))"

fun remove_others :: "string list \<Rightarrow> managed_file list \<Rightarrow> unit io" where
  "remove_others targets [] = io_return ()"
| "remove_others targets (m # ms) =
     (if mg_path m \<in> set targets then remove_others targets ms
      else
        io_bind (fs_lstat (mg_path m)) (\<lambda>info.
          if \<not> is_regular info then io_fail (Msg (''refusing to remove non-regular managed path: '' @ mg_path m))
          else io_bind (fs_remove (mg_path m)) (\<lambda>_. remove_others targets ms)))"

definition apply_snapshot :: "vault_env \<Rightarrow> vault \<Rightarrow> string \<Rightarrow> snapshot \<Rightarrow> unit io" where
  "apply_snapshot env v root m =
     io_bind (validate_restore_content env v root m) (\<lambda>_.
     (let artifacts = sort_by (\<lambda>a b. ar_source a < ar_source b) (sn_artifacts m) in
      io_bind (write_artifacts env v root (sn_id m) artifacts) (\<lambda>_.
      io_bind (discover_artifacts env) (\<lambda>(current, specs).
        remove_others (map ar_source artifacts) current))))"

text \<open>\<open>Inr ()\<close> is \<^verbatim>\<open>(true, nil)\<close>, \<open>Inl e\<close> is \<^verbatim>\<open>(false, e)\<close>.\<close>

definition rollback_snapshot :: "vault_env \<Rightarrow> vault \<Rightarrow> string \<Rightarrow> snapshot \<Rightarrow> unit io" where
  "rollback_snapshot env v root safety =
     io_bind (apply_snapshot env v root safety) (\<lambda>_.
     io_bind (build_diff env (sn_id safety)) (\<lambda>d.
       if vd_changed d then io_fail (Msg ''rollback readback does not match safety snapshot'')
       else io_return ()))"

subsection \<open>The handler\<close>

definition restore_failure ::
    "string \<Rightarrow> string \<Rightarrow> manifest \<Rightarrow> bool \<Rightarrow> bool \<Rightarrow> string \<Rightarrow> go_error \<Rightarrow> int \<times> restore_answer" where
  "restore_failure target safety tx rolled_back verified stage e =
     (500, RestoreAnswer \<lparr>ro_ok = False, ro_target = target, ro_safety = safety, ro_tx = tx,
        ro_rolled_back = rolled_back, ro_rollback_verified = verified, ro_readback_verified = False,
        ro_probe = stage, ro_error = error_text e\<rparr>)"

text \<open>What follows a failed write and a failed comparison alike: back to the safety snapshot.\<close>

definition restore_undo ::
    "vault_env \<Rightarrow> time \<Rightarrow> vault \<Rightarrow> snapshot \<Rightarrow> snapshot \<Rightarrow> manifest \<Rightarrow> string \<Rightarrow> string \<Rightarrow> go_error \<Rightarrow> os \<Rightarrow>
     (int \<times> restore_answer) \<times> os" where
  "restore_undo env now v target safety tx evidence stage e s =
     (let tx1 = tx_record_failure now evidence (Some e) [] tx in
      case rollback_snapshot env v managed_root safety s of
        (Inr _, s') \<Rightarrow>
          (let tx2 = tx_record now ''rollback-readback'' EvidenceRecovered ''safety snapshot rollback verified''
                       [(''safety_snapshot'', sn_id safety)] tx1
           in (restore_failure (sn_id target) (sn_id safety) (snd (tx_advance now RolledBack tx2)) True True stage e, s'))
      | (Inl rb, s') \<Rightarrow>
          (let tx2 = tx_record_failure now ''rollback-readback'' (Some rb) [] tx1
           in (restore_failure (sn_id target) (sn_id safety) (snd (tx_advance now Ambiguous tx2)) False False stage
                 (Wrap (error_text e @ ''; rollback failed: '') rb), s')))"

definition restore_commit ::
    "time \<Rightarrow> snapshot \<Rightarrow> snapshot \<Rightarrow> manifest \<Rightarrow> int \<times> restore_answer" where
  "restore_commit now target safety tx0 =
     (let tx = tx_record now ''sha256-readback'' EvidencePassed ''managed config matches target snapshot'' [] tx0 in
      case tx_advance now Verified tx of
        (Some e, tx1) \<Rightarrow> restore_failure (sn_id target) (sn_id safety) tx1 False False ''transaction'' e
      | (None, tx1) \<Rightarrow>
          (case tx_advance now Committed tx1 of
             (Some e, tx2) \<Rightarrow> restore_failure (sn_id target) (sn_id safety) tx2 False False ''transaction'' e
           | (None, tx2) \<Rightarrow>
               (200, RestoreAnswer \<lparr>ro_ok = True, ro_target = sn_id target, ro_safety = sn_id safety, ro_tx = tx2,
                  ro_rolled_back = False, ro_rollback_verified = False, ro_readback_verified = True,
                  ro_probe = ''managed-config-sha256-readback'', ro_error = []\<rparr>)))"

definition restore_apply ::
    "vault_env \<Rightarrow> time \<Rightarrow> vault \<Rightarrow> snapshot \<Rightarrow> snapshot \<Rightarrow> manifest \<Rightarrow> os \<Rightarrow> (int \<times> restore_answer) \<times> os" where
  "restore_apply env now v target safety tx s =
     (case apply_snapshot env v managed_root target s of
        (Inl e, s1) \<Rightarrow> restore_undo env now v target safety tx ''atomic-apply'' ''apply'' e s1
      | (Inr _, s1) \<Rightarrow>
          (case build_diff env (sn_id target) s1 of
             (Inl e, s2) \<Rightarrow> restore_undo env now v target safety tx ''sha256-readback'' ''readback'' e s2
           | (Inr d, s2) \<Rightarrow>
               if vd_changed d
               then restore_undo env now v target safety tx ''sha256-readback'' ''readback''
                      (Msg ''post-restore readback does not match target snapshot'') s2
               else (restore_commit now target safety tx, s2)))"

text \<open>From the safety snapshot to the last check before the first write.\<close>

definition restore_checked ::
    "vault_env \<Rightarrow> time \<Rightarrow> vault \<Rightarrow> snapshot \<Rightarrow> snapshot \<Rightarrow> manifest \<Rightarrow> os \<Rightarrow> (int \<times> restore_answer) \<times> os" where
  "restore_checked env now v target safety tx0 s =
     (let fail = (\<lambda>tx stage e. restore_failure (sn_id target) (sn_id safety) tx False False stage e) in
      case tx_advance now Snapshot
             (tx_record now ''safety-snapshot'' EvidencePassed ''pre-restore safety snapshot captured''
                [(''safety_snapshot'', sn_id safety)] tx0) of
        (Some e, tx1) \<Rightarrow> (fail tx1 ''transaction'' e, s)
      | (None, tx1) \<Rightarrow>
          (case validate_restore_content env v managed_root target s of
             (Inl e, s1) \<Rightarrow> (fail (snd (tx_advance now Failed tx1)) ''validation'' e, s1)
           | (Inr _, s1) \<Rightarrow>
               (case tx_advance now Validated
                      (tx_record now ''content-validation'' EvidencePassed ''snapshot objects verified before apply'' [] tx1) of
                  (Some e, tx2) \<Rightarrow> (fail tx2 ''transaction'' e, s1)
                | (None, tx2) \<Rightarrow>
                    (case tx_advance now Applied tx2 of
                       (Some e, tx3) \<Rightarrow> (fail tx3 ''transaction'' e, s1)
                     | (None, tx3) \<Rightarrow> restore_apply env now v target safety tx3 s1))))"

definition restore_guarded ::
    "vault_env \<Rightarrow> time \<Rightarrow> go_error + string \<Rightarrow> vault \<Rightarrow> snapshot \<Rightarrow> string \<Rightarrow> os \<Rightarrow> (int \<times> restore_answer) \<times> os" where
  "restore_guarded env now rnd v target txid s =
     (let tx = tx_record now ''target-precheck'' EvidencePassed ''target snapshot manifest accepted''
                 [(''target_snapshot'', sn_id target)] (tx_new now txid ''admin'' [sn_id target])
      in case discover_artifacts env s of
           (Inl e, s1) \<Rightarrow>
             (restore_failure (sn_id target) [] (snd (tx_advance now Failed tx)) False False ''precheck'' e, s1)
         | (Inr (managed, specs), s1) \<Rightarrow>
             (case capture env now rnd v \<lparr>cr_component = ''admin'',
                     cr_reason = ''pre-restore safety snapshot for '' @ sn_id target,
                     cr_transaction = txid, cr_artifacts = specs\<rparr> s1 of
                (Inl e, s2) \<Rightarrow>
                  (restore_failure (sn_id target) [] (snd (tx_advance now Failed tx)) False False ''safety-snapshot'' e, s2)
              | (Inr safety, s2) \<Rightarrow> restore_checked env now v target safety tx s2))"

definition handle_restore ::
    "vault_env \<Rightarrow> time \<Rightarrow> go_error + string \<Rightarrow> go_error + restore_body \<Rightarrow> os \<Rightarrow> (int \<times> restore_answer) \<times> os" where
  "handle_restore env now rnd body s =
     (case body of
        Inl _ \<Rightarrow> ((400, RestoreError ''invalid config vault restore request''), s)
      | Inr q \<Rightarrow>
          (let sid = trim_space (rb_snapshot q); txid = trim_space (rb_transaction q) in
           if rb_confirm q \<noteq> ''RESTORE'' then ((409, RestoreError ''confirm must equal RESTORE''), s)
           else if sid = [] \<or> trim_space (rb_confirm_snapshot q) \<noteq> sid
           then ((409, RestoreError ''confirm_snapshot_id must exactly match snapshot_id''), s)
           else if int (length txid) > transaction_max_len
           then ((400, RestoreError ''transaction_id is too long''), s)
           else
             (case new_admin_vault of
                Inl e \<Rightarrow> ((500, RestoreError (error_text e)), s)
              | Inr v \<Rightarrow>
                  (case vault_get env v sid s of
                     (Inl e, s1) \<Rightarrow>
                       (if is_not_exist e then (404, RestoreError ''snapshot not found'')
                        else (400, RestoreError (error_text e)), s1)
                   | (Inr target, s1) \<Rightarrow>
                       if sn_component target \<noteq> ''admin''
                       then ((400, RestoreError ''snapshot component is not restorable by Admin''), s1)
                       else
                         (case validate_restore_manifest managed_root target of
                            Some e \<Rightarrow> ((400, RestoreError (''restore precheck failed: '' @ error_text e)), s1)
                          | None \<Rightarrow> restore_guarded env now rnd v target txid s1)))))"

subsection \<open>Only managed files are written\<close>

lemma touches_mkdir [frame]: "p \<in> P \<Longrightarrow> touches P (fs_mkdir p m)"
  unfolding fs_mkdir_def by (auto intro!: touches_syscall simp: same_except_def)

lemma elems_path_dir:
  assumes "is_abs d" "clean d = d" "d \<noteq> [slash]"
  shows "elems d = elems (path_dir d) @ [path_base d]"
proof -
  note sp = path_split_abs [OF assms]
  have es: "list_all plain_elem (elems (path_dir d))" and dir: "path_dir d = slash # join [slash] (elems (path_dir d))"
    using plain_elems_clean [OF sp(2)] clean_abs_form [OF sp(2)] sp(3) by auto
  have "d = slash # join [slash] (elems (path_dir d) @ [path_base d])"
  proof (cases "elems (path_dir d) = []")
    case True
    then have "path_dir d = [slash]" using dir by simp
    then show ?thesis using sp(1) True by (simp add: dir_prefix_def)
  next
    case False
    then have "path_dir d \<noteq> [slash]" using dir join_not_Nil [OF False es] by (metis list.sel(3))
    then have "d = path_dir d @ [slash] @ path_base d" using sp(1) by (simp add: dir_prefix_def)
    then show ?thesis using dir False by (metis append_Cons join_snoc)
  qed
  then show ?thesis using elems_abs_join [of "elems (path_dir d) @ [path_base d]"] es sp(4) by simp
qed

lemma managed_elems_under:
  assumes "is_abs p" and "clean p = p" and "elems p = elems managed_root @ rest" and "rest \<noteq> []"
  shows "under managed_root p"
proof -
  have "p = slash # join [slash] ([''opt'', ''etc'', ''routerforge''] @ rest)"
    using clean_abs_form [OF assms(1)] assms(2,3) managed_root_elems(1) by simp
  also have "\<dots> = managed_root @ slash # join [slash] rest"
    using assms(4) by (cases rest) (simp_all add: managed_root_elems(4))
  finally show ?thesis by (simp add: under_def managed_root_elems(5) has_prefix_iff)
qed

lemma under_managed: "d \<in> managed_area \<Longrightarrow> under d x \<Longrightarrow> x \<in> managed_area"
  by (auto simp: managed_area_def under_def has_prefix_iff dir_prefix_def managed_root_def split: if_splits)

lemma restore_path_ok:
  assumes "validate_restore_path managed_root p = Inr cl"
  shows "cl = clean (trim_space p)" "is_abs cl" "clean cl = cl" "cl \<noteq> [slash]"
    "\<exists>rest. rest \<noteq> [] \<and> list_all plain_elem rest \<and> elems cl = elems managed_root @ rest"
proof -
  obtain rel where rel: "path_rel managed_root (clean (trim_space p)) = Inr rel"
      and out: "rel \<noteq> ''.''" "rel \<noteq> ''..''" "\<not> has_prefix rel (''..'' @ [slash])"
      and cl: "cl = clean (trim_space p)" and ab: "is_abs (clean (trim_space p))"
    using assms unfolding validate_restore_path_def Let_def managed_root_elems(3,7)
    by (simp split: if_splits sum.splits)
  show "cl = clean (trim_space p)" by (rule cl)
  show abs: "is_abs cl" using ab cl by simp
  have "is_abs (trim_space p)" using ab by (simp add: clean_abs_iff)
  then show idem: "clean cl = cl" using cl clean_idem_abs by simp
  have "path_within_root managed_root cl"
    using rel out cl path_rel_not_abs [OF managed_root_elems(2) ab rel] by (simp add: path_within_root_def)
  then obtain rest where rest: "elems cl = elems managed_root @ rest"
    using within_root_iff [OF managed_root_elems(2) abs] by (auto simp: elem_prefix_def idem managed_root_elems(3))
  moreover have "rest \<noteq> []"
  proof
    assume "rest = []"
    then have "cl = managed_root"
      using rest clean_abs_form [OF abs] idem clean_abs_form [OF managed_root_elems(2)] managed_root_elems(3) by simp
    then show False using rel out(1) cl path_rel_abs [OF managed_root_elems(2) managed_root_elems(2)] by simp
  qed
  moreover have "list_all plain_elem rest" using plain_elems_clean [OF abs] idem rest by simp
  ultimately show "\<exists>rest. rest \<noteq> [] \<and> list_all plain_elem rest \<and> elems cl = elems managed_root @ rest" by blast
  then show "cl \<noteq> [slash]" by (auto simp: elems_def slash_def)
qed

lemma managed_elems_area:
  assumes "is_abs p" and "clean p = p" and "elems p = elems managed_root @ rest"
  shows "p \<in> managed_area" "rest = [] \<Longrightarrow> p = managed_root"
proof -
  show root: "p = managed_root" if "rest = []"
    using that assms clean_abs_form [OF assms(1)] clean_abs_form [OF managed_root_elems(2)] managed_root_elems(3) by simp
  show "p \<in> managed_area"
    using root managed_elems_under [OF assms] by (cases "rest = []") (auto simp: managed_area_def)
qed

lemma managed_not_slash: "p \<in> managed_area \<Longrightarrow> p \<noteq> [slash]"
  by (auto simp: managed_area_def managed_root_elems(6) under_def has_prefix_iff managed_root_def dir_prefix_def slash_def)

lemma restore_path_dir:
  assumes "validate_restore_path managed_root p = Inr cl"
  obtains fs where "is_abs (path_dir cl)" "clean (path_dir cl) = path_dir cl" "list_all plain_elem fs"
    "elems (path_dir cl) = elems managed_root @ fs" "path_dir cl \<in> managed_area"
    "under (path_dir cl) cl" "cl \<in> managed_area"
proof -
  note ok = restore_path_ok [OF assms]
  obtain rest where rest: "rest \<noteq> []" "list_all plain_elem rest" "elems cl = elems managed_root @ rest"
    using ok(5) by blast
  note sp = path_split_abs [OF ok(2-4)]
  have fs: "elems (path_dir cl) = elems managed_root @ butlast rest"
    using elems_path_dir [OF ok(2-4)] rest by (metis butlast_append butlast_snoc)
  have "list_all plain_elem (butlast rest)" using rest(2) by (auto simp: list_all_iff dest: in_set_butlastD)
  moreover have "under (path_dir cl) cl" using sp(1) by (metis under_def has_prefix_append)
  ultimately show thesis
    using that fs sp(2,3) managed_elems_area(1) [OF sp(2,3) fs] managed_elems_area(1) [OF ok(2,3) rest(3)] by blast
qed

lemma ensure_parts_frame:
  "\<lbrakk>is_abs d; clean d = d; d \<in> managed_area; list_all plain_elem parts\<rbrakk> \<Longrightarrow> touches managed_area (ensure_parts d parts)"
proof (induction parts arbitrary: d)
  case Nil
  show ?case by (simp add: touches_def)
next
  case (Cons e es)
  have e: "plain_elem e" using Cons.prems(4) by simp
  note ne = managed_not_slash [OF Cons.prems(3)]
  note j = path_join_plain [OF Cons.prems(1,2) ne e]
  have area: "d @ slash # e \<in> managed_area"
    by (rule under_managed [OF Cons.prems(3)]) (use ne in \<open>simp add: under_def dir_prefix_def has_prefix_iff\<close>)
  have "touches managed_area (ensure_parts (d @ slash # e) es)"
    by (rule Cons.IH [OF j(3,4) area]) (use Cons.prems(4) in simp)
  then show ?case
    unfolding ensure_parts.simps Let_def j(1) using area by (intro frame)
qed

lemma ensure_parent_frame: "touches managed_area (ensure_parent managed_root p)"
proof (cases "validate_restore_path managed_root p")
  case (Inl e)
  then show ?thesis by (simp add: ensure_parent_def touches_def)
next
  case (Inr cl)
  obtain fs where d: "is_abs (path_dir cl)" "clean (path_dir cl) = path_dir cl" "list_all plain_elem fs"
      "elems (path_dir cl) = elems managed_root @ fs"
    using restore_path_dir [OF Inr] by blast
  have "path_rel managed_root (path_dir cl) =
      Inr (if path_dir cl = managed_root then ''.'' else join [slash] fs)"
    using path_rel_abs [OF managed_root_elems(2) d(1)] d(2,4) managed_root_elems(3) by (simp add: strip_common_prefix)
  moreover have "split_char slash (join [slash] fs) = fs" if "path_dir cl \<noteq> managed_root"
    using that managed_elems_area(2) [OF d(1,2,4)] split_char_join plain_elem_no_slash [OF d(3)] by metis
  moreover have "touches managed_area (ensure_parts managed_root fs)"
    by (rule ensure_parts_frame [OF managed_root_elems(2,3) _ d(3)]) (simp add: managed_area_def)
  ultimately have "\<exists>rel. path_rel managed_root (path_dir cl) = Inr rel \<and>
      (rel = ''.'' \<or> touches managed_area (ensure_parts managed_root (split_char slash rel)))"
    by (cases "path_dir cl = managed_root") auto
  then obtain rel where "path_rel managed_root (path_dir cl) = Inr rel"
      "rel = ''.'' \<or> touches managed_area (ensure_parts managed_root (split_char slash rel))" by blast
  then have "touches managed_area (case path_rel managed_root (path_dir cl) of
      Inl e \<Rightarrow> io_fail e
    | Inr rel \<Rightarrow> if rel = ''.'' then io_return () else ensure_parts managed_root (split_char slash rel))"
    by (auto simp: touches_def)
  then show ?thesis
    unfolding ensure_parent_def Inr sum.case
    by (intro touches_bind [OF touches_calls(1)] touches_if [OF touches_fail])
qed

lemma restore_write_frame:
  assumes "validate_restore_path managed_root p = Inr p"
  shows "touches managed_area (write_file_atomic p c m)"
proof (rule write_file_atomic_touches)
  show "target_ok p" using restore_path_ok [OF assms] by (simp add: target_ok_def)
  have "path_dir p \<in> managed_area" "p \<in> managed_area" using restore_path_dir [OF assms] by blast+
  then show "insert p (range (temp_name (path_dir p) (''.'' @ path_base p @ ''.tmp-*''))) \<subseteq> managed_area"
    using under_managed temp_under by blast
qed

text \<open>What lies in the store is as before when only managed files changed.\<close>

lemma stored_frame:
  "same_except managed_area s s' \<Longrightarrow> stored env admin_vault (node_at s') m \<longleftrightarrow> stored env admin_vault (node_at s) m"
  using store_paths(2) store_outside by (auto simp: stored_def same_except_def)

lemma object_ok_frame:
  "same_except managed_area s s' \<Longrightarrow> object_ok env admin_vault s h \<Longrightarrow> object_ok env admin_vault s' h"
  using store_paths(1) store_outside by (auto simp: object_ok_def same_except_def)

lemma touches_vault_read [frame]: "touches P (vault_read_artifact env v i a)"
  unfolding vault_read_artifact_def vault_get_def Let_def by (intro frame)

lemma vault_read_found:
  "vault_read_artifact env v i aid s = (Inr (rec, c), s') \<Longrightarrow>
   \<exists>m. stored env v (node_at s) m \<and> sn_id m = i \<and> find_artifact aid (sn_artifacts m) = Some rec"
proof -
  assume run: "vault_read_artifact env v i aid s = (Inr (rec, c), s')"
  obtain m s1 where 1: "vault_get env v i s = (Inr m, s1)" and find: "find_artifact aid (sn_artifacts m) = Some rec"
    using run by (auto simp: vault_read_artifact_def io_bind_def Let_def
        split: prod.splits sum.splits option.splits if_splits)
  then show ?thesis using vault_get_result [OF 1] by auto
qed

text \<open>The record a stored snapshot has under an artifact's id is for that artifact's path.\<close>

definition same_source :: "vault_env \<Rightarrow> os \<Rightarrow> string \<Rightarrow> artifact \<Rightarrow> bool" where
  "same_source env s i a \<longleftrightarrow>
     (\<forall>m rec. stored env admin_vault (node_at s) m \<and> sn_id m = i \<and> find_artifact (ar_id a) (sn_artifacts m) = Some rec \<longrightarrow>
        ar_source rec = ar_source a)"

lemma validate_objects_result:
  "validate_objects env admin_vault i as s = (r, s') \<Longrightarrow>
   node_at s' = node_at s \<and> (r = Inr () \<longrightarrow> (\<forall>a\<in>set as. same_source env s i a))"
proof (induction as arbitrary: s)
  case Nil
  then show ?case by auto
next
  case (Cons a as)
  obtain r1 s1 where 1: "vault_read_artifact env admin_vault i (ar_id a) s = (r1, s1)" by fastforce
  have same: "node_at s1 = node_at s"
    using touchesD [OF touches_vault_read [of "{}"] 1] by (auto simp: same_except_def)
  show ?case
  proof (cases "\<exists>rec c. r1 = Inr (rec, c) \<and> ar_source rec = ar_source a \<and> validate_objects env admin_vault i as s1 = (r, s')")
    case True
    then obtain rec c where rec: "r1 = Inr (rec, c)" "ar_source rec = ar_source a"
        and rest: "validate_objects env admin_vault i as s1 = (r, s')" by blast
    have "same_source env s i a"
      using vault_read_found [OF 1 [unfolded rec(1)]] rec(2) stored_unique by (fastforce simp: same_source_def)
    then show ?thesis using Cons.IH [OF rest] same by (auto simp: same_source_def)
  next
    case False
    then have "s' = s1 \<and> (\<exists>e. r = Inl e)"
      using Cons.prems 1 by (auto simp: io_bind_def io_wrap_def split: prod.splits sum.splits if_splits)
    then show ?thesis using same by auto
  qed
qed

lemma write_artifacts_frame:
  "write_artifacts env admin_vault managed_root i as s = (r, s') \<Longrightarrow>
   \<forall>a\<in>set as. validate_restore_path managed_root (ar_source a) = Inr (ar_source a) \<and> same_source env s i a \<Longrightarrow>
   same_except managed_area s s'"
proof (induction as arbitrary: s)
  case Nil
  then show ?case by simp
next
  case (Cons a as)
  obtain r1 s1 where 1: "vault_read_artifact env admin_vault i (ar_id a) s = (r1, s1)" by fastforce
  have f1: "same_except managed_area s s1" by (rule touchesD [OF touches_vault_read 1])
  show ?case
  proof (cases r1)
    case (Inl e)
    then show ?thesis using Cons.prems(1) 1 f1 by (simp add: io_bind_def)
  next
    case (Inr p)
    obtain rec c where p: "p = (rec, c)" by fastforce
    have src: "ar_source rec = ar_source a"
      using vault_read_found [OF 1 [unfolded Inr p]] Cons.prems(2) by (auto simp: same_source_def)
    let ?w = "io_bind (ensure_parent managed_root (ar_source a)) (\<lambda>_. io_bind (check_target (ar_source a)) (\<lambda>_.
        write_file_atomic (ar_source a) c (restore_mode (ar_mode rec))))"
    have w: "touches managed_area ?w"
      using ensure_parent_frame restore_write_frame Cons.prems(2) unfolding check_target_def by (intro frame) auto
    obtain r2 s2 where 2: "?w s1 = (r2, s2)" by fastforce
    have f2: "same_except managed_area s s2" by (rule same_except_trans [OF f1 touchesD [OF w 2]])
    show ?thesis
    proof (cases r2)
      case (Inl e)
      then have "s' = s2"
        using Cons.prems(1) 1 Inr p src 2 by (auto simp: io_bind_def split: prod.splits sum.splits)
      then show ?thesis using f2 by simp
    next
      case (Inr u)
      then have rest: "write_artifacts env admin_vault managed_root i as s2 = (r, s')"
        using Cons.prems(1) 1 \<open>r1 = Inr p\<close> p src 2 by (auto simp: io_bind_def split: prod.splits sum.splits)
      have "\<forall>a\<in>set as. same_source env s2 i a"
        using Cons.prems(2) stored_frame [OF f2] by (simp add: same_source_def)
      then have "same_except managed_area s2 s'" using Cons.IH [OF rest] Cons.prems(2) by simp
      then show ?thesis by (rule same_except_trans [OF f2])
    qed
  qed
qed

lemma remove_others_frame: "\<forall>m\<in>set ms. mg_path m \<in> managed_area \<Longrightarrow> touches managed_area (remove_others targets ms)"
proof (induction ms)
  case Nil
  show ?case by (simp add: touches_def)
next
  case (Cons m ms)
  then show ?case by (auto intro!: frame)
qed

lemma validate_artifacts_ok:
  "validate_artifacts root ids paths as = None \<Longrightarrow>
   \<forall>a\<in>set as. validate_restore_path root (ar_source a) = Inr (ar_source a)"
  by (induction root ids paths as rule: validate_artifacts.induct) (auto split: if_splits sum.splits)

lemma validate_content_result:
  assumes "validate_restore_content env admin_vault managed_root m s = (r, s')"
  shows "node_at s' = node_at s \<and>
    (r = Inr () \<longrightarrow> (\<forall>a\<in>set (sn_artifacts m). validate_restore_path managed_root (ar_source a) = Inr (ar_source a) \<and>
       same_source env s (sn_id m) a))"
proof (cases "validate_restore_manifest managed_root m")
  case (Some e)
  then show ?thesis using assms by (auto simp: validate_restore_content_def)
next
  case None
  have "validate_objects env admin_vault (sn_id m) (sn_artifacts m) s = (r, s')"
    using assms None by (simp add: validate_restore_content_def)
  moreover have "validate_artifacts managed_root [] [] (sn_artifacts m) = None"
    using None by (auto simp: validate_restore_manifest_def split: if_splits)
  ultimately show ?thesis using validate_objects_result validate_artifacts_ok by blast
qed

text \<open>Whatever happens while a snapshot is written back, only managed files change.\<close>

lemma apply_frame:
  assumes run: "apply_snapshot env admin_vault managed_root m s = (r, s')"
  shows "same_except managed_area s s'"
proof -
  let ?as = "sort_by (\<lambda>a b. ar_source a < ar_source b) (sn_artifacts m)"
  obtain r1 s1 where 1: "validate_restore_content env admin_vault managed_root m s = (r1, s1)" by fastforce
  note v = validate_content_result [OF 1]
  obtain r2 s2 where 2: "write_artifacts env admin_vault managed_root (sn_id m) ?as s1 = (r2, s2)" by fastforce
  obtain r3 s3 where 3: "discover_artifacts env s2 = (r3, s3)" by fastforce
  have f1: "same_except managed_area s s1" using v by (simp add: same_except_def)
  show ?thesis
  proof (cases "r1 = Inr ()")
    case False
    then have "s' = s1" using run 1 by (auto simp: apply_snapshot_def io_bind_def split: sum.splits)
    then show ?thesis using f1 by simp
  next
    case True
    have "\<forall>a\<in>set ?as. validate_restore_path managed_root (ar_source a) = Inr (ar_source a) \<and> same_source env s1 (sn_id m) a"
      using v True by (simp add: same_source_def)
    then have f2: "same_except managed_area s s2"
      by (rule same_except_trans [OF f1 write_artifacts_frame [OF 2]])
    have f3: "same_except managed_area s s3"
      using f2 discover_same [OF 3] by (simp add: same_except_def)
    show ?thesis
    proof (cases "\<exists>ms specs. r2 = Inr () \<and> r3 = Inr (ms, specs)")
      case False
      then have "s' = s2 \<or> s' = s3"
        using run 1 True 2 3 by (auto simp: apply_snapshot_def io_bind_def Let_def split: sum.splits prod.splits)
      then show ?thesis using f2 f3 by blast
    next
      case ok: True
      then obtain ms specs where r: "r2 = Inr ()" "r3 = Inr (ms, specs)" by blast
      have rm: "remove_others (map ar_source ?as) ms s3 = (r, s')"
        using run 1 True 2 3 r by (simp add: apply_snapshot_def io_bind_def Let_def)
      have "mg_path ` set ms = dom (managed_content s2)" using discover_result [OF 3 [unfolded r(2)]] by blast
      then have "\<forall>m\<in>set ms. mg_path m \<in> managed_area" using managed_content_path by blast
      from touchesD [OF remove_others_frame [OF this] rm] show ?thesis by (rule same_except_trans [OF f3])
    qed
  qed
qed

lemma rollback_result:
  assumes run: "rollback_snapshot env admin_vault managed_root safety s = (r, s')"
  shows "same_except managed_area s s' \<and>
    (r = Inr () \<longrightarrow> (\<exists>m. stored env admin_vault (node_at s) m \<and> sn_id m = sn_id safety \<and>
       snapshot_sums m = managed_sums env s'))"
proof -
  obtain r1 s1 where 1: "apply_snapshot env admin_vault managed_root safety s = (r1, s1)" by fastforce
  note f1 = apply_frame [OF 1]
  show ?thesis
  proof (cases r1)
    case (Inl e)
    then show ?thesis using run 1 f1 by (auto simp: rollback_snapshot_def io_bind_def)
  next
    case (Inr u)
    obtain r2 s2 where 2: "build_diff env (sn_id safety) s1 = (r2, s2)" by fastforce
    have s2: "s' = s2" and r: "r = Inr () \<Longrightarrow> \<exists>d. r2 = Inr d \<and> \<not> vd_changed d"
      using run 1 2 Inr by (auto simp: rollback_snapshot_def io_bind_def split: sum.splits if_splits)
    have "touches {} (build_diff env (sn_id safety))" by (rule build_diff_frame)
    from touchesD [OF this 2] have same: "node_at s2 = node_at s1" by (auto simp: same_except_def)
    have "\<exists>m. stored env admin_vault (node_at s) m \<and> sn_id m = sn_id safety \<and> snapshot_sums m = managed_sums env s'"
      if ok: "r = Inr ()"
    proof -
      obtain d where d: "r2 = Inr d" "\<not> vd_changed d" using r [OF ok] by blast
      show ?thesis
        using build_diff_result [OF 2 [unfolded d(1)]] d(2) stored_frame [OF f1] managed_sums_cong [OF same] s2 by auto
    qed
    then show ?thesis using f1 same s2 by (simp add: same_except_def)
  qed
qed

subsection \<open>How a restore ends\<close>

text \<open>From the safety snapshot on: what each final state of the transaction says about the disk.\<close>

definition ended ::
    "vault_env \<Rightarrow> snapshot \<Rightarrow> snapshot \<Rightarrow> os \<Rightarrow> os \<Rightarrow> int \<Rightarrow> restore_outcome \<Rightarrow> bool" where
  "ended env target safety s s' code out \<longleftrightarrow>
     ro_target out = sn_id target \<and> ro_safety out = sn_id safety \<and> same_except managed_area s s' \<and>
     (case mf_state (ro_tx out) of
        Committed \<Rightarrow> code = 200 \<and> \<not> ro_rolled_back out \<and>
          (\<exists>m. stored env admin_vault (node_at s') m \<and> sn_id m = sn_id target \<and> snapshot_sums m = managed_sums env s')
      | RolledBack \<Rightarrow> code = 500 \<and> ro_rolled_back out \<and> snapshot_sums safety = managed_sums env s'
      | Ambiguous \<Rightarrow> code = 500 \<and> \<not> ro_rolled_back out
      | Failed \<Rightarrow> code = 500 \<and> \<not> ro_rolled_back out \<and> node_at s' = node_at s
      | _ \<Rightarrow> False)"

lemma ended_later:
  "ended env target safety s1 s' code out \<Longrightarrow> same_except managed_area s s1 \<Longrightarrow> mf_state (ro_tx out) \<noteq> Failed \<Longrightarrow>
   ended env target safety s s' code out"
  by (auto simp: ended_def split: tx_state.splits intro: same_except_trans)

lemma restore_undo_ends:
  assumes state: "mf_state tx = Applied" and st: "stored env admin_vault (node_at s) safety"
    and run: "restore_undo env now v target safety tx evidence stage e s = ((code, ans), s')" and v: "v = admin_vault"
  shows "\<exists>out. ans = RestoreAnswer out \<and> mf_state (ro_tx out) \<noteq> Failed \<and> ended env target safety s s' code out"
proof -
  obtain r s1 where 1: "rollback_snapshot env admin_vault managed_root safety s = (r, s1)" by fastforce
  note rb = rollback_result [OF 1]
  have moved: "mf_state (snd (tx_advance now to (tx_record now a b c d (tx_record_failure now evidence (Some e) [] tx)))) = to"
      "mf_state (snd (tx_advance now to (tx_record_failure now a f d (tx_record_failure now evidence (Some e) [] tx)))) = to"
    if "to = RolledBack \<or> to = Ambiguous" for to a b c d f
    using that state tx_advance_ok by auto
  show ?thesis
  proof (cases r)
    case (Inr u)
    then obtain m where "stored env admin_vault (node_at s) m" "sn_id m = sn_id safety" "snapshot_sums m = managed_sums env s1"
      using rb by auto
    then have "snapshot_sums safety = managed_sums env s1" using stored_unique [OF st] by metis
    moreover obtain tx2 where "mf_state tx2 = RolledBack"
        "restore_undo env now v target safety tx evidence stage e s =
          (restore_failure (sn_id target) (sn_id safety) tx2 True True stage e, s1)"
      using moved(1) [of RolledBack] unfolding restore_undo_def Let_def v 1 Inr prod.case sum.case by blast
    ultimately show ?thesis using run rb by (auto simp: restore_failure_def ended_def)
  next
    case (Inl f)
    obtain tx2 e2 where "mf_state tx2 = Ambiguous"
        "restore_undo env now v target safety tx evidence stage e s =
          (restore_failure (sn_id target) (sn_id safety) tx2 False False stage e2, s1)"
      using moved(2) [of Ambiguous] unfolding restore_undo_def Let_def v 1 Inl prod.case sum.case by blast
    then show ?thesis using run rb by (auto simp: restore_failure_def ended_def)
  qed
qed

lemma restore_commit_ends:
  assumes "mf_state tx = Applied" and "restore_commit now target safety tx = (code, ans)"
  shows "\<exists>out. ans = RestoreAnswer out \<and> mf_state (ro_tx out) = Committed \<and> code = 200 \<and> \<not> ro_rolled_back out \<and>
    ro_target out = sn_id target \<and> ro_safety out = sn_id safety"
proof -
  let ?tx = "tx_record now ''sha256-readback'' EvidencePassed ''managed config matches target snapshot'' [] tx"
  obtain tx1 where 1: "tx_advance now Verified ?tx = (None, tx1)" "mf_state tx1 = Verified"
    using tx_advance_ok [of ?tx Verified now] assms(1) by (cases "tx_advance now Verified ?tx") auto
  obtain tx2 where 2: "tx_advance now Committed tx1 = (None, tx2)" "mf_state tx2 = Committed"
    using tx_advance_ok [of tx1 Committed now] 1(2) by (cases "tx_advance now Committed tx1") auto
  have "restore_commit now target safety tx =
      (200, RestoreAnswer \<lparr>ro_ok = True, ro_target = sn_id target, ro_safety = sn_id safety, ro_tx = tx2,
         ro_rolled_back = False, ro_rollback_verified = False, ro_readback_verified = True,
         ro_probe = ''managed-config-sha256-readback'', ro_error = []\<rparr>)"
    unfolding restore_commit_def Let_def 1(1) prod.case option.case 2(1) ..
  then show ?thesis using assms(2) 2(2) by auto
qed

lemma restore_apply_ends:
  assumes state: "mf_state tx = Applied" and st: "stored env admin_vault (node_at s) safety"
    and run: "restore_apply env now admin_vault target safety tx s = ((code, ans), s')"
  shows "\<exists>out. ans = RestoreAnswer out \<and> mf_state (ro_tx out) \<noteq> Failed \<and> ended env target safety s s' code out"
proof -
  obtain r1 s1 where 1: "apply_snapshot env admin_vault managed_root target s = (r1, s1)" by fastforce
  obtain r2 s2 where 2: "build_diff env (sn_id target) s1 = (r2, s2)" by fastforce
  note f1 = apply_frame [OF 1]
  have same: "node_at s2 = node_at s1"
    using touchesD [OF build_diff_frame [of "{}"] 2] by (auto simp: same_except_def)
  have f2: "same_except managed_area s s2" using f1 same by (simp add: same_except_def)
  have st1: "stored env admin_vault (node_at s1) safety" "stored env admin_vault (node_at s2) safety"
    using st stored_frame [OF f1] same by simp_all
  consider (undo1) ev sg e where "restore_undo env now admin_vault target safety tx ev sg e s1 = ((code, ans), s')"
    | (undo2) ev sg e where "restore_undo env now admin_vault target safety tx ev sg e s2 = ((code, ans), s')"
    | (commit) d where "r2 = Inr d" "\<not> vd_changed d" "restore_commit now target safety tx = (code, ans)" "s' = s2"
    using run 1 2 by (auto simp: restore_apply_def split: sum.splits if_splits)
  then show ?thesis
  proof cases
    case undo1
    from restore_undo_ends [OF state st1(1) this refl] show ?thesis using ended_later [OF _ f1] by blast
  next
    case undo2
    from restore_undo_ends [OF state st1(2) this refl] show ?thesis using ended_later [OF _ f2] by blast
  next
    case commit
    obtain m where "stored env admin_vault (node_at s2) m" "sn_id m = sn_id target" "snapshot_sums m = managed_sums env s2"
      using build_diff_result [OF 2 [unfolded commit(1)]] commit(2) same managed_sums_cong [OF same] by auto
    then show ?thesis
      using restore_commit_ends [OF state commit(3)] f2 commit(4) by (auto simp: ended_def)
  qed
qed

lemma restore_checked_ends:
  assumes state: "mf_state tx = Precheck" and st: "stored env admin_vault (node_at s) safety"
    and run: "restore_checked env now admin_vault target safety tx s = ((code, ans), s')"
  shows "\<exists>out. ans = RestoreAnswer out \<and> ended env target safety s s' code out"
proof -
  let ?tx = "tx_record now ''safety-snapshot'' EvidencePassed ''pre-restore safety snapshot captured''
      [(''safety_snapshot'', sn_id safety)] tx"
  obtain tx1 where 1: "tx_advance now Snapshot ?tx = (None, tx1)" "mf_state tx1 = Snapshot"
    using tx_advance_ok [of ?tx Snapshot now] state by (cases "tx_advance now Snapshot ?tx") auto
  obtain r s1 where 2: "validate_restore_content env admin_vault managed_root target s = (r, s1)" by fastforce
  have same: "node_at s1 = node_at s" using validate_content_result [OF 2] by blast
  have f1: "same_except managed_area s s1" using same by (simp add: same_except_def)
  show ?thesis
  proof (cases r)
    case (Inl e)
    have "mf_state (snd (tx_advance now Failed tx1)) = Failed" using tx_advance_ok [of tx1 Failed now] 1(2) by simp
    moreover have "restore_checked env now admin_vault target safety tx s =
        (restore_failure (sn_id target) (sn_id safety) (snd (tx_advance now Failed tx1)) False False ''validation'' e, s1)"
      unfolding restore_checked_def Let_def 1(1) prod.case option.case 2 Inl sum.case ..
    ultimately show ?thesis using run same f1 by (auto simp: restore_failure_def ended_def)
  next
    case (Inr u)
    let ?tx1 = "tx_record now ''content-validation'' EvidencePassed ''snapshot objects verified before apply'' [] tx1"
    obtain tx2 where 3: "tx_advance now Validated ?tx1 = (None, tx2)" "mf_state tx2 = Validated"
      using tx_advance_ok [of ?tx1 Validated now] 1(2) by (cases "tx_advance now Validated ?tx1") auto
    obtain tx3 where 4: "tx_advance now Applied tx2 = (None, tx3)" "mf_state tx3 = Applied"
      using tx_advance_ok [of tx2 Applied now] 3(2) by (cases "tx_advance now Applied tx2") auto
    have "restore_apply env now admin_vault target safety tx3 s1 = ((code, ans), s')"
      using run unfolding restore_checked_def Let_def 1(1) prod.case option.case 2 Inr sum.case 3(1) 4(1) .
    from restore_apply_ends [OF 4(2) _ this] show ?thesis using st same ended_later [OF _ f1] by auto
  qed
qed

definition restore_promise :: "vault_env \<Rightarrow> os \<Rightarrow> os \<Rightarrow> int \<Rightarrow> restore_outcome \<Rightarrow> bool" where
  "restore_promise env s s' code out \<longleftrightarrow>
     (case mf_state (ro_tx out) of
        Committed \<Rightarrow> code = 200 \<and> \<not> ro_rolled_back out \<and> recoverable env s s' (ro_safety out) \<and>
          (\<exists>m. stored env admin_vault (node_at s) m \<and> sn_id m = ro_target out \<and> snapshot_sums m = managed_sums env s')
      | RolledBack \<Rightarrow> code = 500 \<and> ro_rolled_back out \<and> recoverable env s s' (ro_safety out) \<and>
          managed_sums env s' = managed_sums env s
      | Ambiguous \<Rightarrow> code = 500 \<and> \<not> ro_rolled_back out \<and> recoverable env s s' (ro_safety out)
      | Failed \<Rightarrow> code = 500 \<and> \<not> ro_rolled_back out \<and> (\<forall>p\<in>managed_area. node_at s' p = node_at s p)
      | _ \<Rightarrow> False)"

definition fresh_id :: "time \<Rightarrow> go_error + string \<Rightarrow> os \<Rightarrow> bool" where
  "fresh_id now rnd s \<longleftrightarrow>
     (case new_snapshot_id rnd now of Inl _ \<Rightarrow> True | Inr i \<Rightarrow> node_at s (manifest_path admin_vault i) = None)"

lemma target_unchanged:
  assumes at: "stored env admin_vault (node_at s) target" and m: "stored env admin_vault (node_at s') m"
    and eq: "sn_id m = sn_id target"
    and kept: "\<And>n. node_at s (manifest_path admin_vault (sn_id target)) = Some n \<Longrightarrow>
        node_at s' (manifest_path admin_vault (sn_id target)) = Some n \<or> node_at s' (manifest_path admin_vault (sn_id target)) = None"
  shows "m = target"
proof -
  obtain n where "node_at s (manifest_path admin_vault (sn_id target)) = Some n" using at by (auto simp: stored_def)
  then have "node_at s' (manifest_path admin_vault (sn_id target)) = node_at s (manifest_path admin_vault (sn_id target))"
    using kept m eq by (auto simp: stored_def)
  then have "stored env admin_vault (node_at s) m" using m eq by (auto simp: stored_def)
  then show ?thesis using stored_unique at eq by blast
qed

lemma restore_guarded_ends:
  assumes clock: "0 \<le> unix_nano now" and rnd: "suffix_ok rnd" and codec: "codec_ok env" and fresh: "fresh_id now rnd s"
    and tidy: "tidy_names s" and target: "stored env admin_vault (node_at s) target"
    and run: "restore_guarded env now rnd admin_vault target txid s = ((code, ans), s')"
  shows "\<exists>out. ans = RestoreAnswer out \<and> ro_target out = sn_id target \<and> restore_promise env s s' code out"
proof -
  let ?tx = "tx_record now ''target-precheck'' EvidencePassed ''target snapshot manifest accepted''
                 [(''target_snapshot'', sn_id target)] (tx_new now txid ''admin'' [sn_id target])"
  have pre: "mf_state ?tx = Precheck" by (simp add: tx_new_def Let_def)
  have failed: "mf_state (snd (tx_advance now Failed ?tx)) = Failed" using tx_advance_ok [of ?tx Failed now] pre by simp
  obtain r1 s1 where 1: "discover_artifacts env s = (r1, s1)" by fastforce
  have same: "node_at s1 = node_at s" by (rule discover_same [OF 1])
  show ?thesis
  proof (cases r1)
    case (Inl e)
    have "restore_guarded env now rnd admin_vault target txid s =
        (restore_failure (sn_id target) [] (snd (tx_advance now Failed ?tx)) False False ''precheck'' e, s1)"
      unfolding restore_guarded_def Let_def 1 Inl prod.case sum.case ..
    then show ?thesis using run failed same by (auto simp: restore_failure_def restore_promise_def)
  next
    case (Inr p)
    obtain ms specs where p: "p = (ms, specs)" by fastforce
    let ?req = "\<lparr>cr_component = ''admin'', cr_reason = ''pre-restore safety snapshot for '' @ sn_id target,
        cr_transaction = txid, cr_artifacts = specs\<rparr>"
    obtain r2 s2 where 2: "capture env now rnd admin_vault ?req s1 = (r2, s2)" by fastforce
    have area: "\<forall>p\<in>managed_area. node_at s2 p = node_at s p"
      using capture_outside [OF clock rnd 2] same by (simp add: same_except_def)
    show ?thesis
    proof (cases r2)
      case (Inl e)
      have "restore_guarded env now rnd admin_vault target txid s =
          (restore_failure (sn_id target) [] (snd (tx_advance now Failed ?tx)) False False ''safety-snapshot'' e, s2)"
        unfolding restore_guarded_def Let_def 1 Inr p 2 Inl prod.case sum.case ..
      then show ?thesis using run failed area by (auto simp: restore_failure_def restore_promise_def)
    next
      case safety: (Inr safety)
      note cap = capture_recoverable [OF clock rnd codec tidy 1 [unfolded Inr p] 2 [unfolded safety]]
      have st: "stored env admin_vault (node_at s2) safety"
        and objs: "\<forall>a\<in>set (sn_artifacts safety). object_ok env admin_vault s2 (ar_sha a)"
        and sums: "snapshot_sums safety = managed_sums env s" by (rule cap; simp)+
      have "restore_checked env now admin_vault target safety ?tx s2 = ((code, ans), s')"
        using run unfolding restore_guarded_def Let_def 1 Inr p 2 safety prod.case sum.case .
      from restore_checked_ends [OF pre st this] obtain out where out: "ans = RestoreAnswer out"
          and e: "ended env target safety s2 s' code out" by blast
      have f: "same_except managed_area s2 s'" and ids: "ro_target out = sn_id target" "ro_safety out = sn_id safety"
        using e by (auto simp: ended_def)
      have rec: "recoverable env s s' (ro_safety out)"
        unfolding recoverable_def using st sums objs ids stored_frame [OF f] object_ok_frame [OF f] by auto
      have m: "m = target" if m: "stored env admin_vault (node_at s') m" "sn_id m = sn_id target" for m
      proof (rule target_unchanged [OF target m])
        fix n
        assume n: "node_at s (manifest_path admin_vault (sn_id target)) = Some n"
        obtain s0 recs acc t payload s3 where "new_snapshot_id rnd now = Inr (sn_id safety)"
          using capture_success [OF 2 [unfolded safety]] by metis
        then have ne: "sn_id target \<noteq> sn_id safety" using fresh n by (auto simp: fresh_id_def)
        have sp: "snapshot_pattern (sn_id target)" using target by (simp add: stored_def)
        have "manifest_path admin_vault (sn_id target) \<notin> managed_area" using store_paths(2) [OF sp] store_outside by blast
        then show "node_at s' (manifest_path admin_vault (sn_id target)) = Some n \<or>
            node_at s' (manifest_path admin_vault (sn_id target)) = None"
          using capture_keeps_manifests [OF clock rnd 2 [unfolded safety] sp ne] n same f by (auto simp: same_except_def)
      qed
      have back_at: "\<exists>m. stored env admin_vault (node_at s) m \<and> sn_id m = sn_id target \<and> snapshot_sums m = managed_sums env s'"
        if now: "\<exists>m. stored env admin_vault (node_at s') m \<and> sn_id m = sn_id target \<and> snapshot_sums m = managed_sums env s'"
      proof -
        obtain x where "stored env admin_vault (node_at s') x" "sn_id x = sn_id target" "snapshot_sums x = managed_sums env s'"
          using now by blast
        then show ?thesis using m [of x] target by blast
      qed
      have "restore_promise env s s' code out"
        using e rec sums area ids back_at unfolding ended_def restore_promise_def by (auto split: tx_state.splits)
      then show ?thesis using out ids by blast
    qed
  qed
qed

lemma guarded_no_error: "restore_guarded env now rnd v target txid s \<noteq> ((code, RestoreError text), s')"
  by (auto simp: restore_guarded_def restore_checked_def restore_apply_def restore_undo_def restore_commit_def
      restore_failure_def Let_def split: sum.splits prod.splits option.splits if_splits)

lemma restore_errors:
  assumes run: "handle_restore env now rnd body s = ((code, RestoreError text), s')"
  shows "code \<noteq> 200 \<and> node_at s' = node_at s"
proof -
  have same: "node_at s1 = node_at s" if "vault_get env admin_vault i s = (r, s1)" for i r s1
    using vault_get_result [OF that] by blast
  show ?thesis
    using run guarded_no_error
    by (auto simp: handle_restore_def new_admin_vault_eq Let_def dest: same
        split: sum.splits prod.splits option.splits if_splits)
qed

lemma restore_answers:
  assumes run: "handle_restore env now rnd body s = ((code, RestoreAnswer out), s')"
  obtains target txid s1 where "node_at s1 = node_at s" "stored env admin_vault (node_at s) target"
    "restore_guarded env now rnd admin_vault target txid s1 = ((code, RestoreAnswer out), s')"
proof -
  obtain i target txid s1 where "vault_get env admin_vault i s = (Inr target, s1)"
      "restore_guarded env now rnd admin_vault target txid s1 = ((code, RestoreAnswer out), s')"
    using run by (auto simp: handle_restore_def new_admin_vault_eq Let_def split: sum.splits prod.splits option.splits if_splits)
  then show thesis using that vault_get_result [of env admin_vault i s "Inr target" s1] by auto
qed

lemma fresh_id_cong: "node_at s1 = node_at s \<Longrightarrow> fresh_id now rnd s1 = fresh_id now rnd s"
  by (simp add: fresh_id_def split: sum.splits)

lemma tidy_names_cong: "node_at s1 = node_at s \<Longrightarrow> tidy_names s1 = tidy_names s"
  using managed_content_cong [of s1 s] by (simp add: tidy_names_def)

lemma restore_promise_cong:
  assumes same: "node_at s1 = node_at s"
  shows "restore_promise env s1 s' code out = restore_promise env s s' code out"
  by (simp only: restore_promise_def recoverable_def same managed_sums_cong [OF same])

text \<open>C2: a restore ends as it reports, whichever call fails on the way. An error without a
  transaction changed nothing. Otherwise the final state of the transaction tells what is on
  disk: \<open>Committed\<close> (and only then 200), exactly the files of the requested snapshot with its checksums;
  \<open>RolledBack\<close>, exactly the files of before; \<open>Failed\<close>, no managed path was touched; \<open>Ambiguous\<close>, the
  rollback failed too. From the first write on, the state of before stays recoverable from the safety snapshot
  the answer names.\<close>

theorem restore_ends_as_reported:
  assumes clock: "0 \<le> unix_nano now" and rnd: "suffix_ok rnd" and codec: "codec_ok env"
    and fresh: "fresh_id now rnd s" and tidy: "tidy_names s"
    and run: "handle_restore env now rnd body s = ((code, ans), s')"
  shows "case ans of
      RestoreError text \<Rightarrow> code \<noteq> 200 \<and> node_at s' = node_at s
    | RestoreAnswer out \<Rightarrow>
        (case mf_state (ro_tx out) of
           Committed \<Rightarrow> code = 200 \<and> \<not> ro_rolled_back out \<and> recoverable env s s' (ro_safety out) \<and>
             (\<exists>m. stored env admin_vault (node_at s) m \<and> sn_id m = ro_target out \<and>
                  snapshot_sums m = managed_sums env s')
         | RolledBack \<Rightarrow> code = 500 \<and> ro_rolled_back out \<and> recoverable env s s' (ro_safety out) \<and>
             managed_sums env s' = managed_sums env s
         | Ambiguous \<Rightarrow> code = 500 \<and> \<not> ro_rolled_back out \<and> recoverable env s s' (ro_safety out)
         | Failed \<Rightarrow> code = 500 \<and> \<not> ro_rolled_back out \<and> (\<forall>p\<in>managed_area. node_at s' p = node_at s p)
         | _ \<Rightarrow> False)"
proof (cases ans)
  case (RestoreError msg)
  then show ?thesis using restore_errors run by simp
next
  case (RestoreAnswer out)
  obtain target txid s1 where same: "node_at s1 = node_at s" and st: "stored env admin_vault (node_at s) target"
    and g: "restore_guarded env now rnd admin_vault target txid s1 = ((code, RestoreAnswer out), s')"
    using restore_answers run [unfolded RestoreAnswer] by blast
  have "restore_promise env s1 s' code out"
    using restore_guarded_ends [OF clock rnd codec _ _ _ g] fresh tidy st
    by (simp add: same fresh_id_cong [OF same] tidy_names_cong [OF same])
  then have "restore_promise env s s' code out" using restore_promise_cong [OF same] by simp
  then show ?thesis unfolding RestoreAnswer restore_promise_def by simp
qed

text \<open>The safety snapshot is pruned for like any other, with only itself protected. In a full store
  without a last-working mark the turn of retention it causes drops the oldest snapshot, be it the
  very target of the restore; the check of the content then fails on the missing manifest and the snapshot is gone.\<close>

lemma full_store_evicts_oldest:
  assumes ok: "vault_ok v" and run: "prune_round env v preserve s = (Inr b, s')"
    and list: "vault_list env v s = (Inr (ms @ [m]), s1)" and full: "v_max_snapshots v \<le> int (length ms)"
    and m: "sn_id m \<noteq> preserve" "snapshot_pattern (sn_id m)"
    and unmarked: "node_at s (state_path v) = None" and dir: "node_at s (snapshots_dir v) \<noteq> None"
  shows "node_at s' (manifest_path v (sn_id m)) = None"
proof -
  obtain n s2 st s3 where 2: "store_bytes v s1 = (Inr n, s2)" and 3: "vault_get_state env v s2 = (Inr st, s3)"
    and rest: "(let victim = find_victim preserve (vs_last_working st) (ms @ [m]) in
           if victim = []
           then io_fail (Msg ''config vault retention cannot be satisfied without deleting a protected snapshot'')
           else io_bind (fs_remove (manifest_path v victim)) (\<lambda>_.
                io_bind (gc_objects env v) (\<lambda>_. io_return False))) s3 = (Inr b, s')"
    using run list full unfolding prune_round_def
    by (auto simp: io_bind_def split: prod.splits sum.splits if_splits)
  have same: "node_at s3 = node_at s"
    using vault_list_result(1) [OF list] store_bytes_result [OF 2] vault_get_state_result(1) [OF 3] by simp
  have "vs_last_working st = []"
  proof -
    obtain res t where 4: "fs_lstat (state_path v) s2 = (res, t)" by fastforce
    have "node_at s2 (state_path v) = None"
      using unmarked vault_list_result(1) [OF list] store_bytes_result [OF 2] by simp
    then have "\<exists>e. res = Inl e" using fs_lstat_result [OF 4] by (cases res) auto
    then show ?thesis using 3 4 by (auto simp: vault_get_state_def io_try_def split: if_splits)
  qed
  then have "find_victim preserve (vs_last_working st) (ms @ [m]) = sn_id m"
    using m snapshot_not_empty [OF m(2)] by (simp add: find_victim_def)
  then obtain s4 g where rm: "fs_remove (manifest_path v (sn_id m)) s3 = (Inr (), s4)" and gc: "gc_objects env v s4 = (g, s')"
    using rest snapshot_not_empty [OF m(2)] by (auto simp: Let_def io_bind_def split: prod.splits sum.splits)
  have gone: "node_at s4 (manifest_path v (sn_id m)) = None"
    using rm unfolding fs_remove_def by (elim syscall_cases) (auto split: option.splits if_splits)
  have "touches {manifest_path v (sn_id m)} (fs_remove (manifest_path v (sn_id m)))" by (intro frame) simp
  from touchesD [OF this rm] have "node_at s4 (snapshots_dir v) \<noteq> None"
    using dir same manifest_path_eq(1) [OF ok m(2)] by (simp add: same_except_def)
  from gc_retains [OF ok gc this] show ?thesis using gone by (metis retains_def)
qed

subsection \<open>A concrete restore\<close>

definition target_example :: "snapshot" where
  "target_example = \<lparr>sn_schema = 1, sn_id = ''cfg-1-0123456789abcdef'', sn_component = ''admin'', sn_reason = [],
     sn_transaction = [], sn_created = 1,
     sn_artifacts = [\<lparr>ar_id = ''file-0000000000000000'', ar_source = ''/opt/etc/routerforge/a'',
        ar_sha = sample_digest ''x'', ar_size = 1, ar_mode = 420, ar_modified = 7\<rparr>], sn_total = 1\<rparr>"

definition safety_example :: "snapshot" where
  "safety_example = \<lparr>sn_schema = 1, sn_id = ''cfg-5-00000000000000ff'', sn_component = ''admin'',
     sn_reason = ''pre-restore safety snapshot for cfg-1-0123456789abcdef'', sn_transaction = ''t1'',
     sn_created = sample_now,
     sn_artifacts = [\<lparr>ar_id = ''file-0000000000000000'', ar_source = ''/opt/etc/routerforge/a'',
        ar_sha = sample_digest ''y'', ar_size = 1, ar_mode = 384, ar_modified = 7\<rparr>], sn_total = 1\<rparr>"

definition restore_env :: "vault_env" where
  "restore_env = \<lparr>ve_digest = sample_digest,
     ve_enc = (\<lambda>m. if m = target_example then Inr ''t'' else if m = safety_example then Inr ''s'' else Inl ErrIO),
     ve_dec = (\<lambda>c. if c = ''t'' @ [CHR 0x0A] then Inr target_example
                   else if c = ''s'' @ [CHR 0x0A] then Inr safety_example else Inl ErrIO),
     ve_enc_state = (\<lambda>_. Inl ErrIO), ve_dec_state = (\<lambda>_. Inl ErrIO), ve_mtime = (\<lambda>_. 7)\<rparr>"

definition restore_os :: "os" where
  "restore_os = \<lparr>tree = [(''/opt'', Directory 493), (''/opt/etc'', Directory 493), (managed_root, Directory 493),
      (''/opt/etc/routerforge/a'', Regular 384 ''y''), (config_vault_root, Directory 448),
      (objects_dir admin_vault, Directory 448), (snapshots_dir admin_vault, Directory 448),
      (object_path admin_vault (sample_digest ''x''), Regular 384 ''x''),
      (manifest_path admin_vault ''cfg-1-0123456789abcdef'', Regular 384 (''t'' @ [CHR 0x0A]))],
    faults = [], entropy = [''1'', ''2'', ''3'', ''4''], realpath = Inr\<rparr>"

definition restore_request :: "restore_body" where
  "restore_request = \<lparr>rb_snapshot = ''cfg-1-0123456789abcdef'', rb_confirm_snapshot = ''cfg-1-0123456789abcdef'',
     rb_transaction = ''t1'', rb_confirm = ''RESTORE''\<rparr>"

definition restore_run :: "(int \<times> restore_answer) \<times> os" where
  "restore_run = handle_restore restore_env sample_now (Inr ''00000000000000ff'') (Inr restore_request) restore_os"

lemma restore_run_code: "fst (fst restore_run) = 200"
  by code_simp

lemma restore_env_codec: "codec_ok restore_env"
proof -
  have "target_example \<noteq> safety_example" by code_simp
  then show ?thesis by (auto simp: codec_ok_def restore_env_def split: if_splits)
qed

lemma restore_os_stored:
  assumes "stored restore_env admin_vault (node_at restore_os) m"
  shows "snapshot_sums m = {(''/opt/etc/routerforge/a'', sample_digest ''x'')}"
proof -
  have "m = target_example \<or> m = safety_example"
    using assms by (auto simp: stored_def restore_env_def split: if_splits)
  moreover have "node_at restore_os (manifest_path admin_vault (sn_id safety_example)) = None" by code_simp
  then have "m \<noteq> safety_example" using assms by (auto simp: stored_def)
  ultimately show ?thesis by (simp add: snapshot_sums_def target_example_def)
qed

theorem restore_witness:
  "\<exists>out. fst restore_run = (200, RestoreAnswer out) \<and> mf_state (ro_tx out) = Committed \<and>
     managed_sums restore_env (snd restore_run) = {(''/opt/etc/routerforge/a'', sample_digest ''x'')}"
proof -
  obtain ans s' where run: "restore_run = ((200, ans), s')"
    using restore_run_code by (metis prod.collapse)
  have h: "suffix_ok (Inr ''00000000000000ff'')" "fresh_id sample_now (Inr ''00000000000000ff'') restore_os" by code_simp+
  have tidy: "tidy_names restore_os" by (rule tidy_by_list) code_simp
  note p = restore_ends_as_reported [OF sample_ok(3) h(1) restore_env_codec h(2) tidy run [unfolded restore_run_def]]
  obtain out where out: "ans = RestoreAnswer out" "mf_state (ro_tx out) = Committed"
    using p by (auto split: restore_answer.splits tx_state.splits)
  then obtain m where "stored restore_env admin_vault (node_at restore_os) m"
      "snapshot_sums m = managed_sums restore_env s'" using p by auto
  then show ?thesis using out run restore_os_stored by (metis fst_conv snd_conv)
qed

end
