(* ===== verification/Go_Net.thy ===== *)
theory Go_Net
  imports Go_Std "HOL-Library.Word"
begin

text \<open>
  The parts of package \<^verbatim>\<open>net\<close> the program relies on: \<^verbatim>\<open>ParseIP\<close>, \<^verbatim>\<open>ParseCIDR\<close>, \<^verbatim>\<open>To4\<close> and
  \<^verbatim>\<open>IPNet.Contains\<close>. An address is its list of bytes, 16 of them, an IPv4 address in the mapped
  form \<open>::ffff:a.b.c.d\<close>, as Go keeps it.
\<close>

unbundle bit_operations_syntax

type_synonym byte = "8 word"
type_synonym ip = "byte list"

definition mapped_prefix :: "ip" where
  "mapped_prefix = replicate 10 0 @ [255, 255]"

definition to4 :: "ip \<Rightarrow> ip option" where
  "to4 a =
     (if length a = 4 then Some a
      else if length a = 16 \<and> take 12 a = mapped_prefix then Some (drop 12 a)
      else None)"

subsection \<open>Textual addresses\<close>

text \<open>The decimal fields of an IPv4 address: no empty field, no leading zero, at most 255.\<close>

definition parse_octet :: "string \<Rightarrow> byte option" where
  "parse_octet s =
     (if s = [] \<or> \<not> list_all is_digit s \<or> length s > 3 then None
      else if length s > 1 \<and> hd s = CHR ''0'' then None
      else if int (digits_value s) > 255 then None
      else Some (of_nat (digits_value s)))"

definition parse_ipv4 :: "string \<Rightarrow> ip option" where
  "parse_ipv4 s =
     (case map parse_octet (split_char (CHR ''.'') s) of
        [Some a, Some b, Some c, Some d] \<Rightarrow> Some [a, b, c, d]
      | _ \<Rightarrow> None)"

definition hex_value :: "char \<Rightarrow> nat option" where
  "hex_value c =
     (let b = byte_of c in
      if 48 \<le> b \<and> b \<le> 57 then Some (b - 48)
      else if 97 \<le> b \<and> b \<le> 102 then Some (b - 87)
      else if 65 \<le> b \<and> b \<le> 70 then Some (b - 55)
      else None)"

fun hex_number :: "string \<Rightarrow> nat" where
  "hex_number s = foldl (\<lambda>a c. 16 * a + (case hex_value c of Some d \<Rightarrow> d | None \<Rightarrow> 0)) 0 s"

definition chunk_bytes :: "nat \<Rightarrow> byte list" where
  "chunk_bytes n = [of_nat (n div 256), of_nat (n mod 256)]"

text \<open>
  The loop of the IPv6 parser: \<open>s\<close> is what is left, \<open>out\<close> the bytes so far, \<open>ell\<close> the position
  of the ellipsis. The result is the bytes, the ellipsis and what is left at the end of the loop.
\<close>

fun ipv6_loop :: "nat \<Rightarrow> string \<Rightarrow> byte list \<Rightarrow> nat option \<Rightarrow> (byte list \<times> nat option \<times> string) option" where
  "ipv6_loop 0 s out ell = Some (out, ell, s)"
| "ipv6_loop (Suc fuel) s out ell =
     (if length out \<ge> 16 then Some (out, ell, s)
      else
        (let digits = takeWhile (\<lambda>c. hex_value c \<noteq> None) s;
             rest = drop (length digits) s in
         if digits = [] \<or> length digits > 4 then None
         else if rest \<noteq> [] \<and> hd rest = CHR ''.'' then
           (if ell = None \<and> length out \<noteq> 12 then None
            else if length out + 4 > 16 then None
            else (case parse_ipv4 s of None \<Rightarrow> None | Some v4 \<Rightarrow> Some (out @ v4, ell, [])))
         else
           (let out' = out @ chunk_bytes (hex_number digits) in
            case rest of
              [] \<Rightarrow> Some (out', ell, [])
            | c # more \<Rightarrow>
                if c \<noteq> CHR '':'' \<or> more = [] then None
                else if hd more = CHR '':'' then
                  (if ell \<noteq> None then None
                   else if tl more = [] then Some (out', Some (length out'), [])
                   else ipv6_loop fuel (tl more) out' (Some (length out')))
                else ipv6_loop fuel more out' ell)))"

definition parse_ipv6 :: "string \<Rightarrow> ip option" where
  "parse_ipv6 s =
     (let lead = has_prefix s ''::'';
          body = (if lead then drop 2 s else s) in
      if lead \<and> body = [] then Some (replicate 16 0)
      else
        (case ipv6_loop 9 body [] (if lead then Some 0 else None) of
           None \<Rightarrow> None
         | Some (out, ell, left) \<Rightarrow>
             if left \<noteq> [] then None
             else if length out < 16 then
               (case ell of None \<Rightarrow> None
                | Some e \<Rightarrow> Some (take e out @ replicate (16 - length out) 0 @ drop e out))
             else (case ell of None \<Rightarrow> Some out | Some _ \<Rightarrow> None)))"

text \<open>The first of \<open>.\<close>, \<open>:\<close> and \<open>%\<close> decides which parser reads the text; an address with a zone
  is refused by the callers modelled here.\<close>

definition addr_kind :: "string \<Rightarrow> char option" where
  "addr_kind s = List.find (\<lambda>c. c = CHR ''.'' \<or> c = CHR '':'' \<or> c = CHR ''%'') s"

text \<open>The bytes in 16-byte form and whether the text was an IPv4 address.\<close>

definition parse_addr :: "string \<Rightarrow> (ip \<times> bool) option" where
  "parse_addr s =
     (if addr_kind s = Some (CHR ''.'') then map_option (\<lambda>a. (mapped_prefix @ a, True)) (parse_ipv4 s)
      else if addr_kind s = Some (CHR '':'') \<and> CHR ''%'' \<notin> set s
      then map_option (\<lambda>a. (a, False)) (parse_ipv6 s)
      else None)"

definition parse_ip :: "string \<Rightarrow> ip option" where
  "parse_ip s = map_option fst (parse_addr s)"

subsection \<open>Networks\<close>

text \<open>A network is the masked address and the mask; both have 4 or both have 16 bytes.\<close>

record ipnet =
  in_ip :: ip
  in_mask :: "byte list"

definition mask_byte :: "nat \<Rightarrow> byte" where
  "mask_byte k = (if k \<ge> 8 then 255 else push_bit (8 - k) 255)"

definition cidr_mask :: "nat \<Rightarrow> nat \<Rightarrow> byte list" where
  "cidr_mask ones len = map (\<lambda>i. mask_byte (ones - 8 * i)) [0 ..< len]"

definition mask_ip :: "ip \<Rightarrow> byte list \<Rightarrow> ip" where
  "mask_ip a m = map2 (AND) a m"

definition parse_prefix_len :: "string \<Rightarrow> nat option" where
  "parse_prefix_len s =
     (if s = [] \<or> \<not> list_all is_digit s \<or> int (digits_value s) \<ge> 0xFFFFFF then None else Some (digits_value s))"

definition parse_cidr :: "string \<Rightarrow> ipnet option" where
  "parse_cidr s =
     (case split_char (CHR ''/'') s of
        addr # rest \<Rightarrow>
          (if rest = [] then None
           else
             (case parse_addr addr of
                None \<Rightarrow> None
              | Some (a, v4) \<Rightarrow>
                  (case parse_prefix_len (join ''/'' rest) of
                     None \<Rightarrow> None
                   | Some n \<Rightarrow>
                       if n > (if v4 then 32 else 128) then None
                       else if v4
                       then Some \<lparr>in_ip = mask_ip (drop 12 a) (cidr_mask n 4), in_mask = cidr_mask n 4\<rparr>
                       else Some \<lparr>in_ip = mask_ip a (cidr_mask n 16), in_mask = cidr_mask n 16\<rparr>)))
      | [] \<Rightarrow> None)"

definition ipnet_contains :: "ipnet \<Rightarrow> ip \<Rightarrow> bool" where
  "ipnet_contains net a =
     (let nn = (case to4 (in_ip net) of Some x \<Rightarrow> x | None \<Rightarrow> in_ip net);
          m = (if length (in_mask net) = 16 \<and> length nn = 4 then drop 12 (in_mask net) else in_mask net);
          x = (case to4 a of Some y \<Rightarrow> y | None \<Rightarrow> a)
      in length m = length nn \<and> length x = length nn \<and> mask_ip nn m = mask_ip x m)"

subsection \<open>A network contains the addresses that share its prefix\<close>

text \<open>The first \<open>n\<close> bits of a byte string.\<close>

definition byte_bits :: "byte \<Rightarrow> bool list" where
  "byte_bits b = map (bit b) (rev [0 ..< 8])"

definition bits_of :: "byte list \<Rightarrow> bool list" where
  "bits_of bs = concat (map byte_bits bs)"

lemma length_byte_bits [simp]: "length (byte_bits b) = 8"
  by (simp add: byte_bits_def)

lemma length_bits_of [simp]: "length (bits_of bs) = 8 * length bs"
  by (induction bs) (auto simp: bits_of_def)

lemma byte_bits_inj: "byte_bits a = byte_bits b \<longleftrightarrow> a = b"
proof
  assume "byte_bits a = byte_bits b"
  then have "bit a i = bit b i" if "i < 8" for i
    using that by (auto simp: byte_bits_def list_eq_iff_nth_eq rev_nth dest!: spec [of _ "7 - i"])
  then show "a = b" by (auto intro!: bit_word_eqI)
qed simp

lemma bit_mask_byte: "i < 8 \<Longrightarrow> bit (mask_byte k) i \<longleftrightarrow> 8 \<le> i + k"
proof -
  assume i: "i < 8"
  have m: "(255 :: byte) = mask 8" by (simp add: mask_eq_exp_minus_1)
  show ?thesis
    using i by (auto simp: mask_byte_def m bit_mask_iff bit_push_bit_iff)
qed

lemma mask_byte_take:
  "a AND mask_byte k = b AND mask_byte k \<longleftrightarrow> take k (byte_bits a) = take k (byte_bits b)"
proof
  assume eq: "a AND mask_byte k = b AND mask_byte k"
  have "bit a i = bit b i" if "i < 8" "8 \<le> i + k" for i
  proof -
    have "bit (a AND mask_byte k) i = bit (b AND mask_byte k) i" using eq by simp
    then show ?thesis using that by (simp add: bit_and_iff bit_mask_byte)
  qed
  then show "take k (byte_bits a) = take k (byte_bits b)"
    by (intro nth_equalityI) (auto simp: byte_bits_def rev_nth)
next
  assume eq: "take k (byte_bits a) = take k (byte_bits b)"
  have "bit a i = bit b i" if "i < 8" "8 \<le> i + k" for i
  proof -
    have "take k (byte_bits a) ! (7 - i) = take k (byte_bits b) ! (7 - i)" using eq by simp
    then show ?thesis using that by (auto simp: byte_bits_def rev_nth)
  qed
  then show "a AND mask_byte k = b AND mask_byte k"
    by (auto intro!: bit_word_eqI simp: bit_and_iff bit_mask_byte)
qed

lemma mask_ip_take:
  "length a = length b \<Longrightarrow>
   mask_ip a (map (\<lambda>i. mask_byte (n - 8 * i)) [k ..< k + length a]) =
     mask_ip b (map (\<lambda>i. mask_byte (n - 8 * i)) [k ..< k + length a])
   \<longleftrightarrow> take (n - 8 * k) (bits_of a) = take (n - 8 * k) (bits_of b)"
proof (induction a b arbitrary: k rule: list_induct2)
  case Nil
  then show ?case by (simp add: mask_ip_def bits_of_def)
next
  case (Cons x xs y ys)
  have split: "[k ..< Suc (k + length ys)] = k # [Suc k ..< Suc (k + length ys)]"
    by (simp add: upt_conv_Cons del: upt_Suc)
  have "n - 8 * Suc k = (n - 8 * k) - 8" by simp
  then show ?case
    using Cons.IH [of "Suc k"] Cons.hyps mask_byte_take [of x "n - 8 * k" y]
    by (auto simp: split mask_ip_def bits_of_def simp del: upt_Suc)
qed

lemma mask_ip_prefix:
  "length a = length b \<Longrightarrow>
   mask_ip a (cidr_mask n (length a)) = mask_ip b (cidr_mask n (length a)) \<longleftrightarrow>
   take n (bits_of a) = take n (bits_of b)"
  using mask_ip_take [of a b n 0] by (simp add: cidr_mask_def)

lemma mask_ip_idem: "length m = length a \<Longrightarrow> mask_ip (mask_ip a m) m = mask_ip a m"
  by (induction m a rule: list_induct2) (auto simp: mask_ip_def and.assoc)

lemma length_mask_ip [simp]: "length (mask_ip a m) = min (length a) (length m)"
  by (simp add: mask_ip_def)

lemma length_cidr_mask [simp]: "length (cidr_mask n l) = l"
  by (simp add: cidr_mask_def)

text \<open>For an IPv4 network: the addresses whose first \<open>n\<close> bits are the network's.\<close>

lemma contains_v4:
  assumes "length a = 4" and "net = \<lparr>in_ip = mask_ip a (cidr_mask n 4), in_mask = cidr_mask n 4\<rparr>"
  shows "ipnet_contains net x \<longleftrightarrow>
     (\<exists>y. to4 x = Some y \<and> length y = 4 \<and> take n (bits_of y) = take n (bits_of a))"
proof -
  have four: "to4 (in_ip net) = Some (in_ip net)" "length (in_mask net) = 4" "length (in_ip net) = 4"
    using assms by (simp_all add: to4_def)
  have idem: "mask_ip (in_ip net) (in_mask net) = in_ip net"
    using assms mask_ip_idem [of "cidr_mask n 4" a] by simp
  have eq: "in_ip net = mask_ip y (cidr_mask n 4) \<longleftrightarrow> take n (bits_of y) = take n (bits_of a)" if "length y = 4" for y
    using mask_ip_prefix [of a y n] assms that by auto
  have len: "to4 x = Some y \<Longrightarrow> length y = 4" for y by (auto simp: to4_def split: if_splits)
  show ?thesis
  proof (cases "to4 x")
    case None
    then have "length x \<noteq> 4" by (auto simp: to4_def split: if_splits)
    then show ?thesis using four None by (simp add: ipnet_contains_def)
  next
    case (Some y)
    then show ?thesis
      using four idem eq [OF len [OF Some]] len [OF Some] assms(2) by (simp add: ipnet_contains_def)
  qed
qed

subsection \<open>Host and port\<close>

fun index_of :: "char \<Rightarrow> string \<Rightarrow> nat option" where
  "index_of c [] = None"
| "index_of c (d # s) = (if c = d then Some 0 else map_option Suc (index_of c s))"

definition last_index_of :: "char \<Rightarrow> string \<Rightarrow> nat option" where
  "last_index_of c s = map_option (\<lambda>i. length s - 1 - i) (index_of c (rev s))"

text \<open>\<^verbatim>\<open>SplitHostPort\<close>; \<open>None\<close> is any of its errors.\<close>

definition split_host_port :: "string \<Rightarrow> (string \<times> string) option" where
  "split_host_port hp =
     (case last_index_of (CHR '':'') hp of
        None \<Rightarrow> None
      | Some i \<Rightarrow>
          if hp \<noteq> [] \<and> hd hp = CHR ''['' then
            (case index_of (CHR '']'') hp of
               None \<Rightarrow> None
             | Some e \<Rightarrow>
                 if e + 1 \<noteq> i then None
                 else if CHR ''['' \<in> set (drop 1 hp) \<or> CHR '']'' \<in> set (drop (e + 1) hp) then None
                 else Some (drop 1 (take e hp), drop (i + 1) hp))
          else if CHR '':'' \<in> set (take i hp) then None
          else if CHR ''['' \<in> set hp \<or> CHR '']'' \<in> set hp then None
          else Some (take i hp, drop (i + 1) hp))"

definition is_loopback :: "ip \<Rightarrow> bool" where
  "is_loopback a = (case to4 a of Some v \<Rightarrow> hd v = 127 | None \<Rightarrow> a = replicate 15 0 @ [1])"

text \<open>\<^verbatim>\<open>IsUnspecified\<close>, \<^verbatim>\<open>String\<close> of an IPv4 address and \<^verbatim>\<open>JoinHostPort\<close>.\<close>

definition is_unspecified :: "ip \<Rightarrow> bool" where
  "is_unspecified a = (case to4 a of Some v \<Rightarrow> v = [0, 0, 0, 0] | None \<Rightarrow> a = replicate 16 0)"

definition ip4_string :: "byte list \<Rightarrow> string" where
  "ip4_string v = join ''.'' (map (\<lambda>b. itoa (uint b)) v)"

definition join_host_port :: "string \<Rightarrow> string \<Rightarrow> string" where
  "join_host_port host port =
     (if CHR '':'' \<in> set host \<or> CHR ''%'' \<in> set host then ''['' @ host @ '']:'' @ port else host @ '':'' @ port)"

lemma nat_digits_one: "n < 10 \<Longrightarrow> length (nat_digits n) = 1"
  by (subst nat_digits.simps) simp

lemma nat_digits_more: "\<not> n < 10 \<Longrightarrow> length (nat_digits n) = Suc (length (nat_digits (n div 10)))"
  by (subst nat_digits.simps) simp

lemma nat_digits_small:
  assumes "n < 1000"
  shows "length (nat_digits n) \<le> 3"
proof -
  have "n div 10 div 10 < 10" using assms by simp
  then show ?thesis
    using nat_digits_more [of n] nat_digits_more [of "n div 10"] nat_digits_one [of n] nat_digits_one [of "n div 10"]
      nat_digits_one [of "n div 10 div 10"] by linarith
qed

lemma nat_digits_hd: "0 < n \<Longrightarrow> hd (nat_digits n) \<noteq> CHR ''0''"
proof (induction n rule: nat_digits.induct)
  case (1 n)
  show ?case
  proof (cases "n < 10")
    case True
    then have "byte_of (hd (nat_digits n)) = 48 + n"
      by (subst nat_digits.simps) (simp add: digit_char_byte)
    then show ?thesis using "1.prems" by (auto simp: byte_of_def)
  next
    case False
    then have "hd (nat_digits (n div 10)) \<noteq> CHR ''0''" using "1.IH" by simp
    then show ?thesis using False by (subst nat_digits.simps) simp
  qed
qed

lemma parse_octet_digits: "n \<le> 255 \<Longrightarrow> parse_octet (nat_digits n) = Some (of_nat n)"
proof -
  assume n: "n \<le> 255"
  have "\<not> (1 < length (nat_digits n) \<and> hd (nat_digits n) = CHR ''0'')"
    using nat_digits_hd [of n] nat_digits_one [of n] by (cases "n = 0") auto
  moreover have "length (nat_digits n) \<le> 3" using nat_digits_small [of n] n by simp
  ultimately show ?thesis
    using nat_digits_digits [of n] n unfolding parse_octet_def by auto
qed

lemma itoa_nonneg: "0 \<le> n \<Longrightarrow> itoa n = nat_digits (nat n)"
  by (simp add: itoa_def)

lemma parse_octet_itoa: "parse_octet (itoa (uint (b :: byte))) = Some b"
proof -
  have "uint b < 256" using uint_lt2p [of b] by simp
  then have "nat (uint b) \<le> 255" by linarith
  then show ?thesis
    using parse_octet_digits [of "nat (uint b)"] by (simp add: itoa_nonneg)
qed

lemma itoa_byte: "c \<in> set (itoa (uint b)) \<Longrightarrow> is_digit c"
  using nat_digits_digits [of "nat (uint b)"] by (auto simp: itoa_nonneg list_all_iff)

lemma ip4_string_chars: "c \<in> set (ip4_string v) \<Longrightarrow> c = CHR ''.'' \<or> is_digit c"
  using set_join [of "''.''" "map (\<lambda>b. itoa (uint b)) v"] itoa_byte [of c] by (auto simp: ip4_string_def)

lemma parse_ipv4_string: "length v = 4 \<Longrightarrow> parse_ipv4 (ip4_string v) = Some v"
proof -
  assume "length v = 4"
  then obtain a b c d where v: "v = [a, b, c, d]"
    by (auto simp: eval_nat_numeral length_Suc_conv)
  have "CHR ''.'' \<notin> set (itoa (uint x))" for x :: byte
    using itoa_byte [of "CHR ''.''" x] by (auto simp: is_digit_def byte_of_def)
  then have "split_char (CHR ''.'') (ip4_string v) = map (\<lambda>b. itoa (uint b)) v"
    unfolding ip4_string_def by (intro split_char_join) (auto simp: v)
  then show ?thesis
    by (simp add: parse_ipv4_def v parse_octet_itoa)
qed

end
