(* ===== verification/Auth.thy ===== *)
theory Auth
  imports Safety_File Go_Net "HOL-Library.Product_Lexorder"
begin

text \<open>
  \<^verbatim>\<open>components/core/auth.go\<close>: sessions, the login throttle, the persistent switch and the HTTP
  handlers. Go maps are association lists in iteration order. A handler takes the manager and the
  operating system and returns the response with both; the mutex makes every method one step.
  \<open>clock k\<close> is the \<open>k\<close>-th reading of the clock in a call. Parameters: \<open>crypt\<close> for
  \<^verbatim>\<open>verifyUnixCrypt\<close>, \<open>url_host\<close> for the host of a parsed URL, the token for the random bytes
  in base64 (an error when the generator fails), the decoded request body, the JSON codec of the
  settings file.
\<close>

record auth_session =
  se_user :: string
  se_expires :: time

record login_attempt =
  la_start :: time
  la_failures :: int
  la_blocked :: time

record auth =
  au_required :: bool
  au_sessions :: "(string \<times> auth_session) list"
  au_attempts :: "(string \<times> login_attempt) list"

record auth_status =
  st_required :: bool
  st_authenticated :: bool
  st_user :: string
  st_hours :: int

text \<open>A request: what the handlers read of \<^verbatim>\<open>http.Request\<close>; \<open>ht_cookie\<close> is the value of the session
  cookie.\<close>

record http_request =
  ht_method :: string
  ht_path :: string
  ht_remote :: string
  ht_host :: string
  ht_cookie :: "string option"
  ht_origin :: string

datatype cookie = NoCookie | SessionCookie string time | ClearedCookie

record http_response =
  hr_code :: int
  hr_error :: string
  hr_cookie :: cookie
  hr_retry :: "int option"
  hr_status :: "auth_status option"

definition reply :: "int \<Rightarrow> string \<Rightarrow> http_response" where
  "reply code err = \<lparr>hr_code = code, hr_error = err, hr_cookie = NoCookie, hr_retry = None, hr_status = None\<rparr>"

definition security_config_path :: "string" where
  "security_config_path = ''/opt/etc/routerforge/security.json''"

definition session_ttl :: "duration" where
  "session_ttl = 12 * 3600 * second"

definition attempt_window :: "duration" where
  "attempt_window = 5 * 60 * second"

definition block_ttl :: "duration" where
  "block_ttl = 30 * second"

definition max_attempts :: "int" where
  "max_attempts = 1024"

definition new_auth_manager :: "(string \<Rightarrow> bool option) \<Rightarrow> os \<Rightarrow> auth \<times> os" where
  "new_auth_manager decode s =
     (case fs_read_file security_config_path s of
        (Inr data, s') \<Rightarrow>
          (\<lparr>au_required = (case decode data of None \<Rightarrow> True | Some b \<Rightarrow> b), au_sessions = [], au_attempts = []\<rparr>, s')
      | (Inl e, s') \<Rightarrow>
          (\<lparr>au_required = \<not> is_not_exist e, au_sessions = [], au_attempts = []\<rparr>, s'))"

subsection \<open>Sessions\<close>

definition session_user :: "time \<Rightarrow> http_request \<Rightarrow> auth \<Rightarrow> (string \<times> bool) \<times> auth" where
  "session_user now r a =
     (case ht_cookie r of
        None \<Rightarrow> (([], False), a)
      | Some tok \<Rightarrow>
          if tok = [] then (([], False), a)
          else
            (case map_of (au_sessions a) tok of
               None \<Rightarrow> (([], False), a)
             | Some se \<Rightarrow>
                 if \<not> se_expires se > now
                 then (([], False), a\<lparr>au_sessions := AList.delete tok (au_sessions a)\<rparr>)
                 else ((se_user se, True), a)))"

definition auth_status_of :: "time \<Rightarrow> http_request \<Rightarrow> auth \<Rightarrow> auth_status \<times> auth" where
  "auth_status_of now r a =
     (let required = au_required a in
      case session_user now r a of
        ((user, authenticated), a') \<Rightarrow>
          (\<lparr>st_required = required, st_authenticated = (if \<not> required then True else authenticated),
            st_user = user, st_hours = 12\<rparr>, a'))"

definition cleanup_sessions :: "time \<Rightarrow> auth \<Rightarrow> auth" where
  "cleanup_sessions now a = a\<lparr>au_sessions := filter (\<lambda>(t, se). se_expires se > now) (au_sessions a)\<rparr>"

text \<open>\<open>t1\<close> and \<open>t2\<close> are the two readings of the clock in \<^verbatim>\<open>createSession\<close>.\<close>

definition create_session ::
    "time \<Rightarrow> time \<Rightarrow> go_error + string \<Rightarrow> string \<Rightarrow> auth \<Rightarrow> (go_error + cookie) \<times> auth" where
  "create_session t1 t2 tok user a =
     (case tok of
        Inl e \<Rightarrow> (Inl e, a)
      | Inr t \<Rightarrow>
          (let expires = t1 + session_ttl;
               a1 = a\<lparr>au_sessions := AList.update t \<lparr>se_user = user, se_expires = expires\<rparr> (au_sessions a)\<rparr>
           in (Inr (SessionCookie t expires), cleanup_sessions t2 a1)))"

definition clear_session :: "http_request \<Rightarrow> auth \<Rightarrow> auth" where
  "clear_session r a =
     (case ht_cookie r of
        Some tok \<Rightarrow> if tok \<noteq> [] then a\<lparr>au_sessions := AList.delete tok (au_sessions a)\<rparr> else a
      | None \<Rightarrow> a)"

subsection \<open>The login throttle\<close>

definition retention_time :: "login_attempt \<Rightarrow> time" where
  "retention_time at = (if la_blocked at > la_start at then la_blocked at else la_start at)"

definition evicts_before :: "time \<Rightarrow> string \<times> login_attempt \<Rightarrow> string \<times> login_attempt \<Rightarrow> bool" where
  "evicts_before now x y =
     (let xb = (la_blocked (snd x) > now); yb = (la_blocked (snd y) > now) in
      if xb \<noteq> yb then \<not> xb
      else if retention_time (snd x) \<noteq> retention_time (snd y)
      then retention_time (snd x) < retention_time (snd y)
      else fst x < fst y)"

text \<open>The scan for a victim; the code tells "none yet" by the empty name.\<close>

fun pick_victim ::
    "time \<Rightarrow> string \<Rightarrow> (string \<times> login_attempt) list \<Rightarrow> string \<times> login_attempt \<Rightarrow> string \<times> login_attempt" where
  "pick_victim now keep [] victim = victim"
| "pick_victim now keep (x # xs) victim =
     (if fst x = keep then pick_victim now keep xs victim
      else if fst victim = [] \<or> evicts_before now x victim then pick_victim now keep xs x
      else pick_victim now keep xs victim)"

definition no_victim :: "string \<times> login_attempt" where
  "no_victim = ([], \<lparr>la_start = zero_time, la_failures = 0, la_blocked = zero_time\<rparr>)"

lemma pick_victim_mem:
  "pick_victim now keep xs v = v \<or> pick_victim now keep xs v \<in> set xs"
proof (induction xs arbitrary: v)
  case Nil
  then show ?case by simp
next
  case (Cons x xs)
  have "pick_victim now keep (x # xs) v \<in> {pick_victim now keep xs v, pick_victim now keep xs x}" by simp
  then show ?case using Cons.IH [of v] Cons.IH [of x] by (metis insertE empty_iff list.set_intros)
qed

lemma length_alist_delete_less: "k \<in> fst ` set xs \<Longrightarrow> length (AList.delete k xs) < length xs"
proof -
  assume "k \<in> fst ` set xs"
  then obtain v where "(k, v) \<in> set xs" by auto
  then show ?thesis unfolding AList.delete_eq by (intro length_filter_less [of "(k, v)"]) auto
qed

function evict_loop :: "time \<Rightarrow> string \<Rightarrow> (string \<times> login_attempt) list \<Rightarrow> (string \<times> login_attempt) list" where
  "evict_loop now keep xs =
     (if int (length xs) > max_attempts then
        (let victim = fst (pick_victim now keep xs no_victim) in
         if victim = [] then xs else evict_loop now keep (AList.delete victim xs))
      else xs)"
  by pat_completeness auto
termination
proof (relation "measure (\<lambda>(now, keep, xs). length xs)", goal_cases)
  case 1
  show ?case by simp
next
  case (2 now keep xs victim)
  then have "pick_victim now keep xs no_victim \<in> set xs"
    using pick_victim_mem [of now keep xs no_victim] by (auto simp: no_victim_def)
  then have "victim \<in> fst ` set xs" using 2(2) by simp
  then show ?case by (simp add: length_alist_delete_less)
qed

declare evict_loop.simps [simp del]

definition stale :: "time \<Rightarrow> login_attempt \<Rightarrow> bool" where
  "stale now at \<longleftrightarrow> is_zero (la_start at) \<or> time_sub now (la_start at) > attempt_window"

definition cleanup_attempts :: "time \<Rightarrow> string \<Rightarrow> auth \<Rightarrow> auth" where
  "cleanup_attempts now keep a =
     a\<lparr>au_attempts := evict_loop now keep
         (filter (\<lambda>(c, at). la_blocked at > now \<or> \<not> stale now at) (au_attempts a))\<rparr>"

definition login_blocked_for :: "time \<Rightarrow> string \<Rightarrow> auth \<Rightarrow> duration \<times> auth" where
  "login_blocked_for now client a =
     (let a1 = cleanup_attempts now client a in
      case map_of (au_attempts a1) client of
        None \<Rightarrow> (0, a1)
      | Some at \<Rightarrow> if la_blocked at > now then (time_sub (la_blocked at) now, a1) else (0, a1))"

definition record_login_failure :: "time \<Rightarrow> string \<Rightarrow> auth \<Rightarrow> auth" where
  "record_login_failure now client a =
     (let at0 = (case map_of (au_attempts a) client of Some at \<Rightarrow> at | None \<Rightarrow> snd no_victim);
          at1 = (if stale now at0 then \<lparr>la_start = now, la_failures = 0, la_blocked = zero_time\<rparr> else at0);
          at2 = at1\<lparr>la_failures := la_failures at1 + 1\<rparr>;
          at3 = (if la_failures at2 \<ge> 5
                 then at2\<lparr>la_blocked := now + block_ttl, la_failures := 0, la_start := now\<rparr> else at2)
      in cleanup_attempts now client (a\<lparr>au_attempts := AList.update client at3 (au_attempts a)\<rparr>))"

definition clear_login_failures :: "string \<Rightarrow> auth \<Rightarrow> auth" where
  "clear_login_failures client a = a\<lparr>au_attempts := AList.delete client (au_attempts a)\<rparr>"

definition auth_client_key :: "http_request \<Rightarrow> string" where
  "auth_client_key r =
     (case split_host_port (ht_remote r) of
        Some (host, port) \<Rightarrow> if host \<noteq> [] then host else ht_remote r
      | None \<Rightarrow> ht_remote r)"

definition same_origin :: "(string \<Rightarrow> string option) \<Rightarrow> http_request \<Rightarrow> bool" where
  "same_origin url_host r =
     (let origin = trim_space (ht_origin r) in
      if origin = [] then True
      else (case url_host origin of None \<Rightarrow> False | Some h \<Rightarrow> equal_fold h (ht_host r)))"

subsection \<open>Credentials\<close>

text \<open>The lines of a file as \<^verbatim>\<open>bufio.Scanner\<close> gives them.\<close>

definition scan_lines :: "string \<Rightarrow> string list" where
  "scan_lines content =
     (let parts = split_char (CHR 0x0A) content;
          ls = (if last parts = [] then butlast parts else parts)
      in map (\<lambda>l. trim_suffix l [CHR 0x0D]) ls)"

fun find_hash :: "string \<Rightarrow> string list \<Rightarrow> go_error + string option" where
  "find_hash user [] = Inr None"
| "find_hash user (line # rest) =
     (if int (length line) \<ge> 65536 then Inl (Msg ''bufio.Scanner: token too long'')
      else
        (case split_char (CHR '':'') line of
           name # pw # fs \<Rightarrow>
             if name = user then (if pw = ''x'' then Inr None else Inr (Some pw)) else find_hash user rest
         | _ \<Rightarrow> find_hash user rest))"

fun read_password_hash :: "string \<Rightarrow> string list \<Rightarrow> string io" where
  "read_password_hash user [] = io_fail (Msg ''Entware root password hash not found'')"
| "read_password_hash user (path # paths) =
     io_try (fs_read_file path) (\<lambda>res.
       case res of
         Inl e \<Rightarrow> if is_not_exist e then read_password_hash user paths else io_fail e
       | Inr content \<Rightarrow>
           (case find_hash user (scan_lines content) of
              Inl e \<Rightarrow> io_fail e
            | Inr (Some h) \<Rightarrow> io_return h
            | Inr None \<Rightarrow> read_password_hash user paths))"

definition verify_root :: "(string \<Rightarrow> string \<Rightarrow> go_error + bool) \<Rightarrow> string \<Rightarrow> string \<Rightarrow> bool io" where
  "verify_root crypt username password =
     (if username \<noteq> ''root'' then io_return False
      else io_bind (read_password_hash username [''/opt/etc/shadow'', ''/opt/etc/passwd'']) (\<lambda>h.
             case crypt h password of Inl e \<Rightarrow> io_fail e | Inr b \<Rightarrow> io_return b))"

definition save_config :: "(bool \<Rightarrow> go_error + string) \<Rightarrow> bool \<Rightarrow> auth \<Rightarrow> os \<Rightarrow> (go_error + unit) \<times> auth \<times> os" where
  "save_config encode required a s =
     (case encode required of
        Inl e \<Rightarrow> (Inl e, a, s)
      | Inr data \<Rightarrow>
          (case io_bind (fs_mkdir_all (path_dir security_config_path) 493) (\<lambda>_.
                  publish_via (path_dir security_config_path) ''.security-'' security_config_path
                    (data @ [CHR 0x0A]) 384) s of
             (Inl e, s') \<Rightarrow> (Inl e, a, s')
           | (Inr _, s') \<Rightarrow>
               (Inr (), a\<lparr>au_required := required,
                          au_sessions := (if \<not> required then [] else au_sessions a)\<rparr>, s')))"

subsection \<open>Handlers\<close>

text \<open>The paths that need no session, and the health probe of a module from the router itself.\<close>

definition auth_public_path :: "string \<Rightarrow> bool" where
  "auth_public_path p \<longleftrightarrow>
     p \<in> {''/api/auth/status'', ''/api/auth/login'', ''/api/auth/logout'', ''/api/auth/config'', ''/api/health''}"

definition trim_brackets :: "string \<Rightarrow> string" where
  "trim_brackets s =
     (let p = (\<lambda>c. c = CHR ''['' \<or> c = CHR '']'') in trim_right p (trim_left p s))"

definition loopback_module_health :: "http_request \<Rightarrow> bool" where
  "loopback_module_health r =
     (if ht_method r \<noteq> ''GET'' \<and> ht_method r \<noteq> ''HEAD'' then False
      else if \<not> has_prefix (ht_path r) ''/api/modules/'' then False
      else
        (case split_char (CHR ''/'') (trim_prefix (ht_path r) ''/api/modules/'') of
           [m, op] \<Rightarrow>
             if trim_space m = [] \<or> op \<noteq> ''health'' then False
             else
               (let remote = trim_space (ht_remote r);
                    host = (case split_host_port remote of Some (h, port) \<Rightarrow> h | None \<Rightarrow> trim_brackets remote)
                in case parse_ip host of None \<Rightarrow> False | Some a \<Rightarrow> is_loopback a)
         | _ \<Rightarrow> False))"

text \<open>\<^verbatim>\<open>middleware\<close>: \<open>None\<close> hands the request on to the wrapped handler.\<close>

definition auth_middleware :: "time \<Rightarrow> http_request \<Rightarrow> auth \<Rightarrow> http_response option \<times> auth" where
  "auth_middleware now r a =
     (if \<not> has_prefix (ht_path r) ''/api/'' \<or> auth_public_path (ht_path r) \<or> loopback_module_health r \<or>
         \<not> au_required a
      then (None, a)
      else
        (case session_user now r a of
           ((user, ok), a') \<Rightarrow>
             (if \<not> ok then Some (reply 401 ''authentication required'') else None, a')))"

definition handle_status :: "time \<Rightarrow> http_request \<Rightarrow> auth \<Rightarrow> http_response \<times> auth" where
  "handle_status now r a =
     (if ht_method r \<noteq> ''GET'' then (reply 405 ''GET required'', a)
      else (case auth_status_of now r a of (st, a') \<Rightarrow> ((reply 200 [])\<lparr>hr_status := Some st\<rparr>, a')))"

record login_request =
  lr_username :: string
  lr_password :: string

text \<open>Readings of the clock: 0 in the throttle, 1 in a failure, 2 and 3 in the new session.\<close>

definition handle_login ::
    "(string \<Rightarrow> string \<Rightarrow> go_error + bool) \<Rightarrow> (string \<Rightarrow> string option) \<Rightarrow> (nat \<Rightarrow> time) \<Rightarrow> go_error + string \<Rightarrow>
     go_error + login_request \<Rightarrow> http_request \<Rightarrow> auth \<Rightarrow> os \<Rightarrow> http_response \<times> auth \<times> os" where
  "handle_login crypt url_host clock tok body r a s =
     (if ht_method r \<noteq> ''POST'' then (reply 405 ''POST required'', a, s)
      else if \<not> same_origin url_host r then (reply 403 ''cross-origin request rejected'', a, s)
      else
        (case login_blocked_for (clock 0) (auth_client_key r) a of
           (wait, a1) \<Rightarrow>
             if wait > 0
             then ((reply 429 ''too many failed login attempts'')\<lparr>hr_retry := Some (wait div second + 1)\<rparr>, a1, s)
             else
               (case body of
                  Inl e \<Rightarrow> (reply 400 ''invalid login request'', a1, s)
                | Inr lr \<Rightarrow>
                    (case verify_root crypt (trim_space (lr_username lr)) (lr_password lr) s of
                       (res, s1) \<Rightarrow>
                         if res \<noteq> Inr True
                         then (reply 401 ''invalid Entware root credentials'',
                               record_login_failure (clock 1) (auth_client_key r) a1, s1)
                         else
                           (case create_session (clock 2) (clock 3) tok ''root'' a1 of
                              (Inl e, a2) \<Rightarrow> (reply 500 ''session creation failed'', a2, s1)
                            | (Inr c, a2) \<Rightarrow>
                                ((reply 200 [])\<lparr>hr_cookie := c\<rparr>, clear_login_failures (auth_client_key r) a2, s1))))))"

definition handle_logout ::
    "(string \<Rightarrow> string option) \<Rightarrow> http_request \<Rightarrow> auth \<Rightarrow> http_response \<times> auth" where
  "handle_logout url_host r a =
     (if ht_method r \<noteq> ''POST'' then (reply 405 ''POST required'', a)
      else if \<not> same_origin url_host r then (reply 403 ''cross-origin request rejected'', a)
      else ((reply 200 [])\<lparr>hr_cookie := ClearedCookie\<rparr>, clear_session r a))"

record auth_config_request =
  ac_required :: bool
  ac_username :: string
  ac_password :: string

definition handle_config ::
    "(string \<Rightarrow> string \<Rightarrow> go_error + bool) \<Rightarrow> (string \<Rightarrow> string option) \<Rightarrow> (bool \<Rightarrow> go_error + string) \<Rightarrow>
     (nat \<Rightarrow> time) \<Rightarrow> go_error + string \<Rightarrow> go_error + auth_config_request \<Rightarrow> http_request \<Rightarrow> auth \<Rightarrow> os \<Rightarrow>
     http_response \<times> auth \<times> os" where
  "handle_config crypt url_host encode clock tok body r a s =
     (if ht_method r \<noteq> ''POST'' then (reply 405 ''POST required'', a, s)
      else if \<not> same_origin url_host r then (reply 403 ''cross-origin request rejected'', a, s)
      else
        (case body of
           Inl e \<Rightarrow> (reply 400 ''invalid auth configuration request'', a, s)
         | Inr req \<Rightarrow>
             if ac_required req then
               (if \<not> au_required a then
                  (case verify_root crypt (trim_space (ac_username req)) (ac_password req) s of
                     (res, s1) \<Rightarrow>
                       if res \<noteq> Inr True
                       then (reply 401 ''valid Entware root credentials are required before enabling authentication'', a, s1)
                       else
                         (case save_config encode True a s1 of
                            (Inl e, a1, s2) \<Rightarrow> (reply 500 ''cannot save security settings'', a1, s2)
                          | (Inr _, a1, s2) \<Rightarrow>
                              (case create_session (clock 0) (clock 1) tok ''root'' a1 of
                                 (Inl e, a2) \<Rightarrow> (reply 500 ''session creation failed'', a2, s2)
                               | (Inr c, a2) \<Rightarrow>
                                   ((reply 200 [])\<lparr>hr_cookie := c,
                                      hr_status := Some \<lparr>st_required = True, st_authenticated = True,
                                                         st_user = ''root'', st_hours = 12\<rparr>\<rparr>, a2, s2))))
                else
                  (case auth_status_of (clock 0) r a of
                     (st, a1) \<Rightarrow> ((reply 200 [])\<lparr>hr_status := Some st\<rparr>, a1, s)))
             else
               (case (if au_required a then session_user (clock 0) r a else (([], True), a)) of
                  ((user, ok), a1) \<Rightarrow>
                    if \<not> ok then (reply 401 ''authentication required to disable authentication'', a1, s)
                    else
                      (case save_config encode False a1 s of
                         (Inl e, a2, s1) \<Rightarrow> (reply 500 ''cannot save security settings'', a2, s1)
                       | (Inr _, a2, s1) \<Rightarrow>
                           ((reply 200 [])\<lparr>hr_cookie := ClearedCookie,
                              hr_status := Some \<lparr>st_required = False, st_authenticated = True,
                                                 st_user = [], st_hours = 12\<rparr>\<rparr>,
                            clear_session r a2, s1)))))"

subsection \<open>Eviction is the minimum of a total order\<close>

definition evict_key :: "time \<Rightarrow> string \<times> login_attempt \<Rightarrow> bool \<times> time \<times> string" where
  "evict_key now x = (la_blocked (snd x) > now, retention_time (snd x), fst x)"

interpretation eviction: key_order "evicts_before now" "evict_key now" for now
  by unfold_locales (auto simp: evicts_before_def evict_key_def Let_def)

text \<open>Client names are distinct and not empty.\<close>

definition names_ok :: "(string \<times> login_attempt) list \<Rightarrow> bool" where
  "names_ok xs \<longleftrightarrow> distinct (map fst xs) \<and> [] \<notin> fst ` set xs"

lemma pick_victim_min:
  "\<lbrakk>fst v \<noteq> []; [] \<notin> fst ` set xs\<rbrakk> \<Longrightarrow>
   (pick_victim now keep xs v = v \<or> (pick_victim now keep xs v \<in> set xs \<and> fst (pick_victim now keep xs v) \<noteq> keep)) \<and>
   evict_key now (pick_victim now keep xs v) \<le> evict_key now v \<and>
   (\<forall>x\<in>set xs. fst x \<noteq> keep \<longrightarrow> evict_key now (pick_victim now keep xs v) \<le> evict_key now x)"
proof (induction xs arbitrary: v)
  case Nil
  then show ?case by simp
next
  case (Cons x xs)
  have xne: "fst x \<noteq> []" and xsne: "[] \<notin> fst ` set xs" using Cons.prems(2) by auto
  note v = Cons.IH [OF Cons.prems(1) xsne] and x = Cons.IH [OF xne xsne]
  show ?case
  proof (cases "fst x = keep")
    case True
    then show ?thesis using v by auto
  next
    case keep: False
    show ?thesis
    proof (cases "evicts_before now x v")
      case True
      then have "evict_key now x < evict_key now v" by (simp add: eviction.lt_key)
      then show ?thesis using x keep True by auto
    next
      case False
      then have "evict_key now v \<le> evict_key now x" by (simp add: eviction.lt_key not_less)
      then show ?thesis using v keep False Cons.prems(1) by auto
    qed
  qed
qed

lemma pick_victim_start:
  assumes "[] \<notin> fst ` set xs" and "\<exists>x\<in>set xs. fst x \<noteq> keep"
  shows "pick_victim now keep xs no_victim \<in> set xs \<and> fst (pick_victim now keep xs no_victim) \<noteq> keep \<and>
    (\<forall>x\<in>set xs. fst x \<noteq> keep \<longrightarrow> evict_key now (pick_victim now keep xs no_victim) \<le> evict_key now x)"
  using assms
proof (induction xs)
  case Nil
  then show ?case by simp
next
  case (Cons x xs)
  show ?case
  proof (cases "fst x = keep")
    case True
    then show ?thesis using Cons by auto
  next
    case False
    have "fst x \<noteq> []" "[] \<notin> fst ` set xs" using Cons.prems(1) by auto
    then show ?thesis
      using False pick_victim_min [of x xs now keep] by (auto simp: no_victim_def)
  qed
qed

lemma pick_victim_none:
  "\<forall>x\<in>set xs. fst x = keep \<Longrightarrow> pick_victim now keep xs v = v"
  by (induction xs) auto

lemma names_ok_delete: "names_ok xs \<Longrightarrow> names_ok (AList.delete k xs)"
  by (auto simp: names_ok_def AList.delete_eq distinct_map inj_on_def)

lemma names_ok_filter: "names_ok xs \<Longrightarrow> names_ok (filter p xs)"
  by (auto simp: names_ok_def distinct_map inj_on_def)

text \<open>One turn of the loop.\<close>

lemma evict_loop_step:
  assumes ok: "names_ok xs" and big: "int (length xs) > max_attempts"
  obtains w where "w \<in> set xs" "fst w \<noteq> keep"
    "\<And>x. x \<in> set xs \<Longrightarrow> fst x \<noteq> keep \<Longrightarrow> evict_key now w \<le> evict_key now x"
    "evict_loop now keep xs = evict_loop now keep (AList.delete (fst w) xs)"
proof -
  have "\<exists>x\<in>set xs. fst x \<noteq> keep"
  proof (rule ccontr)
    assume "\<not> ?thesis"
    then have sub: "set (map fst xs) \<subseteq> {keep}" by auto
    have "length xs = card (set (map fst xs))" using ok distinct_card by (fastforce simp: names_ok_def)
    also have "\<dots> \<le> 1" using card_mono [OF _ sub] by simp
    finally show False using big by (simp add: max_attempts_def)
  qed
  then have p: "pick_victim now keep xs no_victim \<in> set xs \<and> fst (pick_victim now keep xs no_victim) \<noteq> keep \<and>
    (\<forall>x\<in>set xs. fst x \<noteq> keep \<longrightarrow> evict_key now (pick_victim now keep xs no_victim) \<le> evict_key now x)"
    using ok by (intro pick_victim_start) (auto simp: names_ok_def)
  then have "fst (pick_victim now keep xs no_victim) \<noteq> []"
    using ok by (auto simp: names_ok_def image_iff)
  then have "evict_loop now keep xs = evict_loop now keep (AList.delete (fst (pick_victim now keep xs no_victim)) xs)"
    using big by (subst evict_loop.simps) (simp add: Let_def)
  then show thesis using that p by blast
qed

lemma delete_mset: "mset xs = mset ys \<Longrightarrow> mset (AList.delete k xs) = mset (AList.delete k ys)"
  unfolding AList.delete_eq by (metis mset_filter)

text \<open>What the loop leaves: a bounded part that holds the kept client, from which only smaller
  entries were removed, the same for every iteration order.\<close>

lemma evict_loop_result:
  "names_ok xs \<Longrightarrow>
   int (length (evict_loop now keep xs)) \<le> max_attempts \<and> set (evict_loop now keep xs) \<subseteq> set xs \<and>
   names_ok (evict_loop now keep xs) \<and>
   (\<forall>v. (keep, v) \<in> set xs \<longrightarrow> (keep, v) \<in> set (evict_loop now keep xs)) \<and>
   (\<forall>x\<in>set xs - set (evict_loop now keep xs). \<forall>y\<in>set (evict_loop now keep xs).
      fst y \<noteq> keep \<longrightarrow> evict_key now x \<le> evict_key now y)"
proof (induction "length xs" arbitrary: xs rule: less_induct)
  case less
  show ?case
  proof (cases "int (length xs) > max_attempts")
    case False
    then show ?thesis using less.prems by (subst (1 2 3 4 5 6) evict_loop.simps) simp
  next
    case True
    obtain w where w: "w \<in> set xs" "fst w \<noteq> keep"
      "\<And>x. x \<in> set xs \<Longrightarrow> fst x \<noteq> keep \<Longrightarrow> evict_key now w \<le> evict_key now x"
      and step: "evict_loop now keep xs = evict_loop now keep (AList.delete (fst w) xs)"
      using evict_loop_step [OF less.prems True, of keep now] by blast
    let ?d = "AList.delete (fst w) xs"
    have len: "length ?d < length xs" using w(1) by (intro length_alist_delete_less) auto
    note ih = less.hyps [OF len names_ok_delete [OF less.prems]]
    have sub: "set ?d \<subseteq> set xs" "\<And>x. x \<in> set xs \<Longrightarrow> fst x \<noteq> fst w \<Longrightarrow> x \<in> set ?d"
      by (auto simp: AList.delete_eq)
    have only: "x = w" if "x \<in> set xs" "fst x = fst w" for x
      using less.prems that w(1) by (auto simp: names_ok_def distinct_map dest: inj_onD)
    have "evict_key now x \<le> evict_key now y"
      if x: "x \<in> set xs - set (evict_loop now keep ?d)" and y: "y \<in> set (evict_loop now keep ?d)" "fst y \<noteq> keep" for x y
    proof (cases "x = w")
      case True
      then show ?thesis using w(3) [of y] ih sub(1) y by blast
    next
      case False
      then have "x \<in> set ?d" using x sub(2) only by blast
      then show ?thesis using ih x y by blast
    qed
    moreover have "(keep, v) \<in> set (evict_loop now keep ?d)" if "(keep, v) \<in> set xs" for v
      using ih sub(2) [OF that] w(2) by auto
    ultimately show ?thesis unfolding step using ih sub(1) by blast
  qed
qed

lemma evict_loop_perm:
  "names_ok xs \<Longrightarrow> mset ys = mset xs \<Longrightarrow> mset (evict_loop now keep ys) = mset (evict_loop now keep xs)"
proof (induction "length xs" arbitrary: xs ys rule: less_induct)
  case less
  have len: "length ys = length xs" using less.prems(2) by (metis size_mset)
  have set: "set ys = set xs" using less.prems(2) by (metis set_mset_mset)
  have "mset (map fst ys) = mset (map fst xs)" using less.prems(2) by (metis mset_map)
  then have oky: "names_ok ys"
    using less.prems(1) set mset_eq_imp_distinct_iff unfolding names_ok_def by blast
  show ?case
  proof (cases "int (length xs) > max_attempts")
    case False
    then show ?thesis using less.prems(2) len by (subst (1 2) evict_loop.simps) simp
  next
    case True
    obtain w where w: "w \<in> set xs" "fst w \<noteq> keep"
      "\<And>x. x \<in> set xs \<Longrightarrow> fst x \<noteq> keep \<Longrightarrow> evict_key now w \<le> evict_key now x"
      and sw: "evict_loop now keep xs = evict_loop now keep (AList.delete (fst w) xs)"
      using evict_loop_step [OF less.prems(1) True, of keep now] by blast
    have True': "int (length ys) > max_attempts" using True len by simp
    obtain u where u: "u \<in> set ys" "fst u \<noteq> keep"
      "\<And>x. x \<in> set ys \<Longrightarrow> fst x \<noteq> keep \<Longrightarrow> evict_key now u \<le> evict_key now x"
      and su: "evict_loop now keep ys = evict_loop now keep (AList.delete (fst u) ys)"
      using evict_loop_step [OF oky True', of keep now] by blast
    have "evict_key now u = evict_key now w"
      using u(3) [of w] w(3) [of u] u(1,2) w(1,2) set by (simp add: order_antisym)
    then have eq: "fst u = fst w" by (simp add: evict_key_def)
    have "length (AList.delete (fst w) xs) < length xs" using w(1) by (intro length_alist_delete_less) auto
    then show ?thesis
      unfolding sw su eq
      using less.hyps names_ok_delete [OF less.prems(1)] delete_mset [OF less.prems(2)] by blast
  qed
qed

text \<open>C14: the table of failed logins: after every check and every failure it holds at most 1024
  clients, the client at hand keeps its entry, a client is evicted only before clients that are
  unblocked or retained at least as long, and the result does not depend on the order in which
  the map is iterated.\<close>

theorem login_table_bounded_and_deterministic:
  assumes "names_ok (au_attempts a)"
  shows "int (length (au_attempts (cleanup_attempts now keep a))) \<le> 1024 \<and>
    names_ok (au_attempts (cleanup_attempts now keep a)) \<and>
    (\<forall>at. (keep, at) \<in> set (au_attempts a) \<and> (la_blocked at > now \<or> \<not> stale now at) \<longrightarrow>
       (keep, at) \<in> set (au_attempts (cleanup_attempts now keep a))) \<and>
    (\<forall>x\<in>set (au_attempts a) - set (au_attempts (cleanup_attempts now keep a)).
       \<forall>y\<in>set (au_attempts (cleanup_attempts now keep a)).
         la_blocked (snd x) > now \<and> fst y \<noteq> keep \<longrightarrow>
         la_blocked (snd y) > now \<and> retention_time (snd x) \<le> retention_time (snd y)) \<and>
    (\<forall>b. mset (au_attempts b) = mset (au_attempts a) \<longrightarrow>
       mset (au_attempts (cleanup_attempts now keep b)) = mset (au_attempts (cleanup_attempts now keep a)))"
proof -
  let ?live = "\<lambda>(c :: string, at). la_blocked at > now \<or> \<not> stale now at"
  let ?f = "filter ?live (au_attempts a)"
  have ok: "names_ok ?f" by (rule names_ok_filter [OF assms])
  note ev = evict_loop_result [OF ok, of now keep]
  have cl: "au_attempts (cleanup_attempts now keep b) = evict_loop now keep (filter ?live (au_attempts b))" for b
    by (simp add: cleanup_attempts_def)
  have pr: "la_blocked (snd y) > now \<and> retention_time (snd x) \<le> retention_time (snd y)"
    if x: "x \<in> set (au_attempts a) - set (evict_loop now keep ?f)" and y: "y \<in> set (evict_loop now keep ?f)"
      and h: "la_blocked (snd x) > now" "fst y \<noteq> keep" for x y
  proof -
    have "x \<in> set ?f - set (evict_loop now keep ?f)" using x h(1) by (auto split: prod.splits)
    then have "evict_key now x \<le> evict_key now y" using ev y h(2) by blast
    then show ?thesis using h(1) by (auto simp: evict_key_def)
  qed
  have perm: "mset (evict_loop now keep (filter ?live (au_attempts b))) = mset (evict_loop now keep ?f)"
    if "mset (au_attempts b) = mset (au_attempts a)" for b
    using that by (intro evict_loop_perm [OF ok]) (metis mset_filter)
  have kept: "(keep, at) \<in> set (evict_loop now keep ?f)"
    if "(keep, at) \<in> set (au_attempts a)" "la_blocked at > now \<or> \<not> stale now at" for at
    using ev that by auto
  have bound: "int (length (evict_loop now keep ?f)) \<le> 1024" using ev by (simp add: max_attempts_def)
  have nok: "names_ok (evict_loop now keep ?f)" using ev by blast
  show ?thesis
    unfolding cl
  proof (intro conjI)
    show "\<forall>x\<in>set (au_attempts a) - set (evict_loop now keep ?f). \<forall>y\<in>set (evict_loop now keep ?f).
         la_blocked (snd x) > now \<and> fst y \<noteq> keep \<longrightarrow>
         la_blocked (snd y) > now \<and> retention_time (snd x) \<le> retention_time (snd y)"
      using pr by blast
    show "\<forall>b. mset (au_attempts b) = mset (au_attempts a) \<longrightarrow>
       mset (evict_loop now keep (filter ?live (au_attempts b))) = mset (evict_loop now keep ?f)"
      using perm by blast
    show "\<forall>at. (keep, at) \<in> set (au_attempts a) \<and> (la_blocked at > now \<or> \<not> stale now at) \<longrightarrow>
       (keep, at) \<in> set (evict_loop now keep ?f)"
      using kept by blast
  qed (use bound nok in auto)
qed

subsection \<open>Five failures block the client\<close>

lemma map_of_names: "names_ok xs \<Longrightarrow> map_of xs k = Some v \<longleftrightarrow> (k, v) \<in> set xs"
  by (auto simp: names_ok_def)

lemma names_ok_update: "names_ok xs \<Longrightarrow> k \<noteq> [] \<Longrightarrow> names_ok (AList.update k v xs)"
  by (auto simp: names_ok_def distinct_update dom_update)

lemma cleanup_keeps:
  assumes "names_ok (au_attempts a)" and "map_of (au_attempts a) keep = Some at"
    and "la_blocked at > now \<or> \<not> stale now at"
  shows "map_of (au_attempts (cleanup_attempts now keep a)) keep = Some at"
    "names_ok (au_attempts (cleanup_attempts now keep a))"
proof -
  let ?f = "filter (\<lambda>(c :: string, at). la_blocked at > now \<or> \<not> stale now at) (au_attempts a)"
  have ok: "names_ok ?f" by (rule names_ok_filter [OF assms(1)])
  note ev = evict_loop_result [OF ok, of now keep]
  have "(keep, at) \<in> set ?f" using assms map_of_names by auto
  then have "(keep, at) \<in> set (evict_loop now keep ?f)" using ev by blast
  then show "map_of (au_attempts (cleanup_attempts now keep a)) keep = Some at"
    using ev map_of_names by (simp add: cleanup_attempts_def)
  show "names_ok (au_attempts (cleanup_attempts now keep a))"
    using ev by (simp add: cleanup_attempts_def)
qed

definition bump :: "time \<Rightarrow> login_attempt option \<Rightarrow> login_attempt" where
  "bump now old =
     (let at0 = (case old of Some at \<Rightarrow> at | None \<Rightarrow> snd no_victim);
          at1 = (if stale now at0 then \<lparr>la_start = now, la_failures = 0, la_blocked = zero_time\<rparr> else at0);
          at2 = at1\<lparr>la_failures := la_failures at1 + 1\<rparr>
      in if la_failures at2 \<ge> 5 then at2\<lparr>la_blocked := now + block_ttl, la_failures := 0, la_start := now\<rparr> else at2)"

lemma bump_fresh: "0 < now \<Longrightarrow> \<not> stale now (bump now old)"
proof -
  assume "0 < now"
  then have n: "\<not> is_zero now" "time_sub now now \<le> attempt_window"
    by (simp_all add: is_zero_def zero_time_def time_sub_def attempt_window_def second_def max_int64_def)
  then show ?thesis by (auto simp: bump_def Let_def stale_def)
qed

lemma record_failure_entry:
  assumes "names_ok (au_attempts a)" and "client \<noteq> []" and "0 < now"
  shows "map_of (au_attempts (record_login_failure now client a)) client =
      Some (bump now (map_of (au_attempts a) client))"
    "names_ok (au_attempts (record_login_failure now client a))"
proof -
  let ?at = "bump now (map_of (au_attempts a) client)"
  let ?a = "a\<lparr>au_attempts := AList.update client ?at (au_attempts a)\<rparr>"
  have eq: "record_login_failure now client a = cleanup_attempts now client ?a"
    by (simp add: record_login_failure_def bump_def Let_def)
  have ok: "names_ok (au_attempts ?a)" using names_ok_update [OF assms(1,2)] by simp
  have at: "map_of (au_attempts ?a) client = Some ?at" by (simp add: update_conv')
  show "map_of (au_attempts (record_login_failure now client a)) client = Some ?at"
    "names_ok (au_attempts (record_login_failure now client a))"
    unfolding eq using cleanup_keeps [OF ok at] bump_fresh [OF assms(3)] by blast+
qed

definition fail_all :: "time list \<Rightarrow> string \<Rightarrow> auth \<Rightarrow> auth" where
  "fail_all ts client a = fold (\<lambda>t a. record_login_failure t client a) ts a"

text \<open>Five failed logins of a client within five minutes block it for 30 seconds: at every
  moment of that time the throttle reports a positive wait, whatever the state of the table was
  before and however full it is.\<close>

theorem five_failures_block:
  assumes "names_ok (au_attempts a)" and "client \<noteq> []" and "map_of (au_attempts a) client = None"
    and "0 < t1" and "t1 \<le> t2" and "t2 \<le> t3" and "t3 \<le> t4" and "t4 \<le> t5" and "t5 - t1 \<le> attempt_window"
    and "t5 \<le> now" and "now < t5 + block_ttl"
  shows "0 < fst (login_blocked_for now client (fail_all [t1, t2, t3, t4, t5] client a))"
proof -
  let ?e = "\<lambda>k. \<lparr>la_start = t1, la_failures = k, la_blocked = zero_time\<rparr>"
  let ?last = "\<lparr>la_start = t5, la_failures = 0, la_blocked = t5 + block_ttl\<rparr>"
  have within: "\<not> stale t (?e k)" if "t1 \<le> t" "t \<le> t5" for t k
    using that assms(4,9) by (simp add: stale_def is_zero_def zero_time_def time_sub_def attempt_window_def second_def max_int64_def)
  have b1: "bump t1 None = ?e 1"
    by (simp add: bump_def no_victim_def stale_def is_zero_def)
  have b: "bump t (Some (?e k)) = ?e (k + 1)" if "t1 \<le> t" "t \<le> t5" "k < 4" for t k
    using within [OF that(1,2)] that(3) by (simp add: bump_def Let_def)
  have b5: "bump t5 (Some (?e 4)) = ?last"
    using within [of t5 4] assms(4-8) by (simp add: bump_def Let_def)
  define a1 where "a1 = record_login_failure t1 client a"
  define a2 where "a2 = record_login_failure t2 client a1"
  define a3 where "a3 = record_login_failure t3 client a2"
  define a4 where "a4 = record_login_failure t4 client a3"
  define a5 where "a5 = record_login_failure t5 client a4"
  note defs = a1_def a2_def a3_def a4_def a5_def
  have m1: "map_of (au_attempts a1) client = Some (?e 1)" "names_ok (au_attempts a1)"
    unfolding defs(1) using record_failure_entry [OF assms(1,2), of t1] assms(3,4) b1 by auto
  have m2: "map_of (au_attempts a2) client = Some (?e 2)" "names_ok (au_attempts a2)"
    unfolding defs(2) using record_failure_entry [OF m1(2) assms(2), of t2] m1(1) assms(4-8) b [of t2 1] by auto
  have m3: "map_of (au_attempts a3) client = Some (?e 3)" "names_ok (au_attempts a3)"
    unfolding defs(3) using record_failure_entry [OF m2(2) assms(2), of t3] m2(1) assms(4-8) b [of t3 2] by auto
  have m4: "map_of (au_attempts a4) client = Some (?e 4)" "names_ok (au_attempts a4)"
    unfolding defs(4) using record_failure_entry [OF m3(2) assms(2), of t4] m3(1) assms(4-8) b [of t4 3] by auto
  have m5: "map_of (au_attempts a5) client = Some ?last" "names_ok (au_attempts a5)"
    unfolding defs(5) using record_failure_entry [OF m4(2) assms(2), of t5] m4(1) assms(4-8) b5 by auto
  have "map_of (au_attempts (cleanup_attempts now client a5)) client = Some ?last"
    by (rule cleanup_keeps(1) [OF m5(2,1)]) (use assms(11) in simp)
  moreover have "fail_all [t1, t2, t3, t4, t5] client a = a5"
    by (simp add: fail_all_def defs)
  moreover have "0 < time_sub (t5 + block_ttl) now"
    using assms(11) by (simp add: time_sub_def max_int64_def)
  ultimately show ?thesis
    using assms(11) by (simp add: login_blocked_for_def Let_def)
qed

subsection \<open>A session is only ever granted for verified credentials\<close>

definition proves :: "(string \<Rightarrow> string \<Rightarrow> go_error + bool) \<Rightarrow> string \<Rightarrow> string \<Rightarrow> os \<Rightarrow> bool" where
  "proves crypt user pw s \<longleftrightarrow> fst (verify_root crypt (trim_space user) pw s) = Inr True"

definition tokens :: "auth \<Rightarrow> string set" where
  "tokens a = fst ` set (au_sessions a)"

text \<open>The tokens a call may grant: the one it was given, and only when the credentials in its body
  check out.\<close>

definition login_grant ::
    "(string \<Rightarrow> string \<Rightarrow> go_error + bool) \<Rightarrow> go_error + string \<Rightarrow> go_error + login_request \<Rightarrow> os \<Rightarrow> string set" where
  "login_grant crypt tok body s =
     {t. tok = Inr t \<and> (\<exists>lr. body = Inr lr \<and> proves crypt (lr_username lr) (lr_password lr) s)}"

definition config_grant ::
    "(string \<Rightarrow> string \<Rightarrow> go_error + bool) \<Rightarrow> go_error + string \<Rightarrow> go_error + auth_config_request \<Rightarrow> os \<Rightarrow> string set" where
  "config_grant crypt tok body s =
     {t. tok = Inr t \<and> (\<exists>ac. body = Inr ac \<and> proves crypt (ac_username ac) (ac_password ac) s)}"

lemma tokens_delete: "tokens (a\<lparr>au_sessions := AList.delete t (au_sessions a)\<rparr>) \<subseteq> tokens a"
  by (auto simp: tokens_def AList.delete_eq)

lemma tokens_attempts [simp]: "tokens (a\<lparr>au_attempts := xs\<rparr>) = tokens a"
  by (simp add: tokens_def)

lemma tokens_cleanup_attempts [simp]: "tokens (cleanup_attempts now k a) = tokens a"
  by (simp add: cleanup_attempts_def)

lemma tokens_throttle [simp]:
  "tokens (snd (login_blocked_for now c a)) = tokens a" "tokens (record_login_failure now c a) = tokens a"
  "tokens (clear_login_failures c a) = tokens a"
  by (simp_all add: login_blocked_for_def record_login_failure_def clear_login_failures_def Let_def split: option.splits)

lemma tokens_session_user: "tokens (snd (session_user now r a)) \<subseteq> tokens a"
  using tokens_delete by (auto simp: session_user_def split: option.splits)

lemma tokens_clear: "tokens (clear_session r a) \<subseteq> tokens a"
  using tokens_delete by (auto simp: clear_session_def split: option.splits)

lemma keys_update: "fst ` set (AList.update k v al) = insert k (fst ` set al)"
  by (induction al) auto

lemma tokens_create:
  "tokens (snd (create_session t1 t2 tok u a)) \<subseteq> tokens a \<union> {t. tok = Inr t}"
proof (cases tok)
  case (Inl e)
  then show ?thesis by (simp add: create_session_def)
next
  case (Inr t)
  let ?up = "AList.update t \<lparr>se_user = u, se_expires = t1 + session_ttl\<rparr> (au_sessions a)"
  have "fst ` set (filter (\<lambda>(t, se). se_expires se > t2) ?up) \<subseteq> fst ` set ?up" by auto
  also have "\<dots> = insert t (fst ` set (au_sessions a))" by (rule keys_update)
  finally show ?thesis
    using Inr by (auto simp: create_session_def cleanup_sessions_def tokens_def Let_def)
qed

lemma handle_login_result:
  assumes "handle_login crypt url_host clock tok body r a s = (resp, a', s')"
  shows "tokens a' \<subseteq> tokens a \<union> login_grant crypt tok body s" "au_required a' = au_required a"
proof -
  have req: "au_required (snd (login_blocked_for t c b)) = au_required b"
    "au_required (record_login_failure t c b) = au_required b" "au_required (clear_login_failures c b) = au_required b"
    "au_required (snd (create_session t t' tok u b)) = au_required b" for t t' c b u
    by (auto simp: login_blocked_for_def record_login_failure_def clear_login_failures_def cleanup_attempts_def
        create_session_def cleanup_sessions_def Let_def split: option.splits sum.splits)
  have both: "tokens a' \<subseteq> tokens a \<union> login_grant crypt tok body s \<and> au_required a' = au_required a"
  proof -
    obtain wait a1 where 1: "login_blocked_for (clock 0) (auth_client_key r) a = (wait, a1)" by fastforce
    have a1: "tokens a1 = tokens a" "au_required a1 = au_required a"
      using tokens_throttle(1) [of "clock 0" "auth_client_key r" a] req(1) [of "clock 0" "auth_client_key r" a] 1 by simp_all
    show ?thesis
    proof (cases "ht_method r \<noteq> ''POST'' \<or> \<not> same_origin url_host r \<or> wait > 0 \<or> (\<exists>e. body = Inl e)")
      case True
      have "a' = a \<or> a' = a1"
      proof (cases "ht_method r \<noteq> ''POST'' \<or> \<not> same_origin url_host r")
        case True
        then show ?thesis using assms unfolding handle_login_def by (auto split: if_splits)
      next
        case open': False
        show ?thesis
        proof (cases "wait > 0")
          case True
          then show ?thesis using assms open' 1 unfolding handle_login_def by simp
        next
          case False
          then obtain e where "body = Inl e" using \<open>ht_method r \<noteq> ''POST'' \<or> _\<close> open' by auto
          then show ?thesis using assms open' 1 False unfolding handle_login_def by simp
        qed
      qed
      then show ?thesis using a1 by auto
    next
      case False
      then obtain lr where lr: "body = Inr lr" by (cases body) auto
      obtain res s1 where 2: "verify_root crypt (trim_space (lr_username lr)) (lr_password lr) s = (res, s1)" by fastforce
      show ?thesis
      proof (cases "res = Inr True")
        case False
        then have "a' = record_login_failure (clock 1) (auth_client_key r) a1"
          using assms 1 2 lr \<open>\<not> (ht_method r \<noteq> ''POST'' \<or> _)\<close> by (auto simp: handle_login_def)
        then show ?thesis using a1 req by simp
      next
        case True
        obtain c a2 where 3: "create_session (clock 2) (clock 3) tok ''root'' a1 = (c, a2)" by fastforce
        have "tokens a2 \<subseteq> tokens a1 \<union> {t. tok = Inr t}" "au_required a2 = au_required a1"
          using tokens_create [of "clock 2" "clock 3" tok "''root''" a1] req(4) [of "clock 2" "clock 3" "''root''" a1] 3 by simp_all
        moreover have "{t. tok = Inr t} \<subseteq> login_grant crypt tok body s"
          using lr 2 True by (auto simp: login_grant_def proves_def)
        moreover have "a' = a2 \<or> a' = clear_login_failures (auth_client_key r) a2"
          using assms 1 2 3 lr True False by (auto simp: handle_login_def split: sum.splits)
        ultimately show ?thesis using a1 req by auto
      qed
    qed
  qed
  from both show "tokens a' \<subseteq> tokens a \<union> login_grant crypt tok body s" "au_required a' = au_required a" by blast+
qed

lemma session_user_required [simp]: "au_required (snd (session_user now r a)) = au_required a"
  by (auto simp: session_user_def split: option.splits)

lemma save_config_result:
  assumes "save_config encode b a s = (res, a', s')"
  shows "tokens a' \<subseteq> tokens a" "is_ok res \<Longrightarrow> au_required a' = b" "\<not> is_ok res \<Longrightarrow> a' = a"
  using assms by (auto simp: save_config_def tokens_def split: sum.splits prod.splits if_splits)

lemma handle_config_result:
  assumes "handle_config crypt url_host encode clock tok body r a s = (resp, a', s')"
  shows "tokens a' \<subseteq> tokens a \<union> config_grant crypt tok body s"
    "au_required a \<Longrightarrow> \<not> au_required a' \<Longrightarrow> snd (fst (session_user (clock 0) r a))"
proof -
  have creq: "au_required (snd (create_session t t' tok u b)) = au_required b"
    "au_required (clear_session r b) = au_required b" for t t' b u
    by (auto simp: create_session_def cleanup_sessions_def clear_session_def Let_def split: option.splits sum.splits)
  have "tokens a' \<subseteq> tokens a \<union> config_grant crypt tok body s \<and>
    (au_required a \<and> \<not> au_required a' \<longrightarrow> snd (fst (session_user (clock 0) r a)))"
  proof (cases "ht_method r \<noteq> ''POST'' \<or> \<not> same_origin url_host r \<or> (\<exists>e. body = Inl e)")
    case True
    then show ?thesis using assms by (auto simp: handle_config_def split: if_splits)
  next
    case go: False
    then obtain ac where ac: "body = Inr ac" by (cases body) auto
    show ?thesis
    proof (cases "ac_required ac")
      case True
      show ?thesis
      proof (cases "au_required a")
        case on: True
        obtain u ok a1 where 1: "session_user (clock 0) r a = ((u, ok), a1)" by (metis prod.exhaust)
        have a1: "au_required a1 = au_required a" by (metis session_user_required 1 snd_conv)
        have "a' = a1" using assms go ac True on 1 by (auto simp: handle_config_def auth_status_of_def Let_def)
        then show ?thesis
          using tokens_session_user [of "clock 0" r a] on a1 1 by auto
      next
        case off: False
        obtain res s1 where 2: "verify_root crypt (trim_space (ac_username ac)) (ac_password ac) s = (res, s1)" by fastforce
        show ?thesis
        proof (cases "res = Inr True")
          case False
          then show ?thesis using assms go ac True off 2 by (auto simp: handle_config_def)
        next
          case good: True
          obtain sv a1 s2 where 3: "save_config encode True a s1 = (sv, a1, s2)" by (metis prod_cases3)
          obtain c a2 where 4: "create_session (clock 0) (clock 1) tok ''root'' a1 = (c, a2)" by fastforce
          have "a' = a1 \<or> a' = a2"
            using assms go ac True off 2 good 3 4 by (auto simp: handle_config_def split: sum.splits)
          moreover have "{t. tok = Inr t} \<subseteq> config_grant crypt tok body s"
            using ac 2 good by (auto simp: config_grant_def proves_def)
          ultimately show ?thesis
            using off save_config_result(1) [OF 3] tokens_create [of "clock 0" "clock 1" tok "''root''" a1] 4 by auto
        qed
      qed
    next
      case disable: False
      obtain u ok a1 where 1: "(if au_required a then session_user (clock 0) r a else (([], True), a)) = ((u, ok), a1)"
        by (metis prod.exhaust)
      have t1: "tokens a1 \<subseteq> tokens a"
        using 1 tokens_session_user [of "clock 0" r a] by (auto split: if_splits)
      show ?thesis
      proof (cases ok)
        case False
        then have "a' = a1" using assms go ac disable 1 by (auto simp: handle_config_def)
        moreover have "au_required a \<longrightarrow> au_required a1"
          using 1 by (metis session_user_required snd_conv)
        ultimately show ?thesis using t1 by auto
      next
        case True
        obtain sv a2 s2 where 3: "save_config encode False a1 s = (sv, a2, s2)" by (metis prod_cases3)
        have "a' = a2 \<or> a' = clear_session r a2"
          using assms go ac disable 1 True 3 by (auto simp: handle_config_def split: sum.splits)
        moreover have "au_required a \<longrightarrow> snd (fst (session_user (clock 0) r a))"
          using 1 True by (auto split: if_splits)
        ultimately show ?thesis
          using t1 save_config_result(1) [OF 3] tokens_clear [of r a2] by auto
      qed
    qed
  qed
  then show "tokens a' \<subseteq> tokens a \<union> config_grant crypt tok body s"
    "au_required a \<Longrightarrow> \<not> au_required a' \<Longrightarrow> snd (fst (session_user (clock 0) r a))" by blast+
qed

text \<open>
  The runs of the manager: it starts from the settings file, then any handler may be called with any
  request while the rest of the system changes the files at will. The last argument collects the
  tokens granted for credentials that were verified.
\<close>

inductive auth_run ::
    "(string \<Rightarrow> string \<Rightarrow> go_error + bool) \<Rightarrow> (string \<Rightarrow> string option) \<Rightarrow> (bool \<Rightarrow> go_error + string) \<Rightarrow>
     (string \<Rightarrow> bool option) \<Rightarrow> auth \<Rightarrow> os \<Rightarrow> string set \<Rightarrow> bool"
  for crypt url_host encode decode where
  start: "new_auth_manager decode s0 = (a, s) \<Longrightarrow> auth_run crypt url_host encode decode a s {}"
| outside: "auth_run crypt url_host encode decode a s G \<Longrightarrow> auth_run crypt url_host encode decode a s' G"
| login: "auth_run crypt url_host encode decode a s G \<Longrightarrow>
    handle_login crypt url_host clock tok body r a s = (resp, a', s') \<Longrightarrow>
    auth_run crypt url_host encode decode a' s' (G \<union> login_grant crypt tok body s)"
| config: "auth_run crypt url_host encode decode a s G \<Longrightarrow>
    handle_config crypt url_host encode clock tok cbody r a s = (resp, a', s') \<Longrightarrow>
    auth_run crypt url_host encode decode a' s' (G \<union> config_grant crypt tok cbody s)"
| logout: "auth_run crypt url_host encode decode a s G \<Longrightarrow> handle_logout url_host r a = (resp, a') \<Longrightarrow>
    auth_run crypt url_host encode decode a' s G"
| status: "auth_run crypt url_host encode decode a s G \<Longrightarrow> handle_status now r a = (resp, a') \<Longrightarrow>
    auth_run crypt url_host encode decode a' s G"
| guard: "auth_run crypt url_host encode decode a s G \<Longrightarrow> auth_middleware now r a = (mresp, a') \<Longrightarrow>
    auth_run crypt url_host encode decode a' s G"

lemma auth_run_tokens: "auth_run crypt url_host encode decode a s G \<Longrightarrow> tokens a \<subseteq> G"
proof (induction rule: auth_run.induct)
  case (start s0 a s)
  then show ?case by (auto simp: new_auth_manager_def tokens_def split: prod.splits sum.splits)
next
  case (login a s G clock tok body r resp a' s')
  then show ?case using handle_login_result(1) [OF login(2)] by blast
next
  case (config a s G clock tok cbody r resp a' s')
  then show ?case using handle_config_result(1) [OF config(2)] by blast
next
  case (logout a s G r resp a')
  then show ?case using tokens_clear [of r a] by (auto simp: handle_logout_def split: if_splits)
next
  case (status a s G now r resp a')
  then show ?case
    using tokens_session_user [of now r a]
    by (auto simp: handle_status_def auth_status_of_def Let_def split: if_splits prod.splits)
next
  case (guard a s G now r mresp a')
  then show ?case
    using tokens_session_user [of now r a] by (auto simp: auth_middleware_def split: if_splits prod.splits)
qed auto

text \<open>C12: the guard of the API: in every run of the manager with authentication required, a request
  to a protected path reaches its handler only with the token of a session that has not expired
  and that was granted for verified root credentials.\<close>

theorem protected_api_needs_granted_session:
  assumes "auth_run crypt url_host encode decode a s G" and "auth_middleware now r a = (None, a')"
    and "au_required a" and "has_prefix (ht_path r) ''/api/''"
    and "\<not> auth_public_path (ht_path r)" and "\<not> loopback_module_health r"
  shows "\<exists>t se. ht_cookie r = Some t \<and> t \<in> G \<and> map_of (au_sessions a) t = Some se \<and> now < se_expires se"
proof -
  obtain u ok a1 where su: "session_user now r a = ((u, ok), a1)" by (metis prod.exhaust)
  then have "ok" using assms(2-6) by (auto simp: auth_middleware_def split: if_splits)
  then obtain t se where t: "ht_cookie r = Some t" "map_of (au_sessions a) t = Some se" "now < se_expires se"
    using su by (auto simp: session_user_def split: option.splits if_splits)
  then have "t \<in> tokens a" by (auto simp: tokens_def dest!: map_of_SomeD intro: rev_image_eqI)
  then show ?thesis using auth_run_tokens [OF assms(1)] t by blast
qed

text \<open>C13: authentication can be switched off only by a session: when a configuration call turns
  the requirement off, the request carried a session that had not expired.\<close>

theorem disabling_needs_session:
  assumes "handle_config crypt url_host encode clock tok body r a s = (resp, a', s')"
    and "au_required a" and "\<not> au_required a'"
  shows "\<exists>t se. ht_cookie r = Some t \<and> map_of (au_sessions a) t = Some se \<and> clock 0 < se_expires se"
  using handle_config_result(2) [OF assms]
  by (auto simp: session_user_def split: option.splits if_splits)

subsection \<open>The persistent switch\<close>

lemma security_paths:
  "path_dir security_config_path = ''/opt/etc/routerforge''"
  "ancestors_from [slash] (elems ''/opt/etc/routerforge'') = [''/opt'', ''/opt/etc'', ''/opt/etc/routerforge'']"
  "temp_name ''/opt/etc/routerforge'' ''.security-'' [] = ''/opt/etc/routerforge/.security-''"
  by code_simp+

lemma security_temp_away: "temp_name ''/opt/etc/routerforge'' ''.security-'' x \<noteq> security_config_path"
proof -
  have "split_char (CHR ''*'') ''.security-'' = [''.security-'']" by code_simp
  then have "temp_name ''/opt/etc/routerforge'' ''.security-'' x = ''/opt/etc/routerforge/.security-'' @ x"
    by (simp add: temp_name_def dir_prefix_def slash_def)
  then show ?thesis by (simp add: security_config_path_def)
qed

lemma save_config_file:
  assumes "save_config encode b a s = (res, a', s')"
  shows "if is_ok res then \<exists>data. encode b = Inr data \<and> node_at s' security_config_path = Some (Regular 384 (data @ [CHR 0x0A]))
    else node_at s' security_config_path = node_at s security_config_path"
proof (cases "encode b")
  case (Inl e)
  then show ?thesis using assms by (auto simp: save_config_def)
next
  case (Inr data)
  obtain r1 s1 where 1: "fs_mkdir_all ''/opt/etc/routerforge'' 493 s = (r1, s1)" by fastforce
  have "touches {''/opt'', ''/opt/etc'', ''/opt/etc/routerforge''} (fs_mkdir_all ''/opt/etc/routerforge'' 493)"
    by (rule touches_mkdir_all) (simp add: security_paths(2))
  from touchesD [OF this 1] have same: "node_at s1 security_config_path = node_at s security_config_path"
    by (simp add: same_except_def security_config_path_def)
  show ?thesis
  proof (cases r1)
    case (Inl e)
    then show ?thesis using assms Inr 1 same by (auto simp: save_config_def io_bind_def security_paths)
  next
    case (Inr u)
    obtain r2 s2 where 2: "publish_via ''/opt/etc/routerforge'' ''.security-'' security_config_path (data @ [CHR 0x0A]) 384 s1 = (r2, s2)"
      by fastforce
    have "if is_ok r2 then node_at s2 security_config_path = Some (Regular 384 (data @ [CHR 0x0A]))
      else node_at s2 security_config_path = node_at s1 security_config_path"
      using publish_via_result [OF security_temp_away 2] by (auto split: if_splits)
    then show ?thesis
      using assms \<open>encode b = Inr data\<close> 1 2 Inr same
      by (cases r2) (auto simp: save_config_def io_bind_def security_paths)
  qed
qed

text \<open>C15: the switch is persistent and fails closed: after a save that succeeds, a manager started
  from the same files has the saved setting; after a save that fails, the file and the setting in
  memory are unchanged; and a settings file that cannot be read or decoded means that
  authentication is required.\<close>

theorem auth_setting_persistent:
  assumes "save_config encode b a s = (res, a', s')"
    and "\<And>data. encode b = Inr data \<Longrightarrow> decode (data @ [CHR 0x0A]) = Some b"
  shows "(is_ok res \<longrightarrow> au_required a' = b \<and> au_required (fst (new_auth_manager decode (s'\<lparr>faults := []\<rparr>))) = b) \<and>
    (\<not> is_ok res \<longrightarrow> a' = a \<and> node_at s' security_config_path = node_at s security_config_path) \<and>
    (\<not> au_required (fst (new_auth_manager decode t)) \<longrightarrow>
       (\<exists>e t'. fs_read_file security_config_path t = (Inl e, t') \<and> is_not_exist e) \<or>
       (\<exists>data t'. fs_read_file security_config_path t = (Inr data, t') \<and> decode data = Some False))"
proof -
  have "au_required (fst (new_auth_manager decode (s'\<lparr>faults := []\<rparr>))) = b" if ok: "is_ok res"
  proof -
    obtain data where d: "encode b = Inr data" "node_at s' security_config_path = Some (Regular 384 (data @ [CHR 0x0A]))"
      using save_config_file [OF assms(1)] ok by auto
    then have "fs_read_file security_config_path (s'\<lparr>faults := []\<rparr>) = (Inr (data @ [CHR 0x0A]), s'\<lparr>faults := []\<rparr>)"
      by (simp add: fs_read_file_def syscall_def follow_link.simps)
    then show ?thesis using assms(2) [OF d(1)] by (simp add: new_auth_manager_def)
  qed
  then show ?thesis
    using save_config_result(2,3) [OF assms(1)] save_config_file [OF assms(1)]
    by (auto simp: new_auth_manager_def split: prod.splits sum.splits option.splits)
qed

subsection \<open>A concrete manager\<close>

definition sample_auth_os :: "os" where
  "sample_auth_os = \<lparr>tree = [(''/opt'', Directory 493), (''/opt/etc'', Directory 493), (''/opt/etc/routerforge'', Directory 493),
      (security_config_path, Regular 384 ''on''), (''/opt/etc/shadow'', Regular 384 (''root:h:1'' @ [CHR 0x0A]))],
    faults = [], entropy = [''1''], realpath = Inr\<rparr>"

definition sample_decode :: "string \<Rightarrow> bool option" where
  "sample_decode c = (if c = ''on'' \<or> c = ''on'' @ [CHR 0x0A] then Some True else if c = ''off'' @ [CHR 0x0A] then Some False else None)"

definition sample_encode :: "bool \<Rightarrow> go_error + string" where
  "sample_encode b = Inr (if b then ''on'' else ''off'')"

definition sample_crypt :: "string \<Rightarrow> string \<Rightarrow> go_error + bool" where
  "sample_crypt h pw = Inr (h = ''h'' \<and> pw = ''pw'')"

definition sample_req :: "string \<Rightarrow> string \<Rightarrow> string option \<Rightarrow> http_request" where
  "sample_req m p c = \<lparr>ht_method = m, ht_path = p, ht_remote = ''192.168.1.7:5000'', ht_host = ''router'',
                       ht_cookie = c, ht_origin = []\<rparr>"

definition sample_login :: "http_response \<times> auth \<times> os" where
  "sample_login = handle_login sample_crypt (\<lambda>_. None) (\<lambda>_. 100) (Inr ''tok'')
     (Inr \<lparr>lr_username = ''root'', lr_password = ''pw''\<rparr>) (sample_req ''POST'' ''/api/auth/login'' None)
     (fst (new_auth_manager sample_decode sample_auth_os)) sample_auth_os"

definition sample_manager :: "auth" where
  "sample_manager = fst (snd sample_login)"

lemma sample_run_auth:
  "auth_run sample_crypt (\<lambda>_. None) sample_encode sample_decode sample_manager (snd (snd sample_login))
     ({} \<union> login_grant sample_crypt (Inr ''tok'') (Inr \<lparr>lr_username = ''root'', lr_password = ''pw''\<rparr>) sample_auth_os)"
proof (rule auth_run.login)
  have "auth_run sample_crypt (\<lambda>_. None) sample_encode sample_decode
      (fst (new_auth_manager sample_decode sample_auth_os)) (snd (new_auth_manager sample_decode sample_auth_os)) {}"
    by (rule auth_run.start [OF surjective_pairing])
  then show "auth_run sample_crypt (\<lambda>_. None) sample_encode sample_decode
      (fst (new_auth_manager sample_decode sample_auth_os)) sample_auth_os {}"
    by (rule auth_run.outside)
  show "handle_login sample_crypt (\<lambda>_. None) (\<lambda>_. 100) (Inr ''tok'')
     (Inr \<lparr>lr_username = ''root'', lr_password = ''pw''\<rparr>) (sample_req ''POST'' ''/api/auth/login'' None)
     (fst (new_auth_manager sample_decode sample_auth_os)) sample_auth_os =
     (fst sample_login, sample_manager, snd (snd sample_login))"
    by (simp add: sample_login_def sample_manager_def)
qed

theorem protected_api_witness:
  "fst (auth_middleware 200 (sample_req ''GET'' ''/api/dns'' (Some ''tok'')) sample_manager) = None \<and>
   ''tok'' \<in> login_grant sample_crypt (Inr ''tok'') (Inr \<lparr>lr_username = ''root'', lr_password = ''pw''\<rparr>) sample_auth_os"
proof -
  let ?r = "sample_req ''GET'' ''/api/dns'' (Some ''tok'')"
  have f: "fst (auth_middleware 200 ?r sample_manager) = None" "au_required sample_manager"
    "has_prefix (ht_path ?r) ''/api/''" "\<not> auth_public_path (ht_path ?r)" "\<not> loopback_module_health ?r"
    by code_simp+
  have "auth_middleware 200 ?r sample_manager = (None, snd (auth_middleware 200 ?r sample_manager))"
    using f(1) by (metis prod.collapse)
  from protected_api_needs_granted_session [OF sample_run_auth this f(2-5)] show ?thesis
    using f(1) by (auto simp: sample_req_def)
qed

theorem disabling_witness:
  "\<exists>t se. ht_cookie (sample_req ''POST'' ''/api/auth/config'' (Some ''tok'')) = Some t \<and>
     map_of (au_sessions sample_manager) t = Some se \<and> 200 < se_expires se"
proof -
  let ?run = "handle_config sample_crypt (\<lambda>_. None) sample_encode (\<lambda>_. 200) (Inr ''t2'')
     (Inr \<lparr>ac_required = False, ac_username = [], ac_password = []\<rparr>)
     (sample_req ''POST'' ''/api/auth/config'' (Some ''tok'')) sample_manager (snd (snd sample_login))"
  have f: "au_required sample_manager" "\<not> au_required (fst (snd ?run))" by code_simp+
  have "?run = (fst ?run, fst (snd ?run), snd (snd ?run))" by simp
  from disabling_needs_session [OF this f] show ?thesis by simp
qed

theorem auth_setting_witness:
  "au_required (fst (new_auth_manager sample_decode
     ((snd (snd (save_config sample_encode False sample_manager sample_auth_os)))\<lparr>faults := []\<rparr>))) = False"
proof -
  let ?run = "save_config sample_encode False sample_manager sample_auth_os"
  have ok: "is_ok (fst ?run)"
  proof -
    have "fst ?run = Inr ()" by code_simp
    then show ?thesis by simp
  qed
  have run: "?run = (fst ?run, fst (snd ?run), snd (snd ?run))" by simp
  have dec: "\<And>data. sample_encode False = Inr data \<Longrightarrow> sample_decode (data @ [CHR 0x0A]) = Some False"
    by (auto simp: sample_encode_def sample_decode_def)
  show ?thesis
    using auth_setting_persistent [where decode = sample_decode and b = False, OF run dec] ok by blast
qed

lemma sample_names: "names_ok (au_attempts sample_manager)" "map_of (au_attempts sample_manager) ''h'' = None"
  by code_simp+

theorem five_failures_witness:
  "0 < fst (login_blocked_for (60 * second) ''h''
     (fail_all [1, 2, 3, 4, 40 * second] ''h'' sample_manager))"
  using five_failures_block [OF sample_names(1) _ sample_names(2), of 1 2 3 4 "40 * second" "60 * second"]
  by (simp add: second_def attempt_window_def block_ttl_def)

theorem login_table_witness:
  "int (length (au_attempts (cleanup_attempts 200 ''h'' (record_login_failure 100 ''h'' sample_manager)))) \<le> 1024"
proof -
  have "names_ok (au_attempts (record_login_failure 100 ''h'' sample_manager))" by code_simp
  from login_table_bounded_and_deterministic [OF this, of 200 "''h''"] show ?thesis by blast
qed

end
