(* ===== verification/Dns_Policy.thy ===== *)
theory Dns_Policy
  imports Go_Net "HOL-Library.Product_Lexorder"
begin

text \<open>
  \<^verbatim>\<open>modules/dns/runtime/dns_policy.go\<close>: the rules that choose the upstream policy of a DNS query,
  their normalization and validation, the evaluation of a request, and the inventory of the
  router's policies. A Go map that is iterated is the list of its entries in iteration order;
  \<open>sprint\<close> stands for \<^verbatim>\<open>fmt.Sprint\<close> on a decoded JSON value.
\<close>

record policy_option =
  po_proxy :: string
  po_display :: string
  po_system :: bool
  po_ordinal :: int

record policy_match =
  pm_cidr :: string
  pm_domain :: string
  pm_qtype :: string

record policy_rule =
  pr_id :: string
  pr_priority :: int
  pr_policy :: string
  pr_match :: policy_match

record policy_request =
  rq_client :: string
  rq_domain :: string
  rq_qtype :: string
  rq_rules :: "policy_rule list"

record policy_evaluation =
  pe_matched :: bool
  pe_policy :: string
  pe_rule_id :: string
  pe_priority :: int
  pe_specificity :: nat
  pe_reasons :: "string list"
  pe_evaluated :: nat
  pe_fallback :: bool

record policy_candidate =
  pc_rule :: policy_rule
  pc_specificity :: nat
  pc_reasons :: "string list"

subsection \<open>Names\<close>

definition normalize_proxy :: "string \<Rightarrow> string" where
  "normalize_proxy raw =
     (let v = trim_space raw in
      if \<not> has_prefix (to_lower v) ''policy'' then v
      else ''Policy'' @ trim_space (drop 6 v))"

definition is_proxy_key :: "string \<Rightarrow> bool" where
  "is_proxy_key raw =
     (let v = trim_space raw in
      if \<not> has_prefix (to_lower v) ''policy'' then False
      else (let rest = trim_space (drop 6 v) in
            if rest = [] then False else list_all is_digit rest))"

definition proxy_ordinal :: "string \<Rightarrow> int option" where
  "proxy_ordinal raw =
     (let v = normalize_proxy raw in
      if \<not> is_proxy_key v then None else atoi (trim_space (drop 6 v)))"

definition normalize_domain :: "string \<Rightarrow> string" where
  "normalize_domain v = trim_suffix (to_lower (trim_space v)) ''.''"

definition query_types :: "string list" where
  "query_types = [''A'', ''AAAA'', ''CNAME'', ''MX'', ''NS'', ''PTR'', ''SOA'', ''SRV'', ''TXT'', ''HTTPS'', ''SVCB'']"

definition valid_qtype :: "string \<Rightarrow> bool" where
  "valid_qtype v \<longleftrightarrow> to_upper (trim_space v) \<in> set query_types"

subsection \<open>The inventory of policies\<close>

definition option_before :: "policy_option \<Rightarrow> policy_option \<Rightarrow> bool" where
  "option_before a b =
     (if po_system a \<noteq> po_system b then po_system a
      else
        (case (proxy_ordinal (po_proxy a), proxy_ordinal (po_proxy b)) of
           (Some i, Some j) \<Rightarrow> if i \<noteq> j then i < j else po_proxy a < po_proxy b
         | (Some i, None) \<Rightarrow> True
         | (None, Some j) \<Rightarrow> False
         | (None, None) \<Rightarrow> po_proxy a < po_proxy b))"

definition inventory_item :: "string \<times> string \<Rightarrow> policy_option" where
  "inventory_item entry =
     (let proxy = normalize_proxy (fst entry);
          display = (if trim_space (snd entry) = [] then proxy else trim_space (snd entry))
      in \<lparr>po_proxy = proxy, po_display = display, po_system = equal_fold proxy ''System'',
          po_ordinal = (case proxy_ordinal proxy of Some i \<Rightarrow> i | None \<Rightarrow> 0)\<rparr>)"

definition inventory_from_names :: "(string \<times> string) list \<Rightarrow> policy_option list" where
  "inventory_from_names names = sort_by option_before (map inventory_item names)"

datatype json =
    JNull
  | JBool bool
  | JNumber string
  | JString string
  | JArray "json list"
  | JObject "(string \<times> json) list"

fun first_proxy :: "(json \<Rightarrow> string) \<Rightarrow> string list \<Rightarrow> (string \<times> json) list \<Rightarrow> string" where
  "first_proxy sprint [] obj = []"
| "first_proxy sprint (key # keys) obj =
     (case map_of obj key of
        Some raw \<Rightarrow>
          (let candidate = trim_space (sprint raw) in
           if has_prefix (to_lower candidate) ''policy'' then normalize_proxy candidate
           else first_proxy sprint keys obj)
      | None \<Rightarrow> first_proxy sprint keys obj)"

definition index_proxy :: "(json \<Rightarrow> string) \<Rightarrow> (string \<times> json) list \<Rightarrow> string" where
  "index_proxy sprint obj =
     (case map_of obj ''index'' of
        None \<Rightarrow> []
      | Some raw \<Rightarrow>
          (let candidate = trim_suffix (trim_space (sprint raw)) ''.0'' in
           if candidate \<noteq> [] then ''Policy'' @ candidate else []))"

fun first_display :: "(json \<Rightarrow> string) \<Rightarrow> string \<Rightarrow> string list \<Rightarrow> (string \<times> json) list \<Rightarrow> string" where
  "first_display sprint proxy [] obj = []"
| "first_display sprint proxy (key # keys) obj =
     (case map_of obj key of
        Some raw \<Rightarrow>
          (let candidate = trim_space (sprint raw) in
           if candidate \<noteq> [] \<and> \<not> equal_fold candidate proxy then candidate
           else first_display sprint proxy keys obj)
      | None \<Rightarrow> first_display sprint proxy keys obj)"

definition object_proxy :: "(json \<Rightarrow> string) \<Rightarrow> string \<Rightarrow> (string \<times> json) list \<Rightarrow> string" where
  "object_proxy sprint hint obj =
     (let p1 = first_proxy sprint [''proxy'', ''proxy-name'', ''policy'', ''id''] obj;
          p2 = (if p1 = [] then index_proxy sprint obj else p1)
      in if p2 = [] \<and> is_proxy_key hint then normalize_proxy hint else p2)"

definition note_name :: "(json \<Rightarrow> string) \<Rightarrow> string \<Rightarrow> (string \<times> json) list \<Rightarrow> (string \<rightharpoonup> string) \<Rightarrow> (string \<rightharpoonup> string)" where
  "note_name sprint hint obj out =
     (let proxy = object_proxy sprint hint obj;
          display = first_display sprint proxy [''description'', ''title'', ''comment'', ''name''] obj
      in if proxy \<noteq> [] \<and> display \<noteq> [] then out(proxy \<mapsto> display) else out)"

fun collect_names :: "(json \<Rightarrow> string) \<Rightarrow> json \<Rightarrow> string \<Rightarrow> (string \<rightharpoonup> string) \<Rightarrow> (string \<rightharpoonup> string)" where
  "collect_names sprint (JObject obj) hint out =
     fold (\<lambda>(key, child) acc. collect_names sprint child key acc) obj (note_name sprint hint obj out)"
| "collect_names sprint (JArray items) hint out =
     fold (\<lambda>child acc. collect_names sprint child hint acc) items out"
| "collect_names sprint _ hint out = out"

subsection \<open>Rules\<close>

definition normalize_rule :: "policy_rule \<Rightarrow> go_error + policy_rule" where
  "normalize_rule r =
     (let i = trim_space (pr_id r) in
      if i = [] \<or> int (length i) > 64 then Inl (Msg ''invalid rule id'')
      else if pr_priority r < 0 \<or> pr_priority r > 1000000
      then Inl (Msg (''invalid priority for rule '' @ quoted i))
      else
        (let p = normalize_proxy (pr_policy r) in
         if \<not> equal_fold p ''System'' \<and> \<not> is_proxy_key p then Inl (Msg (''invalid policy '' @ quoted p))
         else
           (let p' = (if equal_fold p ''System'' then ''System'' else p);
                c = trim_space (pm_cidr (pr_match r));
                d = normalize_domain (pm_domain (pr_match r));
                t = to_upper (trim_space (pm_qtype (pr_match r))) in
            if c \<noteq> [] \<and> parse_cidr c = None
            then Inl (Msg (''invalid client_cidr for rule '' @ quoted i))
            else if t \<noteq> [] \<and> \<not> valid_qtype t
            then Inl (Msg (''unsupported qtype for rule '' @ quoted i))
            else Inr \<lparr>pr_id = i, pr_priority = pr_priority r, pr_policy = p',
                      pr_match = \<lparr>pm_cidr = c, pm_domain = d, pm_qtype = t\<rparr>\<rparr>)))"

text \<open>One turn of the loop both entry points run: normalize, refuse a duplicate id and an unknown
  policy. \<open>allowed = None\<close> is a nil map.\<close>

definition admit_rule ::
    "(string \<Rightarrow> bool) option \<Rightarrow> string set \<Rightarrow> policy_rule \<Rightarrow> go_error + policy_rule" where
  "admit_rule allowed seen raw =
     (case normalize_rule raw of
        Inl e \<Rightarrow> Inl e
      | Inr r \<Rightarrow>
          if pr_id r \<in> seen then Inl (Msg (''duplicate rule id '' @ quoted (pr_id r)))
          else if (case allowed of None \<Rightarrow> False | Some a \<Rightarrow> \<not> a (pr_policy r))
          then Inl (Msg (''unknown policy '' @ quoted (pr_policy r)))
          else Inr r)"

fun admit_rules ::
    "(string \<Rightarrow> bool) option \<Rightarrow> string set \<Rightarrow> policy_rule list \<Rightarrow> go_error + policy_rule list" where
  "admit_rules allowed seen [] = Inr []"
| "admit_rules allowed seen (raw # raws) =
     (case admit_rule allowed seen raw of
        Inl e \<Rightarrow> Inl e
      | Inr r \<Rightarrow>
          (case admit_rules allowed (insert (pr_id r) seen) raws of
             Inl e \<Rightarrow> Inl e | Inr rs \<Rightarrow> Inr (r # rs)))"

definition rule_before :: "policy_rule \<Rightarrow> policy_rule \<Rightarrow> bool" where
  "rule_before a b =
     (if pr_priority a \<noteq> pr_priority b then pr_priority a < pr_priority b else pr_id a < pr_id b)"

definition validate_rules ::
    "policy_rule list \<Rightarrow> (string \<Rightarrow> bool) option \<Rightarrow> go_error + policy_rule list" where
  "validate_rules rules allowed =
     (if int (length rules) > 128 then Inl (Msg ''too many rules'')
      else (case admit_rules allowed {} rules of
              Inl e \<Rightarrow> Inl e
            | Inr rs \<Rightarrow> Inr (sort_by rule_before rs)))"

subsection \<open>Matching and evaluation\<close>

definition match_rule ::
    "policy_rule \<Rightarrow> ip option \<Rightarrow> string \<Rightarrow> string \<Rightarrow> go_error + policy_candidate option" where
  "match_rule r client domain qtype =
     (let m = pr_match r;
          by_cidr = (pm_cidr m \<noteq> []); by_domain = (pm_domain m \<noteq> []); by_qtype = (pm_qtype m \<noteq> []) in
      if by_cidr \<and> parse_cidr (pm_cidr m) = None then Inl (Msg (''invalid CIDR address: '' @ pm_cidr m))
      else if by_cidr \<and> (case client of None \<Rightarrow> True
                          | Some a \<Rightarrow> \<not> ipnet_contains (the (parse_cidr (pm_cidr m))) a) then Inr None
      else if by_domain \<and> domain \<noteq> pm_domain m \<and> \<not> has_suffix domain (''.'' @ pm_domain m) then Inr None
      else if by_qtype \<and> (qtype = [] \<or> qtype \<noteq> pm_qtype m) then Inr None
      else
        (let reasons =
           (if by_cidr then [''client_ip matched '' @ pm_cidr m] else []) @
           (if by_domain then [''domain matched *.'' @ pm_domain m] else []) @
           (if by_qtype then [''qtype matched '' @ pm_qtype m] else [])
         in Inr (Some \<lparr>pc_rule = r,
              pc_specificity = (if by_cidr then 4 else 0) + (if by_domain then 2 else 0) + (if by_qtype then 1 else 0),
              pc_reasons = (if reasons = [] then [''catch-all rule matched''] else reasons)\<rparr>)))"

fun collect_candidates ::
    "(string \<Rightarrow> bool) option \<Rightarrow> ip option \<Rightarrow> string \<Rightarrow> string \<Rightarrow> string set \<Rightarrow> policy_rule list \<Rightarrow>
     go_error + policy_candidate list" where
  "collect_candidates allowed client domain qtype seen [] = Inr []"
| "collect_candidates allowed client domain qtype seen (raw # raws) =
     (case admit_rule allowed seen raw of
        Inl e \<Rightarrow> Inl e
      | Inr r \<Rightarrow>
          (case match_rule r client domain qtype of
             Inl e \<Rightarrow> Inl e
           | Inr c \<Rightarrow>
               (case collect_candidates allowed client domain qtype (insert (pr_id r) seen) raws of
                  Inl e \<Rightarrow> Inl e
                | Inr cs \<Rightarrow> Inr (case c of None \<Rightarrow> cs | Some x \<Rightarrow> x # cs))))"

definition candidate_before :: "policy_candidate \<Rightarrow> policy_candidate \<Rightarrow> bool" where
  "candidate_before a b =
     (if pc_specificity a \<noteq> pc_specificity b then pc_specificity a > pc_specificity b
      else if pr_priority (pc_rule a) \<noteq> pr_priority (pc_rule b)
      then pr_priority (pc_rule a) < pr_priority (pc_rule b)
      else pr_id (pc_rule a) < pr_id (pc_rule b))"

definition no_match :: "nat \<Rightarrow> policy_evaluation" where
  "no_match n = \<lparr>pe_matched = False, pe_policy = ''System'', pe_rule_id = [], pe_priority = 0,
     pe_specificity = 0, pe_reasons = [''no candidate rule matched; using System''],
     pe_evaluated = n, pe_fallback = True\<rparr>"

definition won_by :: "nat \<Rightarrow> policy_candidate \<Rightarrow> policy_evaluation" where
  "won_by n w = \<lparr>pe_matched = True, pe_policy = pr_policy (pc_rule w), pe_rule_id = pr_id (pc_rule w),
     pe_priority = pr_priority (pc_rule w), pe_specificity = pc_specificity w,
     pe_reasons = pc_reasons w, pe_evaluated = n, pe_fallback = False\<rparr>"

definition parse_client :: "string \<Rightarrow> go_error + ip option" where
  "parse_client s =
     (if trim_space s = [] then Inr None
      else (case parse_ip (trim_space s) of
              None \<Rightarrow> Inl (Msg ''invalid client_ip'') | Some a \<Rightarrow> Inr (Some a)))"

definition evaluate_policy ::
    "policy_request \<Rightarrow> (string \<Rightarrow> bool) option \<Rightarrow> go_error + policy_evaluation" where
  "evaluate_policy req allowed =
     (let domain = normalize_domain (rq_domain req);
          qtype = to_upper (trim_space (rq_qtype req)) in
      if domain = [] then Inl (Msg ''domain is required'')
      else if int (length domain) > 253 then Inl (Msg ''domain is too long'')
      else if qtype \<noteq> [] \<and> \<not> valid_qtype qtype then Inl (Msg (''unsupported qtype '' @ quoted qtype))
      else
        (case parse_client (rq_client req) of
           Inl e \<Rightarrow> Inl e
         | Inr client \<Rightarrow>
             if int (length (rq_rules req)) > 128 then Inl (Msg ''too many rules'')
             else
               (case collect_candidates allowed client domain qtype {} (rq_rules req) of
                  Inl e \<Rightarrow> Inl e
                | Inr [] \<Rightarrow> Inr (no_match (length (rq_rules req)))
                | Inr cs \<Rightarrow> Inr (won_by (length (rq_rules req)) (hd (sort_by candidate_before cs))))))"

subsection \<open>What admission and matching do\<close>

definition permitted :: "(string \<Rightarrow> bool) option \<Rightarrow> policy_rule \<Rightarrow> bool" where
  "permitted allowed r \<longleftrightarrow> (case allowed of None \<Rightarrow> True | Some a \<Rightarrow> a (pr_policy r))"

lemma admit_rules_iff:
  "admit_rules allowed seen raws = Inr rs \<longleftrightarrow>
     map normalize_rule raws = map Inr rs \<and> distinct (map pr_id rs) \<and>
     set (map pr_id rs) \<inter> seen = {} \<and> (\<forall>r\<in>set rs. permitted allowed r)"
proof (induction raws arbitrary: seen rs)
  case Nil
  then show ?case by auto
next
  case (Cons raw raws)
  have ad: "admit_rule allowed seen raw = Inr r \<longleftrightarrow>
      normalize_rule raw = Inr r \<and> pr_id r \<notin> seen \<and> permitted allowed r" for r
    by (auto simp: admit_rule_def permitted_def split: sum.splits option.splits)
  have "admit_rules allowed seen (raw # raws) = Inr rs \<longleftrightarrow>
      (\<exists>r rs'. rs = r # rs' \<and> admit_rule allowed seen raw = Inr r \<and>
         admit_rules allowed (insert (pr_id r) seen) raws = Inr rs')"
    by (auto split: sum.splits)
  then show ?case
    unfolding ad Cons.IH by (cases rs) auto
qed

lemma normalize_rule_cidr:
  "normalize_rule raw = Inr r \<Longrightarrow> pm_cidr (pr_match r) = [] \<or> parse_cidr (pm_cidr (pr_match r)) \<noteq> None"
  by (auto simp: normalize_rule_def Let_def split: if_splits)

definition rule_match :: "ip option \<Rightarrow> string \<Rightarrow> string \<Rightarrow> policy_rule \<Rightarrow> policy_candidate option" where
  "rule_match client domain qtype r =
     (case match_rule r client domain qtype of Inl _ \<Rightarrow> None | Inr c \<Rightarrow> c)"

lemma match_rule_ok:
  "normalize_rule raw = Inr r \<Longrightarrow> match_rule r client domain qtype = Inr (rule_match client domain qtype r)"
  using normalize_rule_cidr [of raw r] by (auto simp: rule_match_def match_rule_def Let_def split: if_splits)

lemma rule_match_rule: "rule_match client domain qtype r = Some c \<Longrightarrow> pc_rule c = r"
  by (auto simp: rule_match_def match_rule_def Let_def split: if_splits sum.splits)

text \<open>The candidates are the matching rules, in order.\<close>

lemma collect_candidates_eq:
  "collect_candidates allowed client domain qtype seen raws =
     (case admit_rules allowed seen raws of
        Inl e \<Rightarrow> Inl e
      | Inr rs \<Rightarrow> Inr (List.map_filter (rule_match client domain qtype) rs))"
proof (induction raws arbitrary: seen)
  case Nil
  then show ?case by (simp add: List.map_filter_def)
next
  case (Cons raw raws)
  show ?case
  proof (cases "admit_rule allowed seen raw")
    case (Inl e)
    then show ?thesis by simp
  next
    case (Inr r)
    then have "normalize_rule raw = Inr r"
      by (auto simp: admit_rule_def split: sum.splits if_splits)
    then show ?thesis
      using Inr Cons.IH [of "insert (pr_id r) seen"] match_rule_ok [of raw r]
      by (auto simp: List.map_filter_def split: sum.splits option.splits)
  qed
qed

subsection \<open>The orders\<close>

definition candidate_key :: "policy_candidate \<Rightarrow> int \<times> int \<times> string" where
  "candidate_key c = (- int (pc_specificity c), pr_priority (pc_rule c), pr_id (pc_rule c))"

interpretation candidates: key_order candidate_before candidate_key
  by unfold_locales (auto simp: candidate_before_def candidate_key_def)

interpretation rules: key_order rule_before "\<lambda>r. (pr_priority r, pr_id r)"
  by unfold_locales (auto simp: rule_before_def)

definition option_key :: "policy_option \<Rightarrow> bool \<times> bool \<times> int \<times> string" where
  "option_key a =
     (\<not> po_system a,
      (case proxy_ordinal (po_proxy a) of
         Some i \<Rightarrow> (False, i, po_proxy a) | None \<Rightarrow> (True, 0, po_proxy a)))"

interpretation options: key_order option_before option_key
  by unfold_locales (auto simp: option_before_def option_key_def split: option.splits)

subsection \<open>The winner\<close>

lemma mset_map_filter: "mset xs = mset ys \<Longrightarrow> mset (List.map_filter f xs) = mset (List.map_filter f ys)"
  unfolding List.map_filter_def by (metis mset_filter mset_map)

lemma set_map_filter: "set (List.map_filter f xs) = {y. \<exists>x\<in>set xs. f x = Some y}"
  unfolding List.map_filter_def by force

lemma candidates_told_apart:
  assumes "distinct (map pr_id rs)" and "c \<in> set (List.map_filter (rule_match client domain qtype) rs)"
    and "d \<in> set (List.map_filter (rule_match client domain qtype) rs)" and "c \<noteq> d"
  shows "candidate_before c d \<or> candidate_before d c"
proof -
  obtain r q where r: "r \<in> set rs" "rule_match client domain qtype r = Some c"
    and q: "q \<in> set rs" "rule_match client domain qtype q = Some d"
    using assms(2,3) by (auto simp: set_map_filter)
  have "r \<noteq> q" using r q assms(4) by auto
  then have "pr_id r \<noteq> pr_id q"
    using assms(1) r(1) q(1) by (auto simp: distinct_map dest: inj_onD)
  then have "candidate_key c \<noteq> candidate_key d"
    using rule_match_rule [OF r(2)] rule_match_rule [OF q(2)] by (auto simp: candidate_key_def)
  then show ?thesis
    by (rule candidates.apart_if_keys_differ)
qed

lemma admit_rules_perm:
  assumes "admit_rules allowed {} raws = Inr rs" and "mset raws' = mset raws"
  obtains rs' where "admit_rules allowed {} raws' = Inr rs'" "mset rs' = mset rs"
proof -
  let ?f = "\<lambda>raw. projr (normalize_rule raw)"
  note a = assms(1) [unfolded admit_rules_iff]
  have rs: "rs = map ?f raws"
    using arg_cong [of _ _ "map projr", OF conjunct1 [OF a]] by (simp add: comp_def)
  have set: "set raws' = set raws" using assms(2) by (metis set_mset_mset)
  have ok: "normalize_rule raw = Inr (?f raw)" if "raw \<in> set raws" for raw
  proof -
    have "normalize_rule raw \<in> set (map Inr rs)" using a that by (metis image_eqI list.set_map)
    then show ?thesis by auto
  qed
  have m: "mset (map ?f raws') = mset rs" using assms(2) rs by simp
  have "mset (map pr_id (map ?f raws')) = mset (map pr_id rs)" using m by (metis mset_map)
  then have "distinct (map pr_id (map ?f raws'))" using a mset_eq_imp_distinct_iff by blast
  moreover have "set (map ?f raws') = set rs" using m by (metis set_mset_mset)
  moreover have "map normalize_rule raws' = map Inr (map ?f raws')" using ok set by simp
  ultimately have "admit_rules allowed {} raws' = Inr (map ?f raws')"
    unfolding admit_rules_iff using a by auto
  then show thesis using m that by blast
qed

lemma collect_candidates_perm:
  assumes "mset raws' = mset raws" and "collect_candidates allowed client domain qtype {} raws = Inr cs"
  obtains cs' where "collect_candidates allowed client domain qtype {} raws' = Inr cs'" "mset cs' = mset cs"
    "sort_by candidate_before cs' = sort_by candidate_before cs"
proof -
  obtain rs where rs: "admit_rules allowed {} raws = Inr rs"
     and cs: "cs = List.map_filter (rule_match client domain qtype) rs"
    using assms(2) by (auto simp: collect_candidates_eq split: sum.splits)
  obtain rs' where rs': "admit_rules allowed {} raws' = Inr rs'" "mset rs' = mset rs"
    using admit_rules_perm [OF rs assms(1)] .
  let ?cs' = "List.map_filter (rule_match client domain qtype) rs'"
  have m: "mset ?cs' = mset cs" using mset_map_filter [OF rs'(2)] cs by simp
  have "distinct (map pr_id rs')" using rs'(1) by (simp add: admit_rules_iff)
  then have "sort_by candidate_before ?cs' = sort_by candidate_before cs"
    using candidates_told_apart [of rs'] by (intro candidates.sort_by_unique [OF m]) blast
  then show thesis using that m rs'(1) by (simp add: collect_candidates_eq)
qed

text \<open>C16: which policy a query gets does not depend on the order in which the rules are stored:
  a request with the same rules in any other order has the same result.\<close>

theorem evaluation_ignores_rule_order:
  assumes "mset rules = mset (rq_rules req)"
  shows "evaluate_policy (req\<lparr>rq_rules := rules\<rparr>) allowed = Inr ev \<longleftrightarrow> evaluate_policy req allowed = Inr ev"
proof -
  have len: "length rules = length (rq_rules req)" using assms by (metis size_mset)
  have one: "evaluate_policy (q\<lparr>rq_rules := rs\<rparr>) allowed = Inr ev"
    if eq: "mset rs = mset (rq_rules q)" and ok: "evaluate_policy q allowed = Inr ev" for q rs
  proof -
    have l: "length rs = length (rq_rules q)" using eq by (metis size_mset)
    obtain client cs where cl: "parse_client (rq_client q) = Inr client"
      and cs: "collect_candidates allowed client (normalize_domain (rq_domain q))
          (to_upper (trim_space (rq_qtype q))) {} (rq_rules q) = Inr cs"
      using ok by (auto simp: evaluate_policy_def Let_def split: if_splits sum.splits list.splits)
    obtain cs' where cs': "collect_candidates allowed client (normalize_domain (rq_domain q))
          (to_upper (trim_space (rq_qtype q))) {} rs = Inr cs'" "mset cs' = mset cs"
        "sort_by candidate_before cs' = sort_by candidate_before cs"
      using collect_candidates_perm [OF eq cs] .
    then have "cs' = [] \<longleftrightarrow> cs = []" by auto
    then show ?thesis
      using ok cl cs cs' l
      by (cases cs; cases cs') (auto simp: evaluate_policy_def Let_def split: if_splits)
  qed
  have "req\<lparr>rq_rules := rules\<rparr>\<lparr>rq_rules := rq_rules req\<rparr> = req" by simp
  then show ?thesis
    using one [of rules req] one [of "rq_rules req" "req\<lparr>rq_rules := rules\<rparr>"] assms by auto
qed

text \<open>C17: the evaluation picks the best match: when it reports a match, some admitted rule
  matches the request and is the one reported, and no matching rule has a higher specificity, or
  the same with a smaller priority, or both the same with a smaller id; when it falls back to
  System, no rule matches.\<close>

theorem evaluation_picks_best_match:
  assumes "evaluate_policy req allowed = Inr ev"
  shows "\<exists>client rs. parse_client (rq_client req) = Inr client \<and> admit_rules allowed {} (rq_rules req) = Inr rs \<and>
    (let hits = {c. \<exists>r\<in>set rs. rule_match client (normalize_domain (rq_domain req))
                        (to_upper (trim_space (rq_qtype req))) r = Some c} in
     (pe_fallback ev \<longleftrightarrow> hits = {}) \<and> (pe_matched ev \<longleftrightarrow> hits \<noteq> {}) \<and>
     (hits = {} \<longrightarrow> pe_policy ev = ''System'') \<and>
     (hits \<noteq> {} \<longrightarrow> (\<exists>w\<in>hits. ev = won_by (length (rq_rules req)) w \<and> (\<forall>c\<in>hits. candidate_key w \<le> candidate_key c))))"
proof -
  let ?d = "normalize_domain (rq_domain req)" and ?t = "to_upper (trim_space (rq_qtype req))"
  obtain client cs where cl: "parse_client (rq_client req) = Inr client"
    and cs: "collect_candidates allowed client ?d ?t {} (rq_rules req) = Inr cs"
    and ev: "ev = (if cs = [] then no_match (length (rq_rules req))
                   else won_by (length (rq_rules req)) (hd (sort_by candidate_before cs)))"
    using assms by (auto simp: evaluate_policy_def Let_def split: if_splits sum.splits list.splits)
  obtain rs where rs: "admit_rules allowed {} (rq_rules req) = Inr rs"
    and mf: "cs = List.map_filter (rule_match client ?d ?t) rs"
    using cs by (auto simp: collect_candidates_eq split: sum.splits)
  have hits: "set cs = {c. \<exists>r\<in>set rs. rule_match client ?d ?t r = Some c}"
    by (simp add: mf set_map_filter)
  have best: "candidate_key (hd (sort_by candidate_before cs)) \<le> candidate_key c" if "c \<in> set cs" for c
    using candidates.hd_sort_by [OF that] by (simp add: candidates.lt_key not_less)
  have hd: "hd (sort_by candidate_before cs) \<in> set cs" if "cs \<noteq> []"
    using that by (metis hd_in_set set_sort_by sort_by_Nil_iff)
  have core: "(pe_fallback ev \<longleftrightarrow> set cs = {}) \<and> (pe_matched ev \<longleftrightarrow> set cs \<noteq> {}) \<and>
     (set cs = {} \<longrightarrow> pe_policy ev = ''System'') \<and>
     (set cs \<noteq> {} \<longrightarrow> (\<exists>w\<in>set cs. ev = won_by (length (rq_rules req)) w \<and> (\<forall>c\<in>set cs. candidate_key w \<le> candidate_key c)))"
  proof (cases "cs = []")
    case True
    then show ?thesis using ev by (simp add: no_match_def)
  next
    case False
    let ?w = "hd (sort_by candidate_before cs)"
    have "ev = won_by (length (rq_rules req)) ?w" using ev False by simp
    moreover from this have "pe_matched ev \<and> \<not> pe_fallback ev" by (simp add: won_by_def)
    ultimately show ?thesis using hd [OF False] best False by auto
  qed
  show ?thesis
    using cl rs core unfolding hits Let_def by blast
qed

definition sample_rule :: "string \<Rightarrow> int \<Rightarrow> string \<Rightarrow> string \<Rightarrow> string \<Rightarrow> policy_rule" where
  "sample_rule i p pol cidr domain = \<lparr>pr_id = i, pr_priority = p, pr_policy = pol,
     pr_match = \<lparr>pm_cidr = cidr, pm_domain = domain, pm_qtype = []\<rparr>\<rparr>"

definition sample_policy_request :: "policy_request" where
  "sample_policy_request = \<lparr>rq_client = ''192.168.1.7'', rq_domain = ''www.Corp.'', rq_qtype = ''a'',
     rq_rules = [sample_rule ''d'' 1 ''policy 2'' [] ''corp'', sample_rule ''c'' 9 ''Policy1'' ''192.168.0.0/16'' []]\<rparr>"

lemma sample_evaluation:
  "evaluate_policy sample_policy_request None = Inr \<lparr>pe_matched = True, pe_policy = ''Policy1'', pe_rule_id = ''c'',
     pe_priority = 9, pe_specificity = 4, pe_reasons = [''client_ip matched 192.168.0.0/16''], pe_evaluated = 2,
     pe_fallback = False\<rparr>"
  by code_simp

theorem evaluation_order_witness:
  "evaluate_policy (sample_policy_request\<lparr>rq_rules := rev (rq_rules sample_policy_request)\<rparr>) None =
   Inr \<lparr>pe_matched = True, pe_policy = ''Policy1'', pe_rule_id = ''c'',
     pe_priority = 9, pe_specificity = 4, pe_reasons = [''client_ip matched 192.168.0.0/16''], pe_evaluated = 2,
     pe_fallback = False\<rparr>"
  using evaluation_ignores_rule_order [of "rev (rq_rules sample_policy_request)" sample_policy_request]
    sample_evaluation by simp

theorem evaluation_best_witness:
  "\<exists>client rs. parse_client (rq_client sample_policy_request) = Inr client \<and>
     admit_rules None {} (rq_rules sample_policy_request) = Inr rs \<and>
     {c. \<exists>r\<in>set rs. rule_match client (normalize_domain (rq_domain sample_policy_request))
                        (to_upper (trim_space (rq_qtype sample_policy_request))) r = Some c} \<noteq> {}"
  using evaluation_picks_best_match [OF sample_evaluation] unfolding Let_def by fastforce

subsection \<open>Normal forms\<close>

lemma normalize_proxy_idem [simp]: "normalize_proxy (normalize_proxy x) = normalize_proxy x"
proof (cases "has_prefix (to_lower (trim_space x)) ''policy''")
  case False
  then show ?thesis by (simp add: normalize_proxy_def Let_def)
next
  case True
  let ?t = "trim_space (drop 6 (trim_space x))"
  have p: "normalize_proxy x = ''Policy'' @ ?t" using True by (simp add: normalize_proxy_def)
  have lit: "\<not> is_space (hd ''Policy'')" "\<not> is_space (last ''Policy'')" "to_lower ''Policy'' = ''policy''"
    by code_simp+
  have "trim_space (''Policy'' @ ?t) = ''Policy'' @ ?t"
    by (rule trim_space_id) (use lit trim_space_last [of "drop 6 (trim_space x)"] in \<open>auto simp: last_append\<close>)
  moreover have "has_prefix (to_lower (''Policy'' @ ?t)) ''policy''"
    unfolding to_lower_simps(3) lit(3) by (simp add: has_prefix_def)
  ultimately show ?thesis
    unfolding p by (simp add: normalize_proxy_def)
qed

text \<open>Normalizing a normalized rule can only change its domain suffix, and never fails.\<close>

definition redomain :: "policy_rule \<Rightarrow> policy_rule" where
  "redomain r = r\<lparr>pr_match := (pr_match r)\<lparr>pm_domain := normalize_domain (pm_domain (pr_match r))\<rparr>\<rparr>"

lemma normalize_rule_again:
  assumes "normalize_rule raw = Inr r"
  shows "normalize_rule r = Inr (redomain r)"
proof -
  have sys: "normalize_proxy ''System'' = ''System''" by code_simp
  let ?p = "normalize_proxy (pr_policy raw)"
  have r: "pr_id r = trim_space (pr_id raw)" "pr_priority r = pr_priority raw"
      "pr_policy r = (if equal_fold ?p ''System'' then ''System'' else ?p)"
      "pm_cidr (pr_match r) = trim_space (pm_cidr (pr_match raw))"
      "pm_qtype (pr_match r) = to_upper (trim_space (pm_qtype (pr_match raw)))"
    and ok: "\<not> (pr_id r = [] \<or> int (length (pr_id r)) > 64)" "\<not> (pr_priority r < 0 \<or> pr_priority r > 1000000)"
      "\<not> (\<not> equal_fold ?p ''System'' \<and> \<not> is_proxy_key ?p)"
      "\<not> (pm_cidr (pr_match r) \<noteq> [] \<and> parse_cidr (pm_cidr (pr_match r)) = None)"
      "\<not> (pm_qtype (pr_match r) \<noteq> [] \<and> \<not> valid_qtype (pm_qtype (pr_match r)))"
    using assms unfolding normalize_rule_def Let_def by (auto split: if_splits)
  have trims: "trim_space (pr_id r) = pr_id r" "trim_space (pm_cidr (pr_match r)) = pm_cidr (pr_match r)"
      "to_upper (trim_space (pm_qtype (pr_match r))) = pm_qtype (pr_match r)"
    unfolding r by simp_all
  have pol: "normalize_proxy (pr_policy r) = pr_policy r"
      "equal_fold (pr_policy r) ''System'' \<or> is_proxy_key (pr_policy r)"
      "(if equal_fold (pr_policy r) ''System'' then ''System'' else pr_policy r) = pr_policy r"
    using r(3) sys ok(3) by auto
  show ?thesis
    unfolding normalize_rule_def Let_def trims pol(1,3)
    using ok pol(2) by (cases r; cases "pr_match r") (auto simp: redomain_def)
qed

lemma normalize_rule_idem:
  assumes "normalize_rule raw = Inr r" and "normalize_domain (pm_domain (pr_match r)) = pm_domain (pr_match r)"
  shows "normalize_rule r = Inr r"
  using normalize_rule_again [OF assms(1)] assms(2) by (simp add: redomain_def)

lemma redomain_keeps [simp]: "pr_id (redomain r) = pr_id r" "pr_policy (redomain r) = pr_policy r"
  by (simp_all add: redomain_def)

lemma validated_rules_reload:
  assumes "validate_rules rules allowed = Inr out"
  shows "validate_rules out None = Inr (sort_by rule_before (map redomain out))"
    and "validate_rules out allowed = Inr (sort_by rule_before (map redomain out))"
proof -
  obtain rs where rs: "admit_rules allowed {} rules = Inr rs" and out: "out = sort_by rule_before rs"
    and len: "int (length rules) \<le> 128"
    using assms by (auto simp: validate_rules_def split: if_splits sum.splits)
  note a = rs [unfolded admit_rules_iff]
  have lrs: "length rs = length rules" using a by (metis length_map)
  have "normalize_rule r = Inr (redomain r)" if "r \<in> set out" for r
  proof -
    have "Inr r \<in> set (map normalize_rule rules)" using a that out by auto
    then obtain raw where "normalize_rule raw = Inr r" by auto
    then show ?thesis by (rule normalize_rule_again)
  qed
  then have norm: "map normalize_rule out = map Inr (map redomain out)" by simp
  have ids: "map pr_id (map redomain out) = map pr_id out" by simp
  have "mset (map pr_id out) = mset (map pr_id rs)" using out by simp
  then have d: "distinct (map pr_id out)" using a mset_eq_imp_distinct_iff by blast
  have perm: "\<forall>r\<in>set (map redomain out). permitted allowed r" using a out by (auto simp: permitted_def split: option.splits)
  have free: "\<forall>r\<in>set (map redomain out). permitted None r" by (simp add: permitted_def)
  have "admit_rules allowed {} out = Inr (map redomain out)" "admit_rules None {} out = Inr (map redomain out)"
    unfolding admit_rules_iff ids using norm d perm free by auto
  then show "validate_rules out None = Inr (sort_by rule_before (map redomain out))"
    and "validate_rules out allowed = Inr (sort_by rule_before (map redomain out))"
    using len lrs out by (simp_all add: validate_rules_def)
qed

text \<open>C18: a set of rules that passed validation is stored in a normal form: ordered by priority
  and id with distinct ids, every rule permitted; and validating it again, as a reload of the
  stored policy does, changes nothing, provided no domain suffix is still denormal.\<close>

theorem validated_rules_are_stable:
  assumes "validate_rules rules allowed = Inr out"
    and "\<And>r. r \<in> set out \<Longrightarrow> normalize_domain (pm_domain (pr_match r)) = pm_domain (pr_match r)"
  shows "validate_rules out allowed = Inr out \<and> distinct (map pr_id out) \<and> length out = length rules \<and>
    sorted (map (\<lambda>r. (pr_priority r, pr_id r)) out) \<and> (\<forall>r\<in>set out. permitted allowed r)"
proof -
  obtain rs where rs: "admit_rules allowed {} rules = Inr rs" and out: "out = sort_by rule_before rs"
    and len: "int (length rules) \<le> 128"
    using assms(1) by (auto simp: validate_rules_def split: if_splits sum.splits)
  note a = rs [unfolded admit_rules_iff]
  have lrs: "length rs = length rules" using a by (metis length_map)
  have "normalize_rule r = Inr r" if "r \<in> set out" for r
  proof -
    have "Inr r \<in> set (map normalize_rule rules)" using a that out by auto
    then obtain raw where "normalize_rule raw = Inr r" by auto
    then show ?thesis using normalize_rule_idem assms(2) that by blast
  qed
  then have norm: "map normalize_rule out = map Inr out" by simp
  have "mset (map pr_id out) = mset (map pr_id rs)" using out by simp
  then have d: "distinct (map pr_id out)" using a mset_eq_imp_distinct_iff by blast
  have perm: "\<forall>r\<in>set out. permitted allowed r" using a out by simp
  have "admit_rules allowed {} out = Inr out"
    unfolding admit_rules_iff using norm d perm by simp
  then have "validate_rules out allowed = Inr out"
    using len lrs out rules.sort_by_idem by (simp add: validate_rules_def)
  moreover have "sorted (map (\<lambda>r. (pr_priority r, pr_id r)) out)"
    unfolding out by (rule rules.sorted_keys)
  ultimately show ?thesis using d perm lrs out by simp
qed

definition two_rules :: "policy_rule list" where
  "two_rules = [sample_rule ''b'' 2 ''policy 3'' [] ''Corp.'', sample_rule ''a'' 2 '' System '' [] []]"

theorem validated_rules_witness:
  "\<exists>out. validate_rules two_rules None = Inr out \<and> validate_rules out None = Inr out \<and> map pr_id out = [''a'', ''b'']"
proof -
  let ?out = "[sample_rule ''a'' 2 ''System'' [] [], sample_rule ''b'' 2 ''Policy3'' [] ''corp'']"
  have v: "validate_rules two_rules None = Inr ?out" by code_simp
  have n: "normalize_domain [] = []" "normalize_domain ''corp'' = ''corp''" by code_simp+
  have "validate_rules ?out None = Inr ?out"
  proof -
    have "normalize_domain (pm_domain (pr_match r)) = pm_domain (pr_match r)" if "r \<in> set ?out" for r
      using that n by (auto simp: sample_rule_def)
    then show ?thesis using validated_rules_are_stable [OF v] by blast
  qed
  then show ?thesis using v by (intro exI [of _ ?out]) (simp add: sample_rule_def)
qed

text \<open>Validating a validated set again, under whatever inventory, yields the same set or an error; and
  the evaluation gives the same result on the rules as they were sent and as they were stored.\<close>

definition normal_domains :: "policy_rule list \<Rightarrow> bool" where
  "normal_domains rules \<longleftrightarrow> list_all (\<lambda>r. normalize_domain (pm_domain (pr_match r)) = pm_domain (pr_match r)) rules"

lemma normal_redomain: "normal_domains rules \<Longrightarrow> map redomain rules = rules"
  by (induction rules) (simp_all add: normal_domains_def redomain_def)

lemma normal_admit:
  assumes "validate_rules raw allowed = Inr out" and "normal_domains out" and "\<forall>r\<in>set out. permitted allowed' r"
  shows "admit_rules allowed' {} out = Inr out"
proof -
  obtain rs where rs: "admit_rules allowed {} raw = Inr rs" and out: "out = sort_by rule_before rs"
    using assms(1) by (auto simp: validate_rules_def split: if_splits sum.splits)
  note a = rs [unfolded admit_rules_iff]
  have "normalize_rule r = Inr r" if r: "r \<in> set out" for r
  proof -
    have "Inr r \<in> set (map normalize_rule raw)" using a r out by auto
    then obtain x where "normalize_rule x = Inr r" by auto
    moreover have "normalize_domain (pm_domain (pr_match r)) = pm_domain (pr_match r)"
      using assms(2) r by (simp add: normal_domains_def list_all_iff)
    ultimately show ?thesis by (rule normalize_rule_idem)
  qed
  then have "map normalize_rule out = map Inr out" by simp
  moreover have "mset (map pr_id out) = mset (map pr_id rs)" using out by simp
  then have "distinct (map pr_id out)" using a mset_eq_imp_distinct_iff by blast
  ultimately show ?thesis
    unfolding admit_rules_iff using assms(3) by simp
qed

lemma validated_again:
  assumes "validate_rules raw allowed = Inr out" and "normal_domains out" and "validate_rules out allowed' = Inr out'"
  shows "out' = out" and "\<forall>r\<in>set out. permitted allowed' r"
proof -
  obtain rs' where rs': "admit_rules allowed' {} out = Inr rs'" and out': "out' = sort_by rule_before rs'"
    using assms(3) by (auto simp: validate_rules_def split: if_splits sum.splits)
  have "\<forall>r\<in>set out. permitted None r" by (simp add: permitted_def)
  from normal_admit [OF assms(1,2) this] have "map normalize_rule out = map Inr out"
    by (simp add: admit_rules_iff)
  then have same: "rs' = out"
    using rs' unfolding admit_rules_iff by (metis inj_Inr map_injective)
  then show "\<forall>r\<in>set out. permitted allowed' r" using rs' by (simp add: admit_rules_iff)
  show "out' = out"
    using assms(1) same out' rules.sort_by_idem
    by (auto simp: validate_rules_def split: if_splits sum.splits)
qed

lemma verdict_sorted:
  "(case cs of [] \<Rightarrow> Inr (no_match n) | x # xs \<Rightarrow> Inr (won_by n (hd (sort_by candidate_before (x # xs))))) =
     Inr (if sort_by candidate_before cs = [] then no_match n else won_by n (hd (sort_by candidate_before cs)))"
  by (cases cs) (simp_all only: list.case sort_by_Nil_iff list.distinct simp_thms if_True if_False)

lemma evaluate_validated:
  assumes v: "validate_rules raw allowed = Inr out" and "normal_domains out" and "\<forall>r\<in>set out. permitted allowed' r"
  shows "evaluate_policy (req\<lparr>rq_rules := out\<rparr>) allowed' = Inr ev \<longleftrightarrow> evaluate_policy (req\<lparr>rq_rules := raw\<rparr>) allowed = Inr ev"
proof -
  obtain rs where rs: "admit_rules allowed {} raw = Inr rs" and out: "out = sort_by rule_before rs"
    using v by (auto simp: validate_rules_def split: if_splits sum.splits)
  have len: "length out = length raw"
    using rs out by (metis admit_rules_iff length_map length_sort_by)
  note again = normal_admit [OF assms]
  have d: "distinct (map pr_id rs)" using rs by (simp add: admit_rules_iff)
  have sorted: "sort_by candidate_before (List.map_filter (rule_match c d t) out) =
      sort_by candidate_before (List.map_filter (rule_match c d t) rs)" for c d t
  proof (rule candidates.sort_by_unique)
    show "mset (List.map_filter (rule_match c d t) out) = mset (List.map_filter (rule_match c d t) rs)"
      using out by (intro mset_map_filter) simp
    have "distinct (map pr_id out)" using again by (simp add: admit_rules_iff)
    then show "x \<in> set (List.map_filter (rule_match c d t) out) \<Longrightarrow> y \<in> set (List.map_filter (rule_match c d t) out) \<Longrightarrow>
        x \<noteq> y \<Longrightarrow> candidate_before x y \<or> candidate_before y x" for x y
      using candidates_told_apart [of out] by blast
  qed
  have rules: "rq_domain (req\<lparr>rq_rules := x\<rparr>) = rq_domain req" "rq_qtype (req\<lparr>rq_rules := x\<rparr>) = rq_qtype req"
    "rq_client (req\<lparr>rq_rules := x\<rparr>) = rq_client req" "rq_rules (req\<lparr>rq_rules := x\<rparr>) = x" for x
    by simp_all
  show ?thesis
    unfolding evaluate_policy_def Let_def rules collect_candidates_eq again rs sum.case verdict_sorted sorted len ..
qed

text \<open>
  The proviso is needed: a domain suffix with two trailing dots is admitted in a form that the
  next validation changes again, so the rule that is stored and the rule a reload uses differ.
\<close>

lemma denormal_domain_changes_on_reload:
  "\<exists>r r' r''. normalize_rule r = Inr r' \<and> normalize_rule r' = Inr r'' \<and> r' \<noteq> r''"
proof -
  have "normalize_rule (sample_rule ''a'' 1 ''System'' [] ''corp..'') = Inr (sample_rule ''a'' 1 ''System'' [] ''corp.'')"
    "normalize_rule (sample_rule ''a'' 1 ''System'' [] ''corp.'') = Inr (sample_rule ''a'' 1 ''System'' [] ''corp'')"
    "sample_rule ''a'' 1 ''System'' [] ''corp.'' \<noteq> sample_rule ''a'' 1 ''System'' [] ''corp''"
    by code_simp+
  then show ?thesis by blast
qed

subsection \<open>The inventory\<close>

text \<open>The inventory shown to the user does not depend on the iteration order of the map it is
  built from, as long as no two names denote the same policy; System comes first, then the
  numbered policies in numeric order.\<close>

theorem inventory_order_independent:
  assumes "mset names = mset names'" and "distinct (map (\<lambda>e. normalize_proxy (fst e)) names)"
  shows "inventory_from_names names = inventory_from_names names' \<and>
    sorted (map option_key (inventory_from_names names))"
proof -
  have inj: "x = y" if "x \<in> set names" "y \<in> set names" "normalize_proxy (fst x) = normalize_proxy (fst y)" for x y
    using assms(2) that by (auto simp: distinct_map dest: inj_onD)
  have "option_before (inventory_item x) (inventory_item y) \<or> option_before (inventory_item y) (inventory_item x)"
    if "x \<in> set names" "y \<in> set names" "inventory_item x \<noteq> inventory_item y" for x y
  proof -
    have "po_proxy (inventory_item x) \<noteq> po_proxy (inventory_item y)"
      using that inj [of x y] by (auto simp: inventory_item_def Let_def)
    then have "option_key (inventory_item x) \<noteq> option_key (inventory_item y)"
      by (auto simp: option_key_def split: option.splits)
    then show ?thesis by (rule options.apart_if_keys_differ)
  qed
  then have "sort_by option_before (map inventory_item names) = sort_by option_before (map inventory_item names')"
    by (intro options.sort_by_unique) (use assms(1) in auto)
  moreover have "sorted (map option_key (sort_by option_before (map inventory_item names)))"
    by (rule options.sorted_keys)
  ultimately show ?thesis by (simp add: inventory_from_names_def)
qed

theorem inventory_witness:
  "map po_proxy (inventory_from_names [(''Policy10'', ''b''), (''System'', ''System''), (''policy 2'', [])])
     = map po_proxy (inventory_from_names [(''policy 2'', []), (''Policy10'', ''b''), (''System'', ''System'')])"
proof -
  have "distinct (map (\<lambda>e. normalize_proxy (fst e)) [(''Policy10'', ''b''), (''System'', ''System''), (''policy 2'', [])])"
    by code_simp
  from inventory_order_independent [OF _ this, of "[(''policy 2'', []), (''Policy10'', ''b''), (''System'', ''System'')]"]
  show ?thesis by simp
qed

end
