(* ===== verification/Dns_Activation.thy ===== *)
theory Dns_Activation
  imports Transaction Dns_Policy
begin

text \<open>
  \<^verbatim>\<open>modules/dns/runtime/dns_policy_activation.go\<close>, \<^verbatim>\<open>dns_policy_adapter.go\<close> and
  \<^verbatim>\<open>dns_policy_takeover.go\<close>: the guarded activation of the policy rules and the two drivers it can
  run on. A Go interface is a record of its methods over a state \<open>'s\<close>, the world they act on; each
  method returns what the Go method returns and the world after it. An interface value or function
  that may be \<open>nil\<close> is an option. \<open>clk k\<close> is what the \<open>k\<close>-th \<^verbatim>\<open>time.Now()\<close> on a path returns.
\<close>

record runtime_snapshot =
  rs_identity :: string
  rs_rule_count :: int

type_synonym 's step = "'s \<Rightarrow> go_error option \<times> 's"

record 's driver =
  dr_precheck :: "policy_rule list \<Rightarrow> 's step"
  dr_snapshot :: "'s \<Rightarrow> (go_error + runtime_snapshot) \<times> 's"
  dr_validate :: "policy_rule list \<Rightarrow> 's step"
  dr_apply :: "policy_rule list \<Rightarrow> 's step"
  dr_verify :: "policy_rule list \<Rightarrow> 's step"
  dr_rollback :: "runtime_snapshot \<Rightarrow> 's step"
  dr_verify_rollback :: "runtime_snapshot \<Rightarrow> 's step"

record activation_result =
  ar_manifest :: manifest
  ar_snapshot :: runtime_snapshot
  ar_activated :: bool

type_synonym 's activation = "(activation_result \<times> tx_error option) \<times> 's"

subsection \<open>The transaction\<close>

definition rules_detail :: "policy_rule list \<Rightarrow> (string \<times> string) list" where
  "rules_detail rules = [(''rules'', itoa (int (length rules)))]"

definition noted :: "go_error \<Rightarrow> string \<Rightarrow> go_error option \<Rightarrow> go_error" where
  "noted cause what err = (case err of None \<Rightarrow> cause | Some e \<Rightarrow> Note cause (what @ error_text e))"

definition fail_before_apply ::
    "(nat \<Rightarrow> time) \<Rightarrow> activation_result \<Rightarrow> manifest \<Rightarrow> tx_state \<Rightarrow> go_error \<Rightarrow> activation_result \<times> tx_error option" where
  "fail_before_apply clk res m stage cause =
     (let m1 = tx_record_failure (clk 0) (state_text stage) (Some cause) [] m;
          (err, m2) = tx_advance (clk 1) Failed m1;
          cause' = noted cause ''; terminal transition failed: '' err
      in (res\<lparr>ar_manifest := m2, ar_activated := False\<rparr>, tx_wrap (Some cause') m2))"

definition undecided ::
    "(nat \<Rightarrow> time) \<Rightarrow> activation_result \<Rightarrow> manifest \<Rightarrow> string \<Rightarrow> string \<Rightarrow> string \<Rightarrow> go_error \<Rightarrow> go_error \<Rightarrow>
     activation_result \<times> tx_error option" where
  "undecided clk res m stage what ident cause err =
     (let m1 = tx_record_failure (clk 0) stage (Some err) [(''identity'', ident)] m;
          (adv, m2) = tx_advance (clk 1) Ambiguous m1;
          err' = noted err ''; ambiguous transition failed: '' adv
      in (res\<lparr>ar_manifest := m2, ar_activated := False\<rparr>, tx_wrap (Some (Note cause (what @ error_text err'))) m2))"

definition rollback_activation ::
    "(nat \<Rightarrow> time) \<Rightarrow> activation_result \<Rightarrow> manifest \<Rightarrow> runtime_snapshot \<Rightarrow> 's driver \<Rightarrow> go_error \<Rightarrow> 's \<Rightarrow> 's activation" where
  "rollback_activation clk res m snap d cause s =
     (case dr_rollback d snap s of
        (Some err, s1) \<Rightarrow> (undecided clk res m ''rollback'' ''; rollback failed: '' (rs_identity snap) cause err, s1)
      | (None, s1) \<Rightarrow>
          (let m1 = tx_record (clk 0) ''rollback'' EvidenceRecovered ''pre-activation snapshot restored''
                      [(''identity'', rs_identity snap)] m in
           case dr_verify_rollback d snap s1 of
             (Some err, s2) \<Rightarrow>
               (undecided (\<lambda>k. clk (k + 1)) res m1 ''rollback-verify'' ''; rollback verification failed: ''
                  (rs_identity snap) cause err, s2)
           | (None, s2) \<Rightarrow>
               (let m2 = tx_record (clk 1) ''rollback-verify'' EvidenceRecovered ''rollback verified''
                           [(''identity'', rs_identity snap)] m1 in
                case tx_advance (clk 2) RolledBack m2 of
                  (Some e, m3) \<Rightarrow>
                    ((res\<lparr>ar_manifest := m3\<rparr>,
                      tx_wrap (Some (Note cause (''; rolled-back transition failed: '' @ error_text e))) m3), s2)
                | (None, m3) \<Rightarrow>
                    ((res\<lparr>ar_manifest := m3, ar_activated := False\<rparr>, tx_wrap (Some cause) m3), s2))))"

text \<open>\<^verbatim>\<open>runDNSPolicyActivation\<close>, one definition for each stage it enters, from the last to the first.\<close>

definition commit_stage :: "(nat \<Rightarrow> time) \<Rightarrow> activation_result \<Rightarrow> manifest \<Rightarrow> 's \<Rightarrow> 's activation" where
  "commit_stage clk res m s =
     (case tx_advance (clk 0) Committed m of
        (Some e, m1) \<Rightarrow> ((res, tx_wrap (Some e) m1), s)
      | (None, m1) \<Rightarrow>
          (let m2 = tx_record (clk 1) (state_text Committed) EvidencePassed ''policy activation committed'' [] m1
           in ((res\<lparr>ar_manifest := m2, ar_activated := True\<rparr>, None), s)))"

definition verify_stage ::
    "(nat \<Rightarrow> time) \<Rightarrow> activation_result \<Rightarrow> manifest \<Rightarrow> runtime_snapshot \<Rightarrow> policy_rule list \<Rightarrow> 's driver \<Rightarrow> 's \<Rightarrow> 's activation" where
  "verify_stage clk res m snap rules d s =
     (case tx_advance (clk 0) Verified m of
        (Some e, m1) \<Rightarrow> ((res, tx_wrap (Some e) m1), s)
      | (None, m1) \<Rightarrow>
          (case dr_verify d rules s of
             (Some err, s1) \<Rightarrow>
               rollback_activation (\<lambda>k. clk (k + 2)) res
                 (tx_record_failure (clk 1) (state_text Verified) (Some err) [] m1) snap d err s1
           | (None, s1) \<Rightarrow>
               commit_stage (\<lambda>k. clk (k + 2)) res
                 (tx_record (clk 1) (state_text Verified) EvidencePassed ''active runtime verified'' [] m1) s1))"

definition apply_stage ::
    "(nat \<Rightarrow> time) \<Rightarrow> activation_result \<Rightarrow> manifest \<Rightarrow> runtime_snapshot \<Rightarrow> policy_rule list \<Rightarrow> 's driver \<Rightarrow> 's \<Rightarrow> 's activation" where
  "apply_stage clk res m snap rules d s =
     (case tx_advance (clk 0) Applied m of
        (Some e, m1) \<Rightarrow> ((res, tx_wrap (Some e) m1), s)
      | (None, m1) \<Rightarrow>
          (case dr_apply d rules s of
             (Some err, s1) \<Rightarrow>
               rollback_activation (\<lambda>k. clk (k + 2)) res
                 (tx_record_failure (clk 1) (state_text Applied) (Some err) [] m1) snap d err s1
           | (None, s1) \<Rightarrow>
               verify_stage (\<lambda>k. clk (k + 2)) res
                 (tx_record (clk 1) (state_text Applied) EvidencePassed ''activation apply completed''
                    (rules_detail rules) m1) snap rules d s1))"

definition validate_stage ::
    "(nat \<Rightarrow> time) \<Rightarrow> activation_result \<Rightarrow> manifest \<Rightarrow> runtime_snapshot \<Rightarrow> policy_rule list \<Rightarrow> 's driver \<Rightarrow> 's \<Rightarrow> 's activation" where
  "validate_stage clk res m snap rules d s =
     (case tx_advance (clk 0) Validated m of
        (Some e, m1) \<Rightarrow> ((res, tx_wrap (Some e) m1), s)
      | (None, m1) \<Rightarrow>
          (case dr_validate d rules s of
             (Some err, s1) \<Rightarrow> (fail_before_apply (\<lambda>k. clk (k + 1)) res m1 Validated err, s1)
           | (None, s1) \<Rightarrow>
               apply_stage (\<lambda>k. clk (k + 2)) res
                 (tx_record (clk 1) (state_text Validated) EvidencePassed ''activation input validated''
                    (rules_detail rules) m1) snap rules d s1))"

definition snapshot_stage ::
    "(nat \<Rightarrow> time) \<Rightarrow> activation_result \<Rightarrow> manifest \<Rightarrow> policy_rule list \<Rightarrow> 's driver \<Rightarrow> 's \<Rightarrow> 's activation" where
  "snapshot_stage clk res m rules d s =
     (case tx_advance (clk 0) Snapshot m of
        (Some e, m1) \<Rightarrow> ((res, tx_wrap (Some e) m1), s)
      | (None, m1) \<Rightarrow>
          (case dr_snapshot d s of
             (Inl err, s1) \<Rightarrow> (fail_before_apply (\<lambda>k. clk (k + 1)) res m1 Snapshot err, s1)
           | (Inr snap, s1) \<Rightarrow>
               validate_stage (\<lambda>k. clk (k + 2)) (res\<lparr>ar_snapshot := snap\<rparr>)
                 (tx_record (clk 1) (state_text Snapshot) EvidencePassed ''pre-activation snapshot captured''
                    [(''identity'', rs_identity snap), (''rule_count'', itoa (rs_rule_count snap))] m1) snap rules d s1))"

definition no_snapshot :: "runtime_snapshot" where
  "no_snapshot = \<lparr>rs_identity = [], rs_rule_count = 0\<rparr>"

definition run_activation ::
    "(nat \<Rightarrow> time) \<Rightarrow> string \<Rightarrow> policy_rule list \<Rightarrow> 's driver option \<Rightarrow> 's \<Rightarrow> 's activation" where
  "run_activation clk tx_id rules driver s =
     (let m = tx_new (clk 0) tx_id ''dns-policy-router'' [''persisted-policy-rules''];
          res = \<lparr>ar_manifest = m, ar_snapshot = no_snapshot, ar_activated = False\<rparr>
      in case driver of
           None \<Rightarrow>
             (let err = Msg ''activation driver is nil'';
                  m1 = tx_record_failure (clk 1) (state_text Precheck) (Some err) [] m;
                  m2 = snd (tx_advance (clk 2) Failed m1)
              in ((res\<lparr>ar_manifest := m2\<rparr>, tx_wrap (Some err) m2), s))
         | Some d \<Rightarrow>
             (case dr_precheck d rules s of
                (Some err, s1) \<Rightarrow> (fail_before_apply (\<lambda>k. clk (k + 1)) res m Precheck err, s1)
              | (None, s1) \<Rightarrow>
                  snapshot_stage (\<lambda>k. clk (k + 2)) res
                    (tx_record (clk 1) (state_text Precheck) EvidencePassed ''activation precheck passed''
                       (rules_detail rules) m) rules d s1))"

subsection \<open>The transaction without its records\<close>

text \<open>
  The abstract activation: which driver methods run, in which order, and the state it ends in.
  The manifest, its clock and its evidence are gone.
\<close>

definition recover :: "'s driver \<Rightarrow> runtime_snapshot \<Rightarrow> 's \<Rightarrow> tx_state \<times> 's" where
  "recover d snap s =
     (case dr_rollback d snap s of
        (Some _, s1) \<Rightarrow> (Ambiguous, s1)
      | (None, s1) \<Rightarrow>
          (case dr_verify_rollback d snap s1 of
             (Some _, s2) \<Rightarrow> (Ambiguous, s2)
           | (None, s2) \<Rightarrow> (RolledBack, s2)))"

definition act_verify :: "'s driver \<Rightarrow> policy_rule list \<Rightarrow> runtime_snapshot \<Rightarrow> 's \<Rightarrow> tx_state \<times> 's" where
  "act_verify d rules snap s =
     (case dr_verify d rules s of (Some _, s1) \<Rightarrow> recover d snap s1 | (None, s1) \<Rightarrow> (Committed, s1))"

definition act_apply :: "'s driver \<Rightarrow> policy_rule list \<Rightarrow> runtime_snapshot \<Rightarrow> 's \<Rightarrow> tx_state \<times> 's" where
  "act_apply d rules snap s =
     (case dr_apply d rules s of (Some _, s1) \<Rightarrow> recover d snap s1 | (None, s1) \<Rightarrow> act_verify d rules snap s1)"

definition act_run :: "'s driver \<Rightarrow> policy_rule list \<Rightarrow> 's \<Rightarrow> tx_state \<times> 's" where
  "act_run d rules s =
     (case dr_precheck d rules s of
        (Some _, s1) \<Rightarrow> (Failed, s1)
      | (None, s1) \<Rightarrow>
          (case dr_snapshot d s1 of
             (Inl _, s2) \<Rightarrow> (Failed, s2)
           | (Inr snap, s2) \<Rightarrow>
               (case dr_validate d rules s2 of
                  (Some _, s3) \<Rightarrow> (Failed, s3)
                | (None, s3) \<Rightarrow> act_apply d rules snap s3)))"

text \<open>What the caller sees of a finished activation, and what it means for the result.\<close>

definition settled :: "'s activation \<Rightarrow> tx_state \<times> 's" where
  "settled r = (mf_state (ar_manifest (fst (fst r))), snd r)"

definition consistent :: "activation_result \<times> tx_error option \<Rightarrow> bool" where
  "consistent r \<longleftrightarrow>
     ar_activated (fst r) = (mf_state (ar_manifest (fst r)) = Committed) \<and>
     (snd r = None) = (mf_state (ar_manifest (fst r)) = Committed) \<and>
     (snd r = None \<or> tx_extract (snd r) = Some (ar_manifest (fst r)))"

lemma tx_advance_move:
  "can_transition (mf_state m) to \<Longrightarrow> \<exists>m'. tx_advance now to m = (None, m') \<and> mf_state m' = to"
  using tx_advance_ok [of m to now] by (cases "tx_advance now to m") auto

lemma fail_before_apply_outcome:
  assumes "can_transition (mf_state m) Failed"
  shows "mf_state (ar_manifest (fst (fail_before_apply clk res m stage cause))) = Failed \<and>
         consistent (fail_before_apply clk res m stage cause)"
proof -
  obtain m' where "tx_advance (clk 1) Failed (tx_record_failure (clk 0) (state_text stage) (Some cause) [] m) = (None, m')"
    "mf_state m' = Failed"
    using tx_advance_move [of "tx_record_failure (clk 0) (state_text stage) (Some cause) [] m" Failed] assms by auto
  then show ?thesis
    by (simp add: fail_before_apply_def consistent_def noted_def tx_wrap_def tx_extract_def Let_def)
qed

lemma undecided_outcome:
  assumes "can_transition (mf_state m) Ambiguous"
  shows "mf_state (ar_manifest (fst (undecided clk res m stage what ident cause err))) = Ambiguous \<and>
         consistent (undecided clk res m stage what ident cause err)"
proof -
  obtain m' where "tx_advance (clk 1) Ambiguous (tx_record_failure (clk 0) stage (Some err) [(''identity'', ident)] m) = (None, m')"
    "mf_state m' = Ambiguous"
    using tx_advance_move [of "tx_record_failure (clk 0) stage (Some err) [(''identity'', ident)] m" Ambiguous] assms by auto
  then show ?thesis
    by (simp add: undecided_def consistent_def noted_def tx_wrap_def tx_extract_def Let_def)
qed

text \<open>A stage of the code refines a stage of the abstract activation.\<close>

definition refines :: "'s activation \<Rightarrow> tx_state \<times> 's \<Rightarrow> bool" where
  "refines r a \<longleftrightarrow> settled r = a \<and> consistent (fst r)"

lemma refinesI [intro]:
  "mf_state (ar_manifest (fst x)) = st \<and> consistent x \<Longrightarrow> refines (x, s) (st, s)"
  by (simp add: refines_def settled_def)

lemma rollback_refines:
  assumes st: "mf_state m = Applied \<or> mf_state m = Verified" and off: "\<not> ar_activated res"
  shows "refines (rollback_activation clk res m snap d cause s) (recover d snap s)"
proof -
  have amb: "can_transition (mf_state m) Ambiguous" and rb: "can_transition (mf_state m) RolledBack"
    using st by auto
  obtain r1 s1 where r1: "dr_rollback d snap s = (r1, s1)" by fastforce
  obtain r2 s2 where r2: "dr_verify_rollback d snap s1 = (r2, s2)" by fastforce
  let ?m2 = "tx_record (clk 1) ''rollback-verify'' EvidenceRecovered ''rollback verified'' [(''identity'', rs_identity snap)]
     (tx_record (clk 0) ''rollback'' EvidenceRecovered ''pre-activation snapshot restored'' [(''identity'', rs_identity snap)] m)"
  obtain m3 where m3: "tx_advance (clk 2) RolledBack ?m2 = (None, m3)" "mf_state m3 = RolledBack"
    using tx_advance_move [of ?m2 RolledBack] rb by auto
  show ?thesis
  proof (cases r1)
    case (Some err)
    then show ?thesis
      using undecided_outcome [OF amb] by (auto simp: rollback_activation_def recover_def r1)
  next
    case ok: None
    show ?thesis
    proof (cases r2)
      case (Some err)
      then show ?thesis
        using amb undecided_outcome by (auto simp: rollback_activation_def recover_def r1 r2 ok Let_def)
    next
      case None
      then show ?thesis
        using m3 by (simp add: rollback_activation_def recover_def r1 r2 ok Let_def refines_def settled_def
            consistent_def tx_wrap_def tx_extract_def)
    qed
  qed
qed

lemma commit_refines:
  assumes "mf_state m = Verified"
  shows "refines (commit_stage clk res m s) (Committed, s)"
proof -
  obtain m' where "tx_advance (clk 0) Committed m = (None, m')" "mf_state m' = Committed"
    using tx_advance_move [of m Committed] assms by auto
  then show ?thesis
    by (simp add: commit_stage_def refines_def settled_def consistent_def Let_def)
qed

lemma verify_refines:
  assumes "mf_state m = Applied" and "\<not> ar_activated res"
  shows "refines (verify_stage clk res m snap rules d s) (act_verify d rules snap s)"
proof -
  obtain m' where m': "tx_advance (clk 0) Verified m = (None, m')" "mf_state m' = Verified"
    using tx_advance_move [of m Verified] assms by auto
  obtain r s1 where "dr_verify d rules s = (r, s1)" by fastforce
  then show ?thesis
    using m' assms by (cases r) (auto simp: verify_stage_def act_verify_def intro!: rollback_refines commit_refines)
qed

lemma apply_refines:
  assumes "mf_state m = Validated" and "\<not> ar_activated res"
  shows "refines (apply_stage clk res m snap rules d s) (act_apply d rules snap s)"
proof -
  obtain m' where m': "tx_advance (clk 0) Applied m = (None, m')" "mf_state m' = Applied"
    using tx_advance_move [of m Applied] assms by auto
  obtain r s1 where "dr_apply d rules s = (r, s1)" by fastforce
  then show ?thesis
    using m' assms by (cases r) (auto simp: apply_stage_def act_apply_def intro!: rollback_refines verify_refines)
qed

lemma validate_refines:
  assumes "mf_state m = Snapshot" and "\<not> ar_activated res"
  shows "refines (validate_stage clk res m snap rules d s)
     (case dr_validate d rules s of (Some _, s1) \<Rightarrow> (Failed, s1) | (None, s1) \<Rightarrow> act_apply d rules snap s1)"
proof -
  obtain m' where m': "tx_advance (clk 0) Validated m = (None, m')" "mf_state m' = Validated"
    using tx_advance_move [of m Validated] assms by auto
  obtain r s1 where "dr_validate d rules s = (r, s1)" by fastforce
  then show ?thesis
    using m' assms by (cases r) (auto simp: validate_stage_def intro!: apply_refines refinesI fail_before_apply_outcome)
qed

lemma snapshot_refines:
  assumes "mf_state m = Precheck" and "\<not> ar_activated res"
  shows "refines (snapshot_stage clk res m rules d s)
     (case dr_snapshot d s of (Inl _, s1) \<Rightarrow> (Failed, s1)
      | (Inr snap, s1) \<Rightarrow> (case dr_validate d rules s1 of (Some _, s2) \<Rightarrow> (Failed, s2) | (None, s2) \<Rightarrow> act_apply d rules snap s2))"
proof -
  obtain m' where m': "tx_advance (clk 0) Snapshot m = (None, m')" "mf_state m' = Snapshot"
    using tx_advance_move [of m Snapshot] assms by auto
  obtain r s1 where "dr_snapshot d s = (r, s1)" by fastforce
  then show ?thesis
    using m' assms by (cases r) (auto simp: snapshot_stage_def intro!: validate_refines refinesI fail_before_apply_outcome)
qed

lemma tx_new_state [simp]: "mf_state (tx_new now i c as) = Precheck"
  by (simp add: tx_new_def Let_def)

lemma activation_refines_lemma: "refines (run_activation clk i rules (Some d) s) (act_run d rules s)"
proof -
  obtain r s1 where "dr_precheck d rules s = (r, s1)" by fastforce
  then show ?thesis
    by (cases r) (auto simp: run_activation_def act_run_def Let_def
        intro!: snapshot_refines refinesI fail_before_apply_outcome)
qed

text \<open>C19: the activation of a rule set is, up to its manifest, the abstract activation: the same
  driver calls in the same order with the same final state. It reports success exactly when the
  manifest ends committed, and an error it returns carries the very manifest of the result.\<close>

theorem activation_refines_transaction:
  "settled (run_activation clk i rules (Some d) s) = act_run d rules s \<and>
   consistent (fst (run_activation clk i rules (Some d) s))"
  using activation_refines_lemma by (simp add: refines_def)

subsection \<open>The order of the driver calls\<close>

text \<open>A driver that writes down each call, with whether it succeeded.\<close>

datatype call = CPrecheck | CSnapshot | CValidate | CApply | CVerify | CRollback | CVerifyRollback

definition logged :: "call \<Rightarrow> 's step \<Rightarrow> ('s \<times> (call \<times> bool) list) step" where
  "logged c f p = (case f (fst p) of (r, s') \<Rightarrow> (r, (s', snd p @ [(c, r = None)])))"

definition traced :: "'s driver \<Rightarrow> ('s \<times> (call \<times> bool) list) driver" where
  "traced d =
     \<lparr>dr_precheck = (\<lambda>rules. logged CPrecheck (dr_precheck d rules)),
      dr_snapshot = (\<lambda>p. case dr_snapshot d (fst p) of (r, s') \<Rightarrow> (r, (s', snd p @ [(CSnapshot, is_ok r)]))),
      dr_validate = (\<lambda>rules. logged CValidate (dr_validate d rules)),
      dr_apply = (\<lambda>rules. logged CApply (dr_apply d rules)),
      dr_verify = (\<lambda>rules. logged CVerify (dr_verify d rules)),
      dr_rollback = (\<lambda>snap. logged CRollback (dr_rollback d snap)),
      dr_verify_rollback = (\<lambda>snap. logged CVerifyRollback (dr_verify_rollback d snap))\<rparr>"

definition prepared :: "(call \<times> bool) list" where
  "prepared = [(CPrecheck, True), (CSnapshot, True), (CValidate, True)]"

definition applied_logs :: "(call \<times> bool) list list" where
  "applied_logs = [prepared @ [(CApply, False)], prepared @ [(CApply, True), (CVerify, False)]]"

fun admissible :: "tx_state \<Rightarrow> (call \<times> bool) list \<Rightarrow> bool" where
  "admissible Committed log = (log = prepared @ [(CApply, True), (CVerify, True)])"
| "admissible Failed log = (log \<in> {[(CPrecheck, False)], [(CPrecheck, True), (CSnapshot, False)],
                                 [(CPrecheck, True), (CSnapshot, True), (CValidate, False)]})"
| "admissible RolledBack log = (log \<in> (\<lambda>l. l @ [(CRollback, True), (CVerifyRollback, True)]) ` set applied_logs)"
| "admissible Ambiguous log = (log \<in> (\<lambda>l. l @ [(CRollback, False)]) ` set applied_logs \<or>
                              log \<in> (\<lambda>l. l @ [(CRollback, True), (CVerifyRollback, False)]) ` set applied_logs)"
| "admissible _ log = False"

lemma recover_log:
  "l \<in> set applied_logs \<Longrightarrow> recover (traced d) snap (s, l) = (st, (s', log)) \<Longrightarrow> admissible st log"
  by (auto simp: recover_def traced_def logged_def split: prod.splits option.splits)

lemma act_run_log:
  assumes "act_run (traced d) rules (s, []) = (st, (s', log))"
  shows "admissible st log"
proof -
  have "admissible st log" if "act_verify (traced d) rules snap (s1, prepared @ [(CApply, True)]) = (st, (s', log))" for snap s1
    using that recover_log [of "prepared @ [(CApply, True), (CVerify, False)]" d snap]
    by (auto simp: act_verify_def traced_def logged_def applied_logs_def split: prod.splits option.splits)
  then have ap: "admissible st log" if "act_apply (traced d) rules snap (s1, prepared) = (st, (s', log))" for snap s1
    using that recover_log [of "prepared @ [(CApply, False)]" d snap]
    by (auto simp: act_apply_def traced_def logged_def applied_logs_def split: prod.splits option.splits)
  obtain r1 s1 where r1: "dr_precheck d rules s = (r1, s1)" by fastforce
  obtain r2 s2 where r2: "dr_snapshot d s1 = (r2, s2)" by fastforce
  obtain r3 s3 where r3: "dr_validate d rules s2 = (r3, s3)" by fastforce
  have calls: "dr_precheck (traced d) rules (s, []) = (r1, (s1, [(CPrecheck, r1 = None)]))"
    "dr_snapshot (traced d) (s1, l) = (r2, (s2, l @ [(CSnapshot, is_ok r2)]))"
    "dr_validate (traced d) rules (s2, l) = (r3, (s3, l @ [(CValidate, r3 = None)]))" for l
    by (simp_all add: traced_def logged_def r1 r2 r3)
  show ?thesis
  proof (cases "r1 = None \<and> is_ok r2 \<and> r3 = None")
    case True
    then show ?thesis
      using assms ap by (cases r2) (auto simp: act_run_def calls prepared_def)
  next
    case False
    then show ?thesis
      using assms by (cases r1; cases r2; cases r3) (auto simp: act_run_def calls)
  qed
qed

text \<open>An activation calls its driver in one of the prescribed orders: it commits only after
  precheck, snapshot, validate, apply and verify all succeeded; it is failed only when nothing was
  applied; once apply was called without a commit, rollback is called, and it counts as rolled back
  only when rollback and its verification both succeeded; everything else is ambiguous.\<close>

theorem activation_calls_in_order:
  "settled (run_activation clk i rules (Some (traced d)) (s, [])) = (st, (s', log)) \<Longrightarrow> admissible st log"
  using activation_refines_lemma [of clk i rules "traced d" "(s, [])"] act_run_log by (metis refines_def)

subsection \<open>The contract of a driver\<close>

text \<open>
  What a driver promises about its own bookkeeping: the preparing calls leave an idle driver idle, a
  successful verification means it is active, a successful rollback means it is idle again.
\<close>

definition outcome_ok :: "('s \<Rightarrow> bool) \<Rightarrow> ('s \<Rightarrow> bool) \<Rightarrow> tx_state \<times> 's \<Rightarrow> bool" where
  "outcome_ok idle active p \<longleftrightarrow>
     (fst p = Committed \<and> active (snd p)) \<or> (fst p \<in> {Failed, RolledBack} \<and> idle (snd p)) \<or> fst p = Ambiguous"

locale activation_driver =
  fixes d :: "'s driver" and idle :: "'s \<Rightarrow> bool" and active :: "'s \<Rightarrow> bool"
  assumes precheck_idle: "idle s \<Longrightarrow> dr_precheck d rules s = (r, s') \<Longrightarrow> idle s'"
    and snapshot_idle: "idle s \<Longrightarrow> dr_snapshot d s = (q, s') \<Longrightarrow> idle s'"
    and validate_idle: "idle s \<Longrightarrow> dr_validate d rules s = (r, s') \<Longrightarrow> idle s'"
    and verify_active: "dr_verify d rules s = (None, s') \<Longrightarrow> active s'"
    and rollback_idle: "dr_rollback d snap s = (None, s') \<Longrightarrow> idle s'"
    and verify_rollback_idle: "idle s \<Longrightarrow> dr_verify_rollback d snap s = (r, s') \<Longrightarrow> idle s'"
begin

abbreviation ok :: "tx_state \<times> 's \<Rightarrow> bool" where
  "ok \<equiv> outcome_ok idle active"

lemma recover_ok: "ok (recover d snap s)"
proof -
  obtain r1 s1 where r1: "dr_rollback d snap s = (r1, s1)" by fastforce
  obtain r2 s2 where r2: "dr_verify_rollback d snap s1 = (r2, s2)" by fastforce
  have "r1 = None \<Longrightarrow> idle s2"
    using rollback_idle r1 verify_rollback_idle r2 by blast
  then show ?thesis
    by (cases r1; cases r2) (auto simp: recover_def r1 r2 outcome_ok_def)
qed

lemma act_verify_ok: "ok (act_verify d rules snap s)"
  using verify_active recover_ok
  by (auto simp: act_verify_def outcome_ok_def [of _ _ "(Committed, _)"] split: prod.splits option.splits)

lemma act_apply_ok: "ok (act_apply d rules snap s)"
  using act_verify_ok recover_ok by (auto simp: act_apply_def split: prod.splits option.splits)

lemma act_run_ok:
  assumes "idle s"
  shows "ok (act_run d rules s)"
proof -
  obtain r1 s1 where r1: "dr_precheck d rules s = (r1, s1)" by fastforce
  obtain r2 s2 where r2: "dr_snapshot d s1 = (r2, s2)" by fastforce
  obtain r3 s3 where r3: "dr_validate d rules s2 = (r3, s3)" by fastforce
  have i: "idle s1" "idle s2" "idle s3"
    using assms precheck_idle [OF _ r1] snapshot_idle [OF _ r2] validate_idle [OF _ r3] by blast+
  show ?thesis
    using i act_apply_ok
    by (cases r1; cases r2; cases r3) (auto simp: act_run_def r1 r2 r3 outcome_ok_def [of _ _ "(Failed, _)"])
qed

lemma activation_ok:
  assumes "idle s"
  shows "ok (settled (run_activation clk i rules (Some d) s))"
  using activation_refines_lemma [of clk i rules d s] act_run_ok [OF assms] by (simp add: refines_def)

end

subsection \<open>The takeover driver\<close>

record ingress_snapshot =
  is_identity :: string
  is_native_owner :: string
  is_native_port53 :: bool
  is_routerforge_addr :: string

definition no_ingress :: "ingress_snapshot" where
  "no_ingress = \<lparr>is_identity = [], is_native_owner = [], is_native_port53 = False, is_routerforge_addr = []\<rparr>"

record 'w primitive =
  pr_precheck_ingress :: "policy_rule list \<Rightarrow> 'w step"
  pr_snapshot_ingress :: "'w \<Rightarrow> (go_error + ingress_snapshot) \<times> 'w"
  pr_start_proxy :: "policy_rule list \<Rightarrow> 'w step"
  pr_verify_proxy :: "policy_rule list \<Rightarrow> 'w step"
  pr_switch_ingress :: "'w step"
  pr_verify_ingress :: "'w step"
  pr_restore_native :: "ingress_snapshot \<Rightarrow> 'w step"
  pr_stop_proxy :: "'w step"
  pr_verify_native :: "ingress_snapshot \<Rightarrow> 'w step"

record 'w takeover =
  tk_snapshot :: ingress_snapshot
  tk_started :: bool
  tk_switched :: bool
  tk_world :: 'w

definition new_takeover :: "'w \<Rightarrow> 'w takeover" where
  "new_takeover w = \<lparr>tk_snapshot = no_ingress, tk_started = False, tk_switched = False, tk_world = w\<rparr>"

text \<open>A call of the primitive acts on the world and leaves the driver's fields alone.\<close>

definition on_world :: "('w \<Rightarrow> 'r \<times> 'w) \<Rightarrow> 'w takeover \<Rightarrow> 'r \<times> 'w takeover" where
  "on_world f t = (case f (tk_world t) of (r, w) \<Rightarrow> (r, t\<lparr>tk_world := w\<rparr>))"

definition unavailable :: "go_error" where
  "unavailable = Msg ''DNS takeover primitive is unavailable''"

definition tk_precheck ::
    "'w primitive option \<Rightarrow> (policy_rule list \<Rightarrow> go_error option) option \<Rightarrow> policy_rule list \<Rightarrow> 'w takeover step" where
  "tk_precheck prim validate rules t =
     (case prim of
        None \<Rightarrow> (Some unavailable, t)
      | Some p \<Rightarrow>
          (case validate of
             None \<Rightarrow> (Some (Msg ''DNS takeover validator is unavailable''), t)
           | Some v \<Rightarrow>
               (case v rules of
                  Some e \<Rightarrow> (Some e, t)
                | None \<Rightarrow> on_world (pr_precheck_ingress p rules) t)))"

definition tk_take_snapshot :: "'w primitive option \<Rightarrow> 'w takeover \<Rightarrow> (go_error + runtime_snapshot) \<times> 'w takeover" where
  "tk_take_snapshot prim t =
     (case prim of
        None \<Rightarrow> (Inl unavailable, t)
      | Some p \<Rightarrow>
          (case on_world (pr_snapshot_ingress p) t of
             (Inl e, t1) \<Rightarrow> (Inl e, t1)
           | (Inr snap, t1) \<Rightarrow>
               (if is_identity snap = [] then (Inl (Msg ''empty DNS ingress snapshot identity''), t1)
                else (Inr \<lparr>rs_identity = is_identity snap, rs_rule_count = 0\<rparr>, t1\<lparr>tk_snapshot := snap\<rparr>))))"

definition tk_validate ::
    "'w primitive option \<Rightarrow> (policy_rule list \<Rightarrow> go_error option) option \<Rightarrow> policy_rule list \<Rightarrow> 'w takeover step" where
  "tk_validate prim validate rules t =
     (case tk_precheck prim validate rules t of
        (Some e, t1) \<Rightarrow> (Some e, t1)
      | (None, t1) \<Rightarrow>
          (if is_identity (tk_snapshot t1) = [] then (Some (Msg ''DNS ingress snapshot is unavailable''), t1)
           else (None, t1)))"

definition tk_apply :: "'w primitive option \<Rightarrow> policy_rule list \<Rightarrow> 'w takeover step" where
  "tk_apply prim rules t =
     (case prim of
        None \<Rightarrow> (Some unavailable, t)
      | Some p \<Rightarrow>
          (case on_world (pr_start_proxy p rules) t of
             (Some e, t1) \<Rightarrow> (Some e, t1)
           | (None, t1) \<Rightarrow>
               (case on_world (pr_verify_proxy p rules) (t1\<lparr>tk_started := True\<rparr>) of
                  (Some e, t2) \<Rightarrow> (Some e, t2)
                | (None, t2) \<Rightarrow>
                    (case on_world (pr_switch_ingress p) t2 of
                       (Some e, t3) \<Rightarrow> (Some e, t3)
                     | (None, t3) \<Rightarrow> (None, t3\<lparr>tk_switched := True\<rparr>)))))"

definition tk_verify :: "'w primitive option \<Rightarrow> policy_rule list \<Rightarrow> 'w takeover step" where
  "tk_verify prim rules t =
     (case prim of
        None \<Rightarrow> (Some unavailable, t)
      | Some p \<Rightarrow>
          (if \<not> tk_started t \<or> \<not> tk_switched t then (Some (Msg ''DNS takeover apply sequence is incomplete''), t)
           else on_world (pr_verify_ingress p) t))"

definition tk_rollback :: "'w primitive option \<Rightarrow> runtime_snapshot \<Rightarrow> 'w takeover step" where
  "tk_rollback prim snap t =
     (case prim of
        None \<Rightarrow> (Some unavailable, t)
      | Some p \<Rightarrow>
          (if is_identity (tk_snapshot t) = [] then (Some (Msg ''DNS ingress rollback snapshot is unavailable''), t)
           else case on_world (pr_restore_native p (tk_snapshot t)) t of
             (Some e, t1) \<Rightarrow> (Some e, t1)
           | (None, t1) \<Rightarrow>
               (let t2 = t1\<lparr>tk_switched := False\<rparr> in
                if \<not> tk_started t2 then (None, t2)
                else case on_world (pr_stop_proxy p) t2 of
                  (Some e, t3) \<Rightarrow> (Some e, t3)
                | (None, t3) \<Rightarrow> (None, t3\<lparr>tk_started := False\<rparr>))))"

definition tk_verify_rollback :: "'w primitive option \<Rightarrow> runtime_snapshot \<Rightarrow> 'w takeover step" where
  "tk_verify_rollback prim snap t =
     (case prim of
        None \<Rightarrow> (Some unavailable, t)
      | Some p \<Rightarrow>
          (if is_identity (tk_snapshot t) = [] then (Some (Msg ''DNS ingress rollback snapshot is unavailable''), t)
           else on_world (pr_verify_native p (tk_snapshot t)) t))"

definition takeover_driver ::
    "'w primitive option \<Rightarrow> (policy_rule list \<Rightarrow> go_error option) option \<Rightarrow> 'w takeover driver" where
  "takeover_driver prim validate =
     \<lparr>dr_precheck = tk_precheck prim validate,
      dr_snapshot = tk_take_snapshot prim,
      dr_validate = tk_validate prim validate,
      dr_apply = tk_apply prim,
      dr_verify = tk_verify prim,
      dr_rollback = tk_rollback prim,
      dr_verify_rollback = tk_verify_rollback prim\<rparr>"

definition takeover_idle :: "'w takeover \<Rightarrow> bool" where
  "takeover_idle t \<longleftrightarrow> \<not> tk_started t \<and> \<not> tk_switched t"

definition takeover_active :: "'w takeover \<Rightarrow> bool" where
  "takeover_active t \<longleftrightarrow> tk_started t \<and> tk_switched t"

lemma on_world_fields:
  "on_world f t = (r, t') \<Longrightarrow>
     tk_started t' = tk_started t \<and> tk_switched t' = tk_switched t \<and> tk_snapshot t' = tk_snapshot t"
  by (auto simp: on_world_def split: prod.splits)

lemma on_world_idle: "on_world f t = (r, t') \<Longrightarrow> takeover_idle t' = takeover_idle t"
  by (auto simp: takeover_idle_def dest: on_world_fields)

lemma tk_precheck_idle: "tk_precheck prim v rules t = (r, t') \<Longrightarrow> takeover_idle t' = takeover_idle t"
  by (auto simp: tk_precheck_def dest: on_world_idle split: option.splits)

lemma tk_snapshot_idle: "tk_take_snapshot prim t = (r, t') \<Longrightarrow> takeover_idle t' = takeover_idle t"
  by (auto simp: tk_take_snapshot_def takeover_idle_def dest: on_world_fields split: option.splits prod.splits sum.splits if_splits)

lemma tk_validate_idle: "tk_validate prim v rules t = (r, t') \<Longrightarrow> takeover_idle t' = takeover_idle t"
  by (auto simp: tk_validate_def dest: tk_precheck_idle split: option.splits prod.splits if_splits)

lemma tk_verify_active: "tk_verify prim rules t = (None, t') \<Longrightarrow> takeover_active t'"
  by (auto simp: tk_verify_def takeover_active_def dest: on_world_fields split: option.splits if_splits)

lemma tk_rollback_idle: "tk_rollback prim snap t = (None, t') \<Longrightarrow> takeover_idle t'"
  by (auto simp: tk_rollback_def takeover_idle_def Let_def dest: on_world_fields split: option.splits prod.splits if_splits)

lemma tk_verify_rollback_idle: "tk_verify_rollback prim snap t = (r, t') \<Longrightarrow> takeover_idle t' = takeover_idle t"
  by (auto simp: tk_verify_rollback_def dest: on_world_idle split: option.splits if_splits)

interpretation takeover: activation_driver "takeover_driver prim v" takeover_idle takeover_active for prim v
  by unfold_locales
    (auto simp: takeover_driver_def dest: tk_precheck_idle tk_snapshot_idle tk_validate_idle tk_verify_active
      tk_rollback_idle tk_verify_rollback_idle)


subsection \<open>Clients always have a resolver\<close>

text \<open>What every method of a driver preserves, an activation preserves.\<close>

definition driver_keeps :: "('s \<Rightarrow> bool) \<Rightarrow> 's driver \<Rightarrow> bool" where
  "driver_keeps P d \<longleftrightarrow>
     (\<forall>s. P s \<longrightarrow>
       (\<forall>rules. P (snd (dr_precheck d rules s)) \<and> P (snd (dr_validate d rules s)) \<and>
          P (snd (dr_apply d rules s)) \<and> P (snd (dr_verify d rules s))) \<and>
       (\<forall>snap. P (snd (dr_rollback d snap s)) \<and> P (snd (dr_verify_rollback d snap s))) \<and>
       P (snd (dr_snapshot d s)))"

lemma driver_keepsD:
  assumes "driver_keeps P d" and "P s"
  shows "dr_precheck d rules s = (r, s') \<Longrightarrow> P s'"
    and "dr_validate d rules s = (r, s') \<Longrightarrow> P s'"
    and "dr_apply d rules s = (r, s') \<Longrightarrow> P s'"
    and "dr_verify d rules s = (r, s') \<Longrightarrow> P s'"
    and "dr_rollback d snap s = (r, s') \<Longrightarrow> P s'"
    and "dr_verify_rollback d snap s = (r, s') \<Longrightarrow> P s'"
    and "dr_snapshot d s = (q, s') \<Longrightarrow> P s'"
  using assms by (auto simp: driver_keeps_def) (metis snd_conv)+

lemma recover_keeps:
  assumes k: "driver_keeps P d" and "P s"
  shows "P (snd (recover d snap s))"
proof -
  obtain r1 s1 where r1: "dr_rollback d snap s = (r1, s1)" by fastforce
  obtain r2 s2 where r2: "dr_verify_rollback d snap s1 = (r2, s2)" by fastforce
  have "P s1" "P s2"
    using assms(2) driver_keepsD(5) [OF k _ r1] driver_keepsD(6) [OF k _ r2] by blast+
  then show ?thesis
    by (cases r1; cases r2) (simp_all add: recover_def r1 r2)
qed

lemma act_verify_keeps:
  assumes k: "driver_keeps P d" and "P s"
  shows "P (snd (act_verify d rules snap s))"
proof -
  obtain r1 s1 where r1: "dr_verify d rules s = (r1, s1)" by fastforce
  then show ?thesis
    using recover_keeps [OF k] driver_keepsD(4) [OF k assms(2) r1] by (cases r1) (simp_all add: act_verify_def)
qed

lemma act_apply_keeps:
  assumes k: "driver_keeps P d" and "P s"
  shows "P (snd (act_apply d rules snap s))"
proof -
  obtain r1 s1 where r1: "dr_apply d rules s = (r1, s1)" by fastforce
  then show ?thesis
    using recover_keeps [OF k] act_verify_keeps [OF k] driver_keepsD(3) [OF k assms(2) r1]
    by (cases r1) (simp_all add: act_apply_def)
qed

lemma act_run_keeps:
  assumes k: "driver_keeps P d" and "P s"
  shows "P (snd (act_run d rules s))"
proof -
  obtain r1 s1 where r1: "dr_precheck d rules s = (r1, s1)" by fastforce
  obtain r2 s2 where r2: "dr_snapshot d s1 = (r2, s2)" by fastforce
  obtain r3 s3 where r3: "dr_validate d rules s2 = (r3, s3)" by fastforce
  have i: "P s1" "P s2" "P s3"
    using assms(2) driver_keepsD(1) [OF k _ r1] driver_keepsD(7) [OF k _ r2] driver_keepsD(2) [OF k _ r3] by blast+
  then show ?thesis
    using act_apply_keeps [OF k i(3)] by (cases r1; cases r2; cases r3) (auto simp: act_run_def r1 r2 r3)
qed

text \<open>
  The contract of \<^verbatim>\<open>dnsPolicyTakeoverPrimitive\<close>. In a world, \<open>native\<close> says that the clients' queries
  reach the router's own resolver and \<open>proxy\<close> that the RouterForge proxy answers: the checks change
  neither, the proxy's start and stop leave the native path alone, the switch and the restore leave
  the proxy alone, a start that succeeds runs the proxy, and a restore never breaks a native path
  and makes one when it succeeds.
\<close>

definition leaves :: "('w \<Rightarrow> bool) \<Rightarrow> ('w \<Rightarrow> 'r \<times> 'w) \<Rightarrow> bool" where
  "leaves P f \<longleftrightarrow> (\<forall>w. P w \<longrightarrow> P (snd (f w)))"

definition gives :: "('w \<Rightarrow> bool) \<Rightarrow> 'w step \<Rightarrow> bool" where
  "gives P f \<longleftrightarrow> (\<forall>w. fst (f w) = None \<longrightarrow> P (snd (f w)))"

definition takeover_contract :: "('w \<Rightarrow> bool) \<Rightarrow> ('w \<Rightarrow> bool) \<Rightarrow> 'w primitive \<Rightarrow> bool" where
  "takeover_contract native proxy p \<longleftrightarrow>
     (\<forall>rules. leaves native (pr_precheck_ingress p rules) \<and> leaves proxy (pr_precheck_ingress p rules) \<and>
        leaves native (pr_start_proxy p rules) \<and> leaves proxy (pr_start_proxy p rules) \<and> gives proxy (pr_start_proxy p rules) \<and>
        leaves native (pr_verify_proxy p rules) \<and> leaves proxy (pr_verify_proxy p rules)) \<and>
     leaves native (pr_snapshot_ingress p) \<and> leaves proxy (pr_snapshot_ingress p) \<and>
     leaves proxy (pr_switch_ingress p) \<and>
     leaves native (pr_verify_ingress p) \<and> leaves proxy (pr_verify_ingress p) \<and>
     (\<forall>snap. leaves native (pr_restore_native p snap) \<and> leaves proxy (pr_restore_native p snap) \<and>
        gives native (pr_restore_native p snap) \<and>
        leaves native (pr_verify_native p snap) \<and> leaves proxy (pr_verify_native p snap)) \<and>
     leaves native (pr_stop_proxy p)"

text \<open>A primitive that keeps every world it passed through, the newest first.\<close>

definition remembering :: "('w \<Rightarrow> 'r \<times> 'w) \<Rightarrow> 'w list \<Rightarrow> 'r \<times> 'w list" where
  "remembering f h = (case f (hd h) of (r, w) \<Rightarrow> (r, w # h))"

definition watched :: "'w primitive \<Rightarrow> 'w list primitive" where
  "watched p =
     \<lparr>pr_precheck_ingress = (\<lambda>rules. remembering (pr_precheck_ingress p rules)),
      pr_snapshot_ingress = remembering (pr_snapshot_ingress p),
      pr_start_proxy = (\<lambda>rules. remembering (pr_start_proxy p rules)),
      pr_verify_proxy = (\<lambda>rules. remembering (pr_verify_proxy p rules)),
      pr_switch_ingress = remembering (pr_switch_ingress p),
      pr_verify_ingress = remembering (pr_verify_ingress p),
      pr_restore_native = (\<lambda>snap. remembering (pr_restore_native p snap)),
      pr_stop_proxy = remembering (pr_stop_proxy p),
      pr_verify_native = (\<lambda>snap. remembering (pr_verify_native p snap))\<rparr>"

definition served_so_far :: "('w \<Rightarrow> bool) \<Rightarrow> ('w \<Rightarrow> bool) \<Rightarrow> 'w list takeover \<Rightarrow> bool" where
  "served_so_far native proxy t \<longleftrightarrow>
     (\<forall>w\<in>set (tk_world t). native w \<or> proxy w) \<and>
     (native (hd (tk_world t)) \<or> (tk_started t \<and> proxy (hd (tk_world t))))"

lemma leavesD: "leaves P f \<Longrightarrow> f w = (r, w') \<Longrightarrow> P w \<Longrightarrow> P w'"
  by (auto simp: leaves_def dest: spec [of _ w])

lemma givesD: "gives P f \<Longrightarrow> f w = (None, w') \<Longrightarrow> P w'"
  by (auto simp: gives_def dest: spec [of _ w])

lemma on_worldE:
  assumes "on_world (remembering f) t = (r, t')"
  obtains w where "f (hd (tk_world t)) = (r, w)" and "t' = t\<lparr>tk_world := w # tk_world t\<rparr>"
  using assms by (auto simp: on_world_def remembering_def split: prod.splits)

lemma served_neutral:
  assumes "leaves native f" and "leaves proxy f" and "served_so_far native proxy t"
    and "on_world (remembering f) t = (r, t')"
  shows "served_so_far native proxy t'"
  using assms(4)
proof (rule on_worldE)
  fix w assume w: "f (hd (tk_world t)) = (r, w)" and t': "t' = t\<lparr>tk_world := w # tk_world t\<rparr>"
  show ?thesis
    using assms(3) leavesD [OF assms(1) w] leavesD [OF assms(2) w] by (auto simp: t' served_so_far_def)
qed

lemma contractD:
  assumes "takeover_contract native proxy p"
  shows "leaves native (pr_precheck_ingress p rules)" "leaves proxy (pr_precheck_ingress p rules)"
    "leaves native (pr_snapshot_ingress p)" "leaves proxy (pr_snapshot_ingress p)"
    "leaves native (pr_start_proxy p rules)" "leaves proxy (pr_start_proxy p rules)" "gives proxy (pr_start_proxy p rules)"
    "leaves native (pr_verify_proxy p rules)" "leaves proxy (pr_verify_proxy p rules)"
    "leaves proxy (pr_switch_ingress p)"
    "leaves native (pr_verify_ingress p)" "leaves proxy (pr_verify_ingress p)"
    "leaves native (pr_restore_native p snap)" "leaves proxy (pr_restore_native p snap)" "gives native (pr_restore_native p snap)"
    "leaves native (pr_verify_native p snap)" "leaves proxy (pr_verify_native p snap)"
    "leaves native (pr_stop_proxy p)"
  using assms by (auto simp: takeover_contract_def)

lemma watched_simps [simp]:
  "pr_precheck_ingress (watched p) rules = remembering (pr_precheck_ingress p rules)"
  "pr_snapshot_ingress (watched p) = remembering (pr_snapshot_ingress p)"
  "pr_start_proxy (watched p) rules = remembering (pr_start_proxy p rules)"
  "pr_verify_proxy (watched p) rules = remembering (pr_verify_proxy p rules)"
  "pr_switch_ingress (watched p) = remembering (pr_switch_ingress p)"
  "pr_verify_ingress (watched p) = remembering (pr_verify_ingress p)"
  "pr_restore_native (watched p) snap = remembering (pr_restore_native p snap)"
  "pr_stop_proxy (watched p) = remembering (pr_stop_proxy p)"
  "pr_verify_native (watched p) snap = remembering (pr_verify_native p snap)"
  by (simp_all add: watched_def)

lemma served_fields [simp]:
  "served_so_far native proxy (t\<lparr>tk_snapshot := x\<rparr>) = served_so_far native proxy t"
  "served_so_far native proxy (t\<lparr>tk_switched := b\<rparr>) = served_so_far native proxy t"
  by (simp_all add: served_so_far_def)

text \<open>The same with what is known of the newest world: it is native, or its proxy runs.\<close>

definition now_in :: "('w \<Rightarrow> bool) \<Rightarrow> 'w list takeover \<Rightarrow> bool" where
  "now_in P t \<longleftrightarrow> P (hd (tk_world t))"

lemma now_in_leaves: "leaves P f \<Longrightarrow> on_world (remembering f) t = (r, t') \<Longrightarrow> now_in P t \<Longrightarrow> now_in P t'"
  by (erule on_worldE) (auto simp: now_in_def dest: leavesD)

lemma now_in_gives: "gives P f \<Longrightarrow> on_world (remembering f) t = (None, t') \<Longrightarrow> now_in P t'"
  by (erule on_worldE) (auto simp: now_in_def dest: givesD)

lemma now_in_fields [simp]:
  "now_in P (t\<lparr>tk_started := b\<rparr>) = now_in P t" "now_in P (t\<lparr>tk_switched := b\<rparr>) = now_in P t"
  by (simp_all add: now_in_def)

text \<open>A call after which the clients are certainly served keeps the history served.\<close>

lemma served_push:
  assumes "served_so_far native proxy t" and "on_world (remembering f) t = (r, t')"
    and "now_in native t' \<or> (tk_started t' \<and> now_in proxy t')"
  shows "served_so_far native proxy t'"
  using assms(2)
proof (rule on_worldE)
  fix w assume w: "f (hd (tk_world t)) = (r, w)" and t': "t' = t\<lparr>tk_world := w # tk_world t\<rparr>"
  show ?thesis using assms(1,3) by (auto simp: t' served_so_far_def now_in_def)
qed

lemma served_start:
  "served_so_far native proxy t \<Longrightarrow> now_in proxy t \<Longrightarrow> served_so_far native proxy (t\<lparr>tk_started := True\<rparr>)"
  by (auto simp: served_so_far_def now_in_def)

lemma served_stop:
  "served_so_far native proxy t \<Longrightarrow> now_in native t \<Longrightarrow> served_so_far native proxy (t\<lparr>tk_started := False\<rparr>)"
  by (auto simp: served_so_far_def now_in_def)

lemma served_precheck:
  assumes c: "takeover_contract native proxy p" and "served_so_far native proxy t"
    and "tk_precheck (Some (watched p)) v rules t = (r, t')"
  shows "served_so_far native proxy t'"
  using assms(2,3) served_neutral [OF contractD(1) [OF c] contractD(2) [OF c]]
  by (auto simp: tk_precheck_def split: option.splits)

lemma served_snapshot:
  assumes c: "takeover_contract native proxy p" and "served_so_far native proxy t"
    and "tk_take_snapshot (Some (watched p)) t = (r, t')"
  shows "served_so_far native proxy t'"
  using assms(2,3) served_neutral [OF contractD(3) [OF c] contractD(4) [OF c]]
  by (auto simp: tk_take_snapshot_def split: sum.splits prod.splits if_splits)

lemma served_validate:
  assumes c: "takeover_contract native proxy p" and "served_so_far native proxy t"
    and "tk_validate (Some (watched p)) v rules t = (r, t')"
  shows "served_so_far native proxy t'"
  using assms(2,3) served_precheck [OF c] by (auto simp: tk_validate_def split: option.splits prod.splits if_splits)

lemma served_verify:
  assumes c: "takeover_contract native proxy p" and "served_so_far native proxy t"
    and "tk_verify (Some (watched p)) rules t = (r, t')"
  shows "served_so_far native proxy t'"
  using assms(2,3) served_neutral [OF contractD(11) [OF c] contractD(12) [OF c]]
  by (auto simp: tk_verify_def split: if_splits)

lemma served_verify_rollback:
  assumes c: "takeover_contract native proxy p" and "served_so_far native proxy t"
    and "tk_verify_rollback (Some (watched p)) snap t = (r, t')"
  shows "served_so_far native proxy t'"
  using assms(2,3) served_neutral [OF contractD(16) [OF c] contractD(17) [OF c]]
  by (auto simp: tk_verify_rollback_def split: if_splits)

lemma served_apply:
  assumes c: "takeover_contract native proxy p" and s: "served_so_far native proxy t"
    and run: "tk_apply (Some (watched p)) rules t = (r, t')"
  shows "served_so_far native proxy t'"
proof -
  obtain r1 t1 where 1: "on_world (remembering (pr_start_proxy p rules)) t = (r1, t1)" by fastforce
  have s1: "served_so_far native proxy t1"
    by (rule served_neutral [OF contractD(5) [OF c] contractD(6) [OF c] s 1])
  show ?thesis
  proof (cases r1)
    case (Some e)
    then show ?thesis using run s1 1 by (simp add: tk_apply_def)
  next
    case None
    have px: "now_in proxy t1"
      using now_in_gives [OF contractD(7) [OF c]] 1 None by blast
    let ?u = "t1\<lparr>tk_started := True\<rparr>"
    have su: "served_so_far native proxy ?u" by (rule served_start [OF s1 px])
    obtain r2 t2 where 2: "on_world (remembering (pr_verify_proxy p rules)) ?u = (r2, t2)" by fastforce
    have s2: "served_so_far native proxy t2" and p2: "now_in proxy t2" and st2: "tk_started t2"
      using served_neutral [OF contractD(8) [OF c] contractD(9) [OF c] su 2]
        now_in_leaves [OF contractD(9) [OF c] 2] px on_world_fields [OF 2] by auto
    obtain r3 t3 where 3: "on_world (remembering (pr_switch_ingress p)) t2 = (r3, t3)" by fastforce
    have "served_so_far native proxy t3"
      using served_push [OF s2 3] now_in_leaves [OF contractD(10) [OF c] 3 p2] on_world_fields [OF 3] st2 by blast
    then show ?thesis
      using run None 1 2 3 s2 by (cases r2; cases r3) (auto simp: tk_apply_def)
  qed
qed

lemma served_rollback:
  assumes c: "takeover_contract native proxy p" and s: "served_so_far native proxy t"
    and run: "tk_rollback (Some (watched p)) snap t = (r, t')"
  shows "served_so_far native proxy t'"
proof (cases "is_identity (tk_snapshot t) = []")
  case True
  then show ?thesis using run s by (simp add: tk_rollback_def)
next
  case False
  obtain r1 t1 where 1: "on_world (remembering (pr_restore_native p (tk_snapshot t))) t = (r1, t1)" by fastforce
  have s1: "served_so_far native proxy t1"
    by (rule served_neutral [OF contractD(13) [OF c] contractD(14) [OF c] s 1])
  show ?thesis
  proof (cases r1)
    case (Some e)
    then show ?thesis using run s1 1 False by (simp add: tk_rollback_def)
  next
    case None
    let ?u = "t1\<lparr>tk_switched := False\<rparr>"
    have n1: "now_in native ?u"
      using now_in_gives [OF contractD(15) [OF c]] 1 None by simp
    have su: "served_so_far native proxy ?u" using s1 by simp
    obtain r2 t2 where 2: "on_world (remembering (pr_stop_proxy p)) ?u = (r2, t2)" by fastforce
    have n2: "now_in native t2" by (rule now_in_leaves [OF contractD(18) [OF c] 2 n1])
    have s2: "served_so_far native proxy t2"
      using served_push [OF su 2] n2 by blast
    have "served_so_far native proxy (t2\<lparr>tk_started := False\<rparr>)"
      by (rule served_stop [OF s2 n2])
    then show ?thesis
      using run None 1 2 su s2 False by (cases r2) (auto simp: tk_rollback_def Let_def split: if_splits)
  qed
qed

lemma takeover_keeps_served:
  assumes c: "takeover_contract native proxy p"
  shows "driver_keeps (served_so_far native proxy) (takeover_driver (Some (watched p)) v)"
  unfolding driver_keeps_def takeover_driver_def
  by (auto intro: served_precheck [OF c, OF _ surjective_pairing] served_snapshot [OF c, OF _ surjective_pairing]
      served_validate [OF c, OF _ surjective_pairing] served_apply [OF c, OF _ surjective_pairing]
      served_verify [OF c, OF _ surjective_pairing] served_rollback [OF c, OF _ surjective_pairing]
      served_verify_rollback [OF c, OF _ surjective_pairing])


text \<open>
  A small world for the examples: who owns the clients' port 53, whether the proxy runs, and
  whether the switch is going to fail.
\<close>

record toy_world =
  tw_native :: bool
  tw_proxy :: bool
  tw_switch_fails :: bool

definition toy_primitive :: "toy_world primitive" where
  "toy_primitive =
     \<lparr>pr_precheck_ingress = (\<lambda>rules w. (None, w)),
      pr_snapshot_ingress = (\<lambda>w. (Inr \<lparr>is_identity = ''id'', is_native_owner = ''ndnproxy'',
        is_native_port53 = True, is_routerforge_addr = ''192.168.1.1:5353''\<rparr>, w)),
      pr_start_proxy = (\<lambda>rules w. (None, w\<lparr>tw_proxy := True\<rparr>)),
      pr_verify_proxy = (\<lambda>rules w. (None, w)),
      pr_switch_ingress = (\<lambda>w. (if tw_switch_fails w then Some ErrIO else None, w\<lparr>tw_native := False\<rparr>)),
      pr_verify_ingress = (\<lambda>w. (if tw_native w then Some ErrIO else None, w)),
      pr_restore_native = (\<lambda>snap w. (None, w\<lparr>tw_native := True\<rparr>)),
      pr_stop_proxy = (\<lambda>w. (None, w\<lparr>tw_proxy := False\<rparr>)),
      pr_verify_native = (\<lambda>snap w. (if tw_native w then None else Some ErrIO, w))\<rparr>"

lemma toy_contract: "takeover_contract tw_native tw_proxy toy_primitive"
  by (auto simp: takeover_contract_def toy_primitive_def leaves_def gives_def)

definition toy_run :: "bool \<Rightarrow> toy_world list takeover activation" where
  "toy_run fails = run_activation (\<lambda>k. int k) ''tx'' []
     (Some (takeover_driver (Some (watched toy_primitive)) (Some (\<lambda>rules. None))))
     (new_takeover [\<lparr>tw_native = True, tw_proxy = False, tw_switch_fails = fails\<rparr>])"


theorem activation_calls_witness:
  "admissible Committed (snd (snd (settled (run_activation (\<lambda>k. int k) ''tx'' []
     (Some (traced (takeover_driver (Some toy_primitive) (Some (\<lambda>rules. None)))))
     (new_takeover \<lparr>tw_native = True, tw_proxy = False, tw_switch_fails = False\<rparr>, [])))))"
  (is "admissible _ (snd (snd ?r))")
proof -
  have "fst ?r = Committed" by code_simp
  then have "?r = (Committed, (fst (snd ?r), snd (snd ?r)))" by (metis prod.collapse)
  then show ?thesis by (rule activation_calls_in_order)
qed

subsection \<open>The runtime adapter\<close>

record 's runtime_primitive =
  rp_snapshot :: "'s \<Rightarrow> (go_error + runtime_snapshot) \<times> 's"
  rp_apply :: "policy_rule list \<Rightarrow> 's step"
  rp_verify :: "policy_rule list \<Rightarrow> 's step"
  rp_restore :: "runtime_snapshot \<Rightarrow> 's step"
  rp_verify_snapshot :: "runtime_snapshot \<Rightarrow> 's step"
  rp_health :: "'s step"

definition no_runtime :: "go_error" where
  "no_runtime = Msg ''policy runtime primitive is unavailable''"

definition ad_precheck ::
    "'s runtime_primitive option \<Rightarrow> (policy_rule list \<Rightarrow> go_error option) option \<Rightarrow> policy_rule list \<Rightarrow> 's step" where
  "ad_precheck prim validate rules s =
     (case prim of
        None \<Rightarrow> (Some no_runtime, s)
      | Some p \<Rightarrow>
          (case validate of
             None \<Rightarrow> (Some (Msg ''policy rule validator is unavailable''), s)
           | Some v \<Rightarrow> (v rules, s)))"

definition ad_snapshot :: "'s runtime_primitive option \<Rightarrow> 's \<Rightarrow> (go_error + runtime_snapshot) \<times> 's" where
  "ad_snapshot prim s = (case prim of None \<Rightarrow> (Inl no_runtime, s) | Some p \<Rightarrow> rp_snapshot p s)"

definition then_health :: "'s runtime_primitive \<Rightarrow> go_error option \<times> 's \<Rightarrow> go_error option \<times> 's" where
  "then_health p r = (case r of (Some e, s) \<Rightarrow> (Some e, s) | (None, s) \<Rightarrow> rp_health p s)"

definition ad_validate ::
    "'s runtime_primitive \<Rightarrow> (policy_rule list \<Rightarrow> go_error option) option \<Rightarrow> policy_rule list \<Rightarrow> 's step" where
  "ad_validate p validate rules s = then_health p (ad_precheck (Some p) validate rules s)"

definition ad_verify :: "'s runtime_primitive \<Rightarrow> policy_rule list \<Rightarrow> 's step" where
  "ad_verify p rules s = then_health p (rp_verify p rules s)"

definition ad_verify_rollback :: "'s runtime_primitive \<Rightarrow> runtime_snapshot \<Rightarrow> 's step" where
  "ad_verify_rollback p snap s = then_health p (rp_verify_snapshot p snap s)"

text \<open>The driver over a primitive that is there; without one every activation stops at its precheck.\<close>

definition adapter_driver ::
    "'s runtime_primitive \<Rightarrow> (policy_rule list \<Rightarrow> go_error option) option \<Rightarrow> 's driver" where
  "adapter_driver p validate =
     \<lparr>dr_precheck = ad_precheck (Some p) validate,
      dr_snapshot = ad_snapshot (Some p),
      dr_validate = ad_validate p validate,
      dr_apply = rp_apply p,
      dr_verify = ad_verify p,
      dr_rollback = rp_restore p,
      dr_verify_rollback = ad_verify_rollback p\<rparr>"

definition found_healthy :: "'s runtime_primitive \<Rightarrow> 's \<Rightarrow> bool" where
  "found_healthy p s \<longleftrightarrow> (\<exists>s0. rp_health p s0 = (None, s))"

lemma then_health_ok: "then_health p r = (None, s) \<Longrightarrow> found_healthy p s"
  by (auto simp: then_health_def found_healthy_def split: prod.splits option.splits)

interpretation adapter: activation_driver "adapter_driver p v" "\<lambda>s. True" "found_healthy p" for p v
  by unfold_locales (auto simp: adapter_driver_def ad_verify_def dest: then_health_ok)

lemma adapter_commits_healthy:
  "settled (run_activation clk i rules (Some (adapter_driver p v)) s) = (Committed, s') \<Longrightarrow> found_healthy p s'"
  using adapter.activation_ok [where p = p and v = v and s = s and clk = clk and i = i and rules = rules]
  by (auto simp: outcome_ok_def)

end
