(* ===== verification/Dns_Wire.thy ===== *)
theory Dns_Wire
  imports Go_Net
begin

text \<open>
  \<^verbatim>\<open>modules/dns/runtime/dns.go\<close>: the DNS messages the module reads from the wire and the queries it
  writes. A message is its list of bytes. Reading a byte that is not there is a panic of the Go
  program; it is a value here, so that its absence is a theorem.
\<close>

datatype 'a run = Panic | Return 'a

primrec run_bind :: "'a run \<Rightarrow> ('a \<Rightarrow> 'b run) \<Rightarrow> 'b run" where
  "run_bind Panic f = Panic"
| "run_bind (Return x) f = f x"

definition byte_at :: "byte list \<Rightarrow> nat \<Rightarrow> byte run" where
  "byte_at msg i = (if i < length msg then Return (msg ! i) else Panic)"

lemma byte_at_in [simp]: "i < length msg \<Longrightarrow> byte_at msg i = Return (msg ! i)"
  by (simp add: byte_at_def)

definition be16 :: "byte \<Rightarrow> byte \<Rightarrow> 16 word" where
  "be16 hi lo = push_bit 8 (ucast hi) OR ucast lo"

definition uint16_at :: "byte list \<Rightarrow> nat \<Rightarrow> 16 word run" where
  "uint16_at msg i = run_bind (byte_at msg i) (\<lambda>hi. run_bind (byte_at msg (i + 1)) (\<lambda>lo. Return (be16 hi lo)))"

lemma uint16_at_in [simp]: "i + 1 < length msg \<Longrightarrow> uint16_at msg i = Return (be16 (msg ! i) (msg ! (i + 1)))"
  by (simp add: uint16_at_def)

definition hi_byte :: "16 word \<Rightarrow> byte" where
  "hi_byte w = ucast (drop_bit 8 w)"

definition lo_byte :: "16 word \<Rightarrow> byte" where
  "lo_byte w = ucast w"

definition put16 :: "16 word \<Rightarrow> nat \<Rightarrow> byte list \<Rightarrow> byte list" where
  "put16 w i b = b[i := hi_byte w, i + 1 := lo_byte w]"

lemma be16_bytes [simp]: "be16 (hi_byte w) (lo_byte w) = w"
  unfolding be16_def hi_byte_def lo_byte_def
  by (rule bit_eqI) (auto simp: bit_simps)

lemma hi_be16 [simp]: "hi_byte (be16 h l) = h"
  unfolding be16_def hi_byte_def
  by (rule bit_eqI) (auto simp: bit_simps dest: bit_imp_le_length)

lemma lo_be16 [simp]: "lo_byte (be16 h l) = l"
  unfolding be16_def lo_byte_def
  by (rule bit_eqI) (auto simp: bit_simps)

text \<open>\<^verbatim>\<open>string(bytes)\<close> and \<^verbatim>\<open>[]byte(s)\<close>.\<close>

definition bytes_string :: "byte list \<Rightarrow> string" where
  "bytes_string bs = map (\<lambda>b. char_of (unat b)) bs"

definition string_bytes :: "string \<Rightarrow> byte list" where
  "string_bytes s = map (\<lambda>c. of_nat (byte_of c)) s"

lemma bytes_string_bytes [simp]: "bytes_string (string_bytes s) = s"
  by (simp add: bytes_string_def string_bytes_def byte_of_def comp_def unat_of_nat)

lemma length_string_bytes [simp]: "length (string_bytes s) = length s"
  by (simp add: string_bytes_def)

record dns_message =
  dm_id :: "16 word"
  dm_qr :: bool
  dm_rcode :: byte
  dm_qname :: string
  dm_qtype :: "16 word"
  dm_qdcount :: "16 word"

definition no_message :: "dns_message" where
  "no_message = \<lparr>dm_id = 0, dm_qr = False, dm_rcode = 0, dm_qname = [], dm_qtype = 0, dm_qdcount = 0\<rparr>"

subsection \<open>Names\<close>

text \<open>
  The loop of \<^verbatim>\<open>parseDNSName\<close>. \<open>nx\<close> is \<^verbatim>\<open>nextOff\<close> once it is set; \<^verbatim>\<open>jumped\<close> is then true. The loop
  counts its rounds in \<open>seen\<close> and gives up after 129 of them, so a compression pointer that leads
  into a cycle ends.
\<close>

definition is_pointer :: "byte \<Rightarrow> bool" where
  "is_pointer b = (b AND 0xc0 = 0xc0)"

function name_loop ::
    "byte list \<Rightarrow> nat \<Rightarrow> nat \<Rightarrow> string list \<Rightarrow> nat option \<Rightarrow> (string \<times> nat) option run" where
  "name_loop msg off seen labels nx =
     (if off \<ge> length msg \<or> seen > 128 then Return None
      else run_bind (byte_at msg off) (\<lambda>l.
        if l = 0 then
          Return (Some (join ''.'' labels, (case nx of None \<Rightarrow> off + 1 | Some n \<Rightarrow> n)))
        else if is_pointer l then
          (if off + 1 \<ge> length msg then Return None
           else run_bind (uint16_at msg off) (\<lambda>w.
             let ptr = unat (w AND 0x3fff) in
             if ptr \<ge> length msg then Return None
             else name_loop msg ptr (seen + 1) labels (Some (case nx of None \<Rightarrow> off + 2 | Some n \<Rightarrow> n))))
        else if l > 63 \<or> off + 1 + unat l > length msg then Return None
        else name_loop msg (off + 1 + unat l) (seen + 1)
               (labels @ [bytes_string (take (unat l) (drop (off + 1) msg))]) nx))"
  by pat_completeness auto
termination by (relation "measure (\<lambda>(msg, off, seen, labels, nx). 129 - seen)") auto

declare name_loop.simps [simp del]

definition parse_dns_name :: "byte list \<Rightarrow> nat \<Rightarrow> (string \<times> nat) option run" where
  "parse_dns_name msg off = name_loop msg off 0 [] None"

subsection \<open>Messages\<close>

definition parse_dns_message :: "byte list \<Rightarrow> (dns_message \<times> bool) run" where
  "parse_dns_message msg =
     (if length msg < 12 then Return (no_message, False)
      else run_bind (uint16_at msg 0) (\<lambda>ident. run_bind (uint16_at msg 2) (\<lambda>flags. run_bind (uint16_at msg 4) (\<lambda>qd.
        let d = no_message\<lparr>dm_id := ident, dm_qr := (flags AND 0x8000 \<noteq> 0), dm_rcode := ucast (flags AND 0x000f),
                           dm_qdcount := qd\<rparr>
        in if qd = 0 then Return (d, True)
           else run_bind (parse_dns_name msg 12) (\<lambda>r.
             case r of
               None \<Rightarrow> Return (no_message, False)
             | Some (name, off) \<Rightarrow>
                 if off + 4 > length msg then Return (no_message, False)
                 else run_bind (uint16_at msg off) (\<lambda>qt.
                   Return (d\<lparr>dm_qname := trim_suffix (to_lower name) ''.'', dm_qtype := qt\<rparr>, True)))))))"

definition qtype_name :: "16 word \<Rightarrow> string" where
  "qtype_name q =
     (if q = 1 then ''A'' else if q = 2 then ''NS'' else if q = 5 then ''CNAME'' else if q = 12 then ''PTR''
      else if q = 15 then ''MX'' else if q = 16 then ''TXT'' else if q = 28 then ''AAAA'' else if q = 33 then ''SRV''
      else if q = 64 then ''SVCB'' else if q = 65 then ''HTTPS'' else ''TYPE'' @ itoa (uint q))"

definition rcode_name :: "byte \<Rightarrow> string" where
  "rcode_name r =
     (if r = 0 then ''NOERROR'' else if r = 1 then ''FORMERR'' else if r = 2 then ''SERVFAIL'' else if r = 3 then ''NXDOMAIN''
      else if r = 4 then ''NOTIMP'' else if r = 5 then ''REFUSED'' else ''RCODE'' @ itoa (uint r))"

definition label_bytes :: "string \<Rightarrow> byte list" where
  "label_bytes l = (if l = [] \<or> length l > 63 then [] else of_nat (length l) # string_bytes l)"

definition build_dns_query :: "16 word \<Rightarrow> string \<Rightarrow> 16 word \<Rightarrow> byte list" where
  "build_dns_query ident name qtype =
     (let name = trim_suffix name ''.'';
          b = put16 1 4 (put16 0x0100 2 (put16 ident 0 (replicate 12 0)));
          b = b @ concat (map label_bytes (split_char (CHR ''.'') name));
          b = b @ [0, 0, 1, 0, 1]
      in if qtype \<noteq> 1 then put16 qtype (length b - 4) b else b)"

subsection \<open>What a name is\<close>

text \<open>
  The names of RFC 1035 that are written in \<open>msg\<close> at \<open>off\<close>: their labels, the number of bytes they
  take up there, and the number \<open>n\<close> of items, labels and pointers and the root, one has to read.
\<close>

inductive name_at :: "byte list \<Rightarrow> nat \<Rightarrow> nat \<Rightarrow> string list \<Rightarrow> nat \<Rightarrow> bool" for msg where
  root: "off < length msg \<Longrightarrow> msg ! off = 0 \<Longrightarrow> name_at msg off 1 [] 1"
| label: "off < length msg \<Longrightarrow> l = msg ! off \<Longrightarrow> l \<noteq> 0 \<Longrightarrow> l \<le> 63 \<Longrightarrow> off + 1 + unat l \<le> length msg \<Longrightarrow>
    name_at msg (off + 1 + unat l) n ls w \<Longrightarrow>
    name_at msg off (Suc n) (bytes_string (take (unat l) (drop (off + 1) msg)) # ls) (1 + unat l + w)"
| pointer: "off + 1 < length msg \<Longrightarrow> is_pointer (msg ! off) \<Longrightarrow>
    ptr = unat (be16 (msg ! off) (msg ! (off + 1)) AND 0x3fff) \<Longrightarrow> ptr < length msg \<Longrightarrow>
    name_at msg ptr n ls w \<Longrightarrow> name_at msg off (Suc n) ls 2"

inductive_cases name_atE: "name_at msg off n ls w"

lemma small_not_pointer: "l \<le> 63 \<Longrightarrow> \<not> is_pointer l"
proof
  assume "l \<le> 63" and "is_pointer l"
  then have "bit (l AND 0xc0) 6"
    by (simp add: is_pointer_def)
  then have "bit (unat l) 6"
    by (simp add: bit_simps)
  then have "odd (unat l div 64)"
    by (simp add: bit_iff_odd)
  then have "64 \<le> unat l"
    by (metis div_less even_zero not_le)
  then show False
    using \<open>l \<le> 63\<close> by (simp add: word_le_nat_alt)
qed

lemma pointer_not_zero: "is_pointer l \<Longrightarrow> l \<noteq> 0"
  using small_not_pointer [of 0] by auto

lemma not_small: "\<not> 63 < unat l \<longleftrightarrow> l \<le> (63 :: byte)"
  by (simp add: word_le_nat_alt not_less)

text \<open>One round of the loop for each rule.\<close>

lemma loop_end:
  "off < length msg \<Longrightarrow> seen \<le> 128 \<Longrightarrow> msg ! off = 0 \<Longrightarrow>
   name_loop msg off seen labels nx = Return (Some (join ''.'' labels, case nx of None \<Rightarrow> off + 1 | Some n \<Rightarrow> n))"
  by (subst name_loop.simps) simp

lemma loop_label:
  "off < length msg \<Longrightarrow> seen \<le> 128 \<Longrightarrow> msg ! off \<noteq> 0 \<Longrightarrow> msg ! off \<le> 63 \<Longrightarrow> off + 1 + unat (msg ! off) \<le> length msg \<Longrightarrow>
   name_loop msg off seen labels nx =
     name_loop msg (off + 1 + unat (msg ! off)) (seen + 1)
       (labels @ [bytes_string (take (unat (msg ! off)) (drop (off + 1) msg))]) nx"
  by (subst name_loop.simps) (auto simp: small_not_pointer not_less [symmetric])

lemma loop_pointer:
  "off + 1 < length msg \<Longrightarrow> seen \<le> 128 \<Longrightarrow> is_pointer (msg ! off) \<Longrightarrow>
   unat (be16 (msg ! off) (msg ! (off + 1)) AND 0x3fff) < length msg \<Longrightarrow>
   name_loop msg off seen labels nx =
     name_loop msg (unat (be16 (msg ! off) (msg ! (off + 1)) AND 0x3fff)) (seen + 1) labels
       (Some (case nx of None \<Rightarrow> off + 2 | Some n \<Rightarrow> n))"
  by (subst name_loop.simps) (simp add: pointer_not_zero Let_def)

lemma name_loop_complete:
  "name_at msg off n ls w \<Longrightarrow> seen + n \<le> 129 \<Longrightarrow>
   name_loop msg off seen labels nx =
     Return (Some (join ''.'' (labels @ ls), case nx of None \<Rightarrow> off + w | Some e \<Rightarrow> e))"
proof (induction arbitrary: seen labels nx rule: name_at.induct)
  case (root off)
  then show ?case by (simp add: loop_end)
next
  case (label off l n ls w)
  have "seen \<le> 128"
    using label.prems by simp
  then show ?case
    using label.hyps label.IH [of "Suc seen"] label.prems by (simp add: loop_label add_ac split: option.splits)
next
  case (pointer off ptr n ls w)
  have "seen \<le> 128"
    using pointer.prems by simp
  then show ?case
    using pointer.hyps pointer.IH [of "Suc seen"] pointer.prems by (simp add: loop_pointer split: option.splits)
qed

lemma name_loop_sound:
  "name_loop msg off seen labels nx = Return None \<or>
   (\<exists>n ls w. name_at msg off n ls w \<and> seen + n \<le> 129 \<and>
      name_loop msg off seen labels nx =
        Return (Some (join ''.'' (labels @ ls), case nx of None \<Rightarrow> off + w | Some e \<Rightarrow> e)))"
proof (induction msg off seen labels nx rule: name_loop.induct)
  case (1 msg off seen labels nx)
  show ?case
  proof (cases "off \<ge> length msg \<or> seen > 128")
    case True
    then show ?thesis by (subst name_loop.simps) simp
  next
    case False
    then have b: "off < length msg" "seen \<le> 128" by auto
    let ?l = "msg ! off"
    have rd: "byte_at msg off = Return ?l" using b by simp
    consider (zero) "?l = 0" | (ptr) "?l \<noteq> 0" "is_pointer ?l" | (lab) "?l \<noteq> 0" "\<not> is_pointer ?l"
      by blast
    then show ?thesis
    proof cases
      case zero
      then show ?thesis
        using b name_at.root [of off msg] by (auto simp: loop_end intro!: exI [of _ 1])
    next
      case ptr
      let ?p = "unat (be16 ?l (msg ! (off + 1)) AND 0x3fff)"
      show ?thesis
      proof (cases "off + 1 < length msg \<and> ?p < length msg")
        case True
        then have u: "uint16_at msg off = Return (be16 ?l (msg ! (off + 1)))" by simp
        have step: "name_loop msg off seen labels nx =
            name_loop msg ?p (seen + 1) labels (Some (case nx of None \<Rightarrow> off + 2 | Some n \<Rightarrow> n))"
          using True b ptr by (intro loop_pointer) auto
        from "1.IH"(1) [OF _ ptr(1) ptr(2) _ refl, of "be16 ?l (msg ! (off + 1))"]
        have "name_loop msg ?p (seen + 1) labels (Some (case nx of None \<Rightarrow> off + 2 | Some n \<Rightarrow> n)) = Return None \<or>
          (\<exists>n ls w. name_at msg ?p n ls w \<and> seen + 1 + n \<le> 129 \<and>
            name_loop msg ?p (seen + 1) labels (Some (case nx of None \<Rightarrow> off + 2 | Some n \<Rightarrow> n)) =
              Return (Some (join ''.'' (labels @ ls), case nx of None \<Rightarrow> off + 2 | Some e \<Rightarrow> e)))"
          using True False by simp
        then show ?thesis
        proof (elim disjE exE conjE)
          fix n ls w
          assume "name_at msg ?p n ls w" and "seen + 1 + n \<le> 129"
            and r: "name_loop msg ?p (seen + 1) labels (Some (case nx of None \<Rightarrow> off + 2 | Some n \<Rightarrow> n)) =
              Return (Some (join ''.'' (labels @ ls), case nx of None \<Rightarrow> off + 2 | Some e \<Rightarrow> e))"
          then have "name_at msg off (Suc n) ls 2" "seen + Suc n \<le> 129"
            using True ptr by (auto intro: name_at.pointer)
          then show ?thesis using step r by metis
        qed (simp add: step)
      next
        case outside: False
        then show ?thesis
          using b ptr by (subst name_loop.simps) (auto simp: Let_def)
      qed
    next
      case lab
      show ?thesis
      proof (cases "?l \<le> 63 \<and> off + 1 + unat ?l \<le> length msg")
        case True
        let ?lab = "bytes_string (take (unat ?l) (drop (off + 1) msg))"
        have step: "name_loop msg off seen labels nx =
            name_loop msg (off + 1 + unat ?l) (seen + 1) (labels @ [?lab]) nx"
          using True b lab by (intro loop_label) auto
        have "name_loop msg (off + 1 + unat ?l) (seen + 1) (labels @ [?lab]) nx = Return None \<or>
          (\<exists>n ls w. name_at msg (off + 1 + unat ?l) n ls w \<and> seen + 1 + n \<le> 129 \<and>
            name_loop msg (off + 1 + unat ?l) (seen + 1) (labels @ [?lab]) nx =
              Return (Some (join ''.'' ((labels @ [?lab]) @ ls),
                case nx of None \<Rightarrow> off + 1 + unat ?l + w | Some e \<Rightarrow> e)))"
          using "1.IH"(2) [OF _ lab(1) lab(2)] True False by (simp add: not_less)
        then show ?thesis
        proof (elim disjE exE conjE)
          fix n ls w
          assume "name_at msg (off + 1 + unat ?l) n ls w" and "seen + 1 + n \<le> 129"
            and r: "name_loop msg (off + 1 + unat ?l) (seen + 1) (labels @ [?lab]) nx =
              Return (Some (join ''.'' ((labels @ [?lab]) @ ls),
                case nx of None \<Rightarrow> off + 1 + unat ?l + w | Some e \<Rightarrow> e))"
          then have "name_at msg off (Suc n) (?lab # ls) (1 + unat ?l + w)" "seen + Suc n \<le> 129"
            using name_at.label [OF b(1) refl lab(1)] True by auto
          moreover have "name_loop msg off seen labels nx =
              Return (Some (join ''.'' (labels @ ?lab # ls), case nx of None \<Rightarrow> off + (1 + unat ?l + w) | Some e \<Rightarrow> e))"
            using step r by (simp add: add_ac split: option.splits)
          ultimately show ?thesis by metis
        qed (simp add: step)
      next
        case outside: False
        then show ?thesis
          using b lab by (subst name_loop.simps) (auto simp: not_less [symmetric])
      qed
    qed
  qed
qed

lemma name_at_end: "name_at msg off n ls w \<Longrightarrow> off + w \<le> length msg \<and> 0 < w"
  by (induction rule: name_at.induct) auto

lemma parse_dns_name_total: "\<exists>r. parse_dns_name msg off = Return r"
  using name_loop_sound [of msg off 0 "[]" None] by (auto simp: parse_dns_name_def)

lemma parse_dns_name_iff:
  "parse_dns_name msg off = Return (Some (name, e)) \<longleftrightarrow>
   (\<exists>n ls w. name_at msg off n ls w \<and> n \<le> 129 \<and> name = join ''.'' ls \<and> e = off + w)"
proof
  assume "parse_dns_name msg off = Return (Some (name, e))"
  then show "\<exists>n ls w. name_at msg off n ls w \<and> n \<le> 129 \<and> name = join ''.'' ls \<and> e = off + w"
    using name_loop_sound [of msg off 0 "[]" None] by (auto simp: parse_dns_name_def)
next
  assume "\<exists>n ls w. name_at msg off n ls w \<and> n \<le> 129 \<and> name = join ''.'' ls \<and> e = off + w"
  then show "parse_dns_name msg off = Return (Some (name, e))"
    using name_loop_complete [of msg off _ _ _ 0 "[]" None] by (auto simp: parse_dns_name_def)
qed

text \<open>C35: the name parser, whatever bytes it is given, never reads outside the message and always
  ends, compression pointers that form a cycle included. It accepts exactly the names of the wire
  format that can be read in at most 129 items (labels, pointers and the root), and returns their
  labels joined by dots and the offset behind the name as it is written at its place.\<close>

theorem dns_name_parser_exact:
  "\<exists>r. parse_dns_name msg off = Return r \<and>
     (\<forall>name e. r = Some (name, e) \<longleftrightarrow>
        (\<exists>n ls w. name_at msg off n ls w \<and> n \<le> 129 \<and> name = join ''.'' ls \<and> e = off + w \<and> e \<le> length msg))"
  using parse_dns_name_total [of msg off] parse_dns_name_iff [of msg off] name_at_end by fastforce

text \<open>A message of three bytes whose name is a pointer to itself is refused after 129 rounds.\<close>

lemma pointer_cycle_refused: "parse_dns_name [0xc0, 0] 0 = Return None"
  by code_simp

subsection \<open>Queries\<close>

lemma dns_message_parser_total: "\<exists>d ok. parse_dns_message msg = Return (d, ok)"
proof (cases "length msg < 12")
  case True
  then have "parse_dns_message msg = Return (no_message, False)" by (simp add: parse_dns_message_def)
  then show ?thesis by blast
next
  case False
  then have h: "uint16_at msg 0 = Return (be16 (msg ! 0) (msg ! 1))"
    "uint16_at msg 2 = Return (be16 (msg ! 2) (msg ! 3))" "uint16_at msg 4 = Return (be16 (msg ! 4) (msg ! 5))"
    by (simp_all add: numeral_eq_Suc)
  obtain r where r: "parse_dns_name msg 12 = Return r"
    using parse_dns_name_total by blast
  show ?thesis
  proof (cases r)
    case None
    then show ?thesis using False h r by (auto simp: parse_dns_message_def Let_def)
  next
    case (Some p)
    obtain name e where p: "p = (name, e)" by fastforce
    then show ?thesis using False h r Some by (auto simp: parse_dns_message_def Let_def)
  qed
qed

text \<open>No byte string makes the message parser panic: it returns for every input.\<close>

lemma dns_message_parser_never_panics: "\<exists>d ok. parse_dns_message msg = Return (d, ok)"
  by (rule dns_message_parser_total)

definition wire_labels :: "string list \<Rightarrow> byte list" where
  "wire_labels ls = concat (map (\<lambda>l. of_nat (length l) # string_bytes l) ls)"

definition label_ok :: "string \<Rightarrow> bool" where
  "label_ok l \<longleftrightarrow> l \<noteq> [] \<and> length l \<le> 63 \<and> CHR ''.'' \<notin> set l"

lemma unat_of_small: "n \<le> 63 \<Longrightarrow> unat (of_nat n :: byte) = n"
  by (simp add: unat_of_nat)

lemma name_at_wire:
  "list_all label_ok ls \<Longrightarrow>
   name_at (pre @ wire_labels ls @ 0 # post) (length pre) (Suc (length ls)) ls (length (wire_labels ls) + 1)"
proof (induction ls arbitrary: pre)
  case Nil
  then show ?case
    using name_at.root [of "length pre" "pre @ 0 # post"] by (simp add: wire_labels_def nth_append)
next
  case (Cons l ls)
  let ?msg = "pre @ wire_labels (l # ls) @ 0 # post"
  have l: "l \<noteq> []" "length l \<le> 63" using Cons.prems by (auto simp: label_ok_def)
  have n: "?msg ! length pre = of_nat (length l)" by (simp add: wire_labels_def nth_append)
  have u: "unat (?msg ! length pre) = length l" using l by (simp add: n unat_of_small)
  have msg: "?msg = (pre @ of_nat (length l) # string_bytes l) @ wire_labels ls @ 0 # post"
    by (simp add: wire_labels_def)
  have "name_at ?msg (length pre + 1 + length l) (Suc (length ls)) ls (length (wire_labels ls) + 1)"
    using Cons.IH [of "pre @ of_nat (length l) # string_bytes l"] Cons.prems unfolding msg by simp
  moreover have "?msg ! length pre \<noteq> 0" "?msg ! length pre \<le> 63"
    using l u by (auto simp: word_le_nat_alt)
  moreover have "bytes_string (take (unat (?msg ! length pre)) (drop (length pre + 1) ?msg)) = l"
    unfolding u by (simp add: wire_labels_def)
  ultimately show ?case
    using name_at.label [of "length pre" ?msg "?msg ! length pre" "Suc (length ls)" ls "length (wire_labels ls) + 1"]
    unfolding u by (simp add: wire_labels_def add_ac)
qed

lemma label_bytes_ok: "list_all label_ok ls \<Longrightarrow> concat (map label_bytes ls) = wire_labels ls"
  by (induction ls) (auto simp: wire_labels_def label_bytes_def label_ok_def)

definition dns_header :: "16 word \<Rightarrow> byte list" where
  "dns_header ident = [hi_byte ident, lo_byte ident, 1, 0, 0, 1, 0, 0, 0, 0, 0, 0]"

lemma build_query_bytes:
  assumes "list_all label_ok (split_char (CHR ''.'') (trim_suffix name ''.''))"
  shows "build_dns_query ident name qt =
    dns_header ident @ wire_labels (split_char (CHR ''.'') (trim_suffix name ''.'')) @ [0, hi_byte qt, lo_byte qt, 0, 1]"
proof -
  let ?w = "wire_labels (split_char (CHR ''.'') (trim_suffix name ''.''))"
  have z: "replicate 12 (0 :: byte) = [0, 0, 0, 0, 0, 0, 0, 0, 0, 0, 0, 0]"
    by code_simp
  have c: "hi_byte 0x0100 = 1" "lo_byte 0x0100 = 0" "hi_byte 1 = 0" "lo_byte 1 = 1"
    by code_simp+
  have h: "put16 1 4 (put16 0x0100 2 (put16 ident 0 (replicate 12 0))) = dns_header ident"
    unfolding z put16_def c dns_header_def by (simp add: eval_nat_numeral)
  have one: "hi_byte 1 = 0" "lo_byte 1 = 1"
    by (simp_all add: hi_byte_def lo_byte_def)
  have p: "put16 qt (length (b @ [0, 0, 1, 0, 1]) - 4) (b @ [0, 0, 1, 0, 1]) = b @ [0, hi_byte qt, lo_byte qt, 0, 1]"
    for b :: "byte list"
    by (simp add: put16_def list_update_append)
  have "build_dns_query ident name qt =
     (if qt \<noteq> 1 then put16 qt (length ((dns_header ident @ ?w) @ [0, 0, 1, 0, 1]) - 4) ((dns_header ident @ ?w) @ [0, 0, 1, 0, 1])
      else (dns_header ident @ ?w) @ [0, 0, 1, 0, 1])"
    by (simp only: build_dns_query_def Let_def h label_bytes_ok [OF assms])
  then show ?thesis
    unfolding p using one by auto
qed

lemma last_join: "xs \<noteq> [] \<Longrightarrow> last xs \<noteq> [] \<Longrightarrow> join sep xs \<noteq> [] \<and> last (join sep xs) = last (last xs)"
  by (induction sep xs rule: join.induct) (auto split: if_splits)

lemma trim_suffix_dot: "s \<noteq> [] \<Longrightarrow> last s \<noteq> CHR ''.'' \<Longrightarrow> trim_suffix s ''.'' = s \<and> trim_suffix (s @ ''.'') ''.'' = s"
  by (auto simp: trim_suffix_def has_suffix_iff)

lemma lower_char_dot: "lower_char c = CHR ''.'' \<longleftrightarrow> c = CHR ''.''"
proof
  assume l: "lower_char c = CHR ''.''"
  then have "byte_of (lower_char c) = 46" by (simp add: byte_of_def)
  then have "\<not> is_upper c" by (auto simp: byte_of_lower is_upper_def split: if_splits)
  then show "c = CHR ''.''" using l by (simp add: lower_char_def)
qed (simp add: lower_char_def is_upper_def byte_of_def)

lemma labels_name:
  assumes "ls \<noteq> []" and "list_all label_ok ls"
  shows "join ''.'' ls \<noteq> []" and "last (join ''.'' ls) \<noteq> CHR ''.''" and "split_char (CHR ''.'') (join ''.'' ls) = ls"
proof -
  have l: "last ls \<noteq> []" "last (last ls) \<noteq> CHR ''.''"
    using assms last_in_set [OF assms(1)] by (auto simp: label_ok_def list_all_iff) (metis last_in_set)
  then show "join ''.'' ls \<noteq> []" "last (join ''.'' ls) \<noteq> CHR ''.''"
    using last_join [OF assms(1) l(1)] by auto
  show "split_char (CHR ''.'') (join ''.'' ls) = ls"
    using assms by (intro split_char_join) (auto simp: label_ok_def list_all_iff)
qed

lemma header_reads:
  "uint16_at (dns_header ident @ bs) 0 = Return ident" "uint16_at (dns_header ident @ bs) 2 = Return 0x0100"
  "uint16_at (dns_header ident @ bs) 4 = Return 1"
proof -
  have c: "be16 1 0 = 0x0100" "be16 0 1 = 1"
    by code_simp+
  show "uint16_at (dns_header ident @ bs) 0 = Return ident" "uint16_at (dns_header ident @ bs) 2 = Return 0x0100"
    "uint16_at (dns_header ident @ bs) 4 = Return 1"
    by (simp_all add: uint16_at_def byte_at_def dns_header_def eval_nat_numeral c)
qed

lemma uint16_at_append: "uint16_at (pre @ a # b # post) (length pre) = Return (be16 a b)"
  by (simp add: uint16_at_def byte_at_def nth_append)

lemma query_roundtrip:
  assumes "ls \<noteq> []" and ok: "list_all label_ok ls" and "length ls \<le> 128" and "dot = [] \<or> dot = ''.''"
  shows "parse_dns_message (build_dns_query ident (join ''.'' ls @ dot) qt) =
    Return (\<lparr>dm_id = ident, dm_qr = False, dm_rcode = 0, dm_qname = to_lower (join ''.'' ls), dm_qtype = qt, dm_qdcount = 1\<rparr>, True)"
proof -
  note name = labels_name [OF assms(1,2)]
  have trimmed: "trim_suffix (join ''.'' ls @ dot) ''.'' = join ''.'' ls"
    using assms(4) trim_suffix_dot [OF name(1,2)] by auto
  let ?w = "wire_labels ls"
  let ?msg = "dns_header ident @ ?w @ [0, hi_byte qt, lo_byte qt, 0, 1]"
  define e where "e = 12 + (length ?w + 1)"
  have built: "build_dns_query ident (join ''.'' ls @ dot) qt = ?msg"
    using build_query_bytes [of "join ''.'' ls @ dot" ident qt] ok by (simp add: trimmed name(3))
  have len: "length (dns_header ident) = 12" by (simp add: dns_header_def)
  have "name_at ?msg 12 (Suc (length ls)) ls (length ?w + 1)"
    using name_at_wire [OF ok, of "dns_header ident" "[hi_byte qt, lo_byte qt, 0, 1]"] by (simp add: len)
  then have parsed: "parse_dns_name ?msg 12 = Return (Some (join ''.'' ls, e))"
    using assms(3) unfolding e_def by (subst parse_dns_name_iff) fastforce
  have "?msg = (dns_header ident @ ?w @ [0]) @ hi_byte qt # lo_byte qt # [0, 1]"
    and "length (dns_header ident @ ?w @ [0]) = 12 + (length ?w + 1)"
    by (simp_all add: len)
  then have qtype: "uint16_at ?msg e = Return qt"
    unfolding e_def by (metis uint16_at_append be16_bytes)
  have fits: "\<not> length ?msg < e + 4" "\<not> length ?msg < 12"
    by (simp_all add: e_def len)
  have lower: "trim_suffix (to_lower (join ''.'' ls)) ''.'' = to_lower (join ''.'' ls)"
    using trim_suffix_dot [of "to_lower (join ''.'' ls)"] name(1,2) by (simp add: to_lower_def last_map lower_char_dot)
  have flags: "(0x0100 :: 16 word) AND 0x8000 = 0" "ucast ((0x0100 :: 16 word) AND 0x000f) = (0 :: byte)"
    by code_simp+
  show ?thesis
    unfolding built parse_dns_message_def
    using fits by (simp add: header_reads parsed qtype flags lower Let_def no_message_def del: uint16_at_in length_append)
qed

text \<open>C36: a query built for a name of up to 128 labels, each of 1 to 63 bytes without a dot, with or
  without a trailing dot, is read back as exactly that query: its identifier, its type, one question,
  no error code, and the name in lower case.\<close>

theorem dns_query_roundtrip:
  assumes "ls \<noteq> []" and "list_all label_ok ls" and "length ls \<le> 128" and "dot = [] \<or> dot = ''.''"
  shows "parse_dns_message (build_dns_query ident (join ''.'' ls @ dot) qt) =
    Return (\<lparr>dm_id = ident, dm_qr = False, dm_rcode = 0, dm_qname = to_lower (join ''.'' ls), dm_qtype = qt, dm_qdcount = 1\<rparr>, True)"
  using assms by (rule query_roundtrip)

theorem dns_query_witness:
  "parse_dns_message (build_dns_query 0x7b00 ''Example.com.'' 28) =
    Return (\<lparr>dm_id = 0x7b00, dm_qr = False, dm_rcode = 0, dm_qname = ''example.com'', dm_qtype = 28, dm_qdcount = 1\<rparr>, True)"
proof -
  have "list_all label_ok [''Example'', ''com'']" by code_simp
  moreover have "to_lower (join ''.'' [''Example'', ''com'']) = ''example.com''" by code_simp
  ultimately show ?thesis
    using dns_query_roundtrip [where ls = "[''Example'', ''com'']" and dot = "''.''" and ident = "0x7b00" and qt = 28] by simp
qed

end
