(* ===== verification/Dns_Shadow.thy ===== *)
theory Dns_Shadow
  imports Dns_Policy Dns_Wire
begin

text \<open>
  \<^verbatim>\<open>modules/dns/runtime/dns_policy_shadow.go\<close>, \<^verbatim>\<open>dns_policy_shadow_linux.go\<close>,
  \<^verbatim>\<open>dns_policy_shadow_persisted.go\<close> and \<^verbatim>\<open>dns_policy_egress*.go\<close>: the policy forwarder. Its
  configuration, the plan of a query, the egress target with its routing mark, the answer to a
  query that could not be forwarded, the bookkeeping of the server and the life of one request. What
  the network returns for a query sent through a socket is an argument.
\<close>

subsection \<open>Egress\<close>

record policy_route =
  rt_name :: string
  rt_description :: string
  rt_mark :: "32 word"
  rt_table :: int
  rt_default :: bool

record egress_target =
  eg_policy :: string
  eg_mark :: "32 word"
  eg_table :: int
  eg_default :: bool
  eg_system :: bool

definition resolve_egress :: "string \<Rightarrow> (string \<rightharpoonup> policy_route) \<Rightarrow> go_error + egress_target" where
  "resolve_egress policy routes =
     (let policy = trim_space policy in
      if policy = [] then Inl (Msg ''empty DNS policy'')
      else if policy = ''System''
      then Inr \<lparr>eg_policy = ''System'', eg_mark = 0, eg_table = 0, eg_default = False, eg_system = True\<rparr>
      else case routes policy of
             None \<Rightarrow> Inl (Msg (''DNS policy '' @ quoted policy @ '' is unavailable''))
           | Some r \<Rightarrow>
               if rt_mark r = 0 then Inl (Msg (''DNS policy '' @ quoted policy @ '' has no routing mark''))
               else if rt_table r \<le> 0
               then Inl (Msg (''DNS policy '' @ quoted policy @ '' has invalid routing table '' @ itoa (rt_table r)))
               else Inr \<lparr>eg_policy = policy, eg_mark = rt_mark r, eg_table = rt_table r,
                         eg_default = rt_default r, eg_system = False\<rparr>)"

text \<open>A dialer is the mark its control function sets on a socket before it connects, if any.\<close>

definition marked_dialer :: "egress_target \<Rightarrow> go_error + 32 word option" where
  "marked_dialer t =
     (if eg_system t then Inr None
      else if eg_mark t = 0 then Inl (Msg (''DNS policy '' @ quoted (eg_policy t) @ '' has zero routing mark''))
      else Inr (Some (eg_mark t)))"

subsection \<open>Configuration\<close>

record shadow_config =
  sc_listen :: string
  sc_interface :: string
  sc_upstream :: string
  sc_rules :: "policy_rule list"
  sc_allowed :: "(string \<Rightarrow> bool) option"
  sc_timeout :: duration
  sc_max :: int

definition default_concurrency :: "int" where
  "default_concurrency = 32"

definition max_concurrency :: "int" where
  "max_concurrency = 256"

definition interface_chars :: "string" where
  "interface_chars = [CHR '' '', CHR 0x09, CHR 0x0D, CHR 0x0A, CHR ''/'']"

definition port_in_range :: "string \<Rightarrow> int option" where
  "port_in_range text = (case atoi text of None \<Rightarrow> None | Some p \<Rightarrow> if p \<le> 0 \<or> p > 65535 then None else Some p)"

definition finish_config :: "shadow_config \<Rightarrow> go_error + shadow_config" where
  "finish_config cfg =
     (let cfg = (if sc_timeout cfg \<le> 0 then cfg\<lparr>sc_timeout := 4 * second\<rparr> else cfg);
          cfg = (if sc_max cfg = 0 then cfg\<lparr>sc_max := default_concurrency\<rparr> else cfg)
      in if sc_max cfg < 1 \<or> sc_max cfg > max_concurrency
         then Inl (Msg (''shadow max concurrency must be between 1 and '' @ itoa max_concurrency))
         else Inr cfg)"

definition validate_upstream :: "string \<Rightarrow> go_error + string \<times> string" where
  "validate_upstream upstream =
     (case split_host_port (trim_space upstream) of
        None \<Rightarrow> Inl (Msg ''shadow upstream must be an explicit IP:port'')
      | Some (host, port) \<Rightarrow>
          if parse_ip host = None then Inl (Msg ''shadow upstream must be an explicit IP:port'')
          else if port_in_range port = None then Inl (Msg ''invalid shadow upstream port'')
          else Inr (host, port))"

definition validate_shadow_config :: "shadow_config \<Rightarrow> go_error + shadow_config" where
  "validate_shadow_config cfg =
     (case split_host_port (trim_space (sc_listen cfg)) of
        None \<Rightarrow> Inl (Msg ''invalid shadow listen address'')
      | Some (host, port_text) \<Rightarrow>
      (case Option.bind (parse_ip host) (\<lambda>ip. map_option (Pair ip) (to4 ip)) of
        None \<Rightarrow> Inl (Msg ''shadow listener must use an explicit IPv4 address'')
      | Some (ip, v4) \<Rightarrow>
          if is_unspecified ip then Inl (Msg ''shadow listener must use an explicit IPv4 address'')
          else
          let cfg = cfg\<lparr>sc_interface := trim_space (sc_interface cfg)\<rparr> in
          if \<not> is_loopback ip \<and> sc_interface cfg = []
          then Inl (Msg ''non-loopback shadow listener requires an explicit interface'')
          else if contains_any (sc_interface cfg) interface_chars
          then Inl (Msg ''invalid shadow listen interface'')
          else case port_in_range port_text of
            None \<Rightarrow> Inl (Msg ''invalid shadow listen port'')
          | Some port \<Rightarrow>
              if port = 53 then Inl (Msg ''shadow listener must not bind port 53'')
              else case validate_upstream (sc_upstream cfg) of
                Inl e \<Rightarrow> Inl e
              | Inr (up_host, up_port) \<Rightarrow>
                  if sc_allowed cfg = None then Inl (Msg ''shadow policy inventory is required'')
                  else case validate_rules (sc_rules cfg) (sc_allowed cfg) of
                    Inl e \<Rightarrow> Inl (Wrap ''validate shadow rules: '' e)
                  | Inr rules \<Rightarrow>
                      finish_config (cfg\<lparr>sc_listen := join_host_port (ip4_string v4) port_text,
                        sc_upstream := join_host_port up_host up_port, sc_rules := rules\<rparr>)))"

definition allowed_from_inventory :: "policy_option list \<Rightarrow> string \<Rightarrow> bool" where
  "allowed_from_inventory inventory name \<longleftrightarrow>
     name = ''System'' \<or> list_ex (\<lambda>item. normalize_proxy (po_proxy item) = name) inventory"

definition rules_schema_version :: "int" where
  "rules_schema_version = 1"

record rules_document =
  rd_version :: int
  rd_updated :: time
  rd_rules :: "policy_rule list"

definition prepare_persisted ::
    "rules_document \<Rightarrow> policy_option list \<Rightarrow> string \<Rightarrow> string \<Rightarrow> duration \<Rightarrow> int \<Rightarrow> go_error + shadow_config" where
  "prepare_persisted doc inventory listen upstream timeout workers =
     (if rd_version doc \<noteq> rules_schema_version
      then Inl (Msg (''unsupported persisted shadow schema version '' @ itoa (rd_version doc)))
      else case validate_rules (rd_rules doc) (Some (allowed_from_inventory inventory)) of
             Inl e \<Rightarrow> Inl (Wrap ''persisted shadow rule validation: '' e)
           | Inr rules \<Rightarrow>
               validate_shadow_config \<lparr>sc_listen = listen, sc_interface = [], sc_upstream = upstream,
                 sc_rules = rules, sc_allowed = Some (allowed_from_inventory inventory),
                 sc_timeout = timeout, sc_max = workers\<rparr>)"

subsection \<open>The plan of a query\<close>

record shadow_plan =
  pl_message :: dns_message
  pl_evaluation :: policy_evaluation
  pl_target :: egress_target

definition plan_query ::
    "byte list \<Rightarrow> string \<Rightarrow> shadow_config \<Rightarrow> (string \<rightharpoonup> policy_route) \<Rightarrow> (go_error + shadow_plan) run" where
  "plan_query query client cfg routes =
     run_bind (parse_dns_message query) (\<lambda>(msg, ok).
       Return
        (if \<not> ok \<or> dm_qr msg \<or> dm_qdcount msg \<noteq> 1 \<or> trim_space (dm_qname msg) = []
         then Inl (Msg ''invalid shadow DNS query'')
         else case evaluate_policy \<lparr>rq_client = client, rq_domain = dm_qname msg,
                     rq_qtype = qtype_name (dm_qtype msg), rq_rules = sc_rules cfg\<rparr> (sc_allowed cfg) of
                Inl e \<Rightarrow> Inl e
              | Inr ev \<Rightarrow>
                  (case resolve_egress (pe_policy ev) routes of
                     Inl e \<Rightarrow> Inl e
                   | Inr target \<Rightarrow> Inr \<lparr>pl_message = msg, pl_evaluation = ev, pl_target = target\<rparr>)))"

definition failure_flags :: "16 word \<Rightarrow> byte \<Rightarrow> 16 word" where
  "failure_flags flags rcode = ((flags OR 0x8000) AND NOT 0x000f) OR ucast (rcode AND 0x0f)"

definition failure_response :: "byte list \<Rightarrow> byte \<Rightarrow> (go_error + byte list) run" where
  "failure_response query rcode =
     run_bind (parse_dns_message query) (\<lambda>(msg, ok).
       if \<not> ok \<or> dm_qr msg \<or> dm_qdcount msg \<noteq> 1 then Return (Inl (Msg ''cannot build shadow DNS failure response''))
       else run_bind (parse_dns_name query 12) (\<lambda>name.
         case name of
           None \<Rightarrow> Return (Inl (Msg ''cannot locate shadow DNS question''))
         | Some (_, off) \<Rightarrow>
             if off + 4 > length query then Return (Inl (Msg ''cannot locate shadow DNS question''))
             else (let response = take (off + 4) query in
               run_bind (uint16_at response 2) (\<lambda>flags.
                 Return (Inr (put16 0 10 (put16 0 8 (put16 0 6 (put16 (failure_flags flags rcode) 2 response)))))))))"

definition validate_response :: "byte list \<Rightarrow> byte list \<Rightarrow> (go_error + byte list) run" where
  "validate_response query response =
     run_bind (parse_dns_message query) (\<lambda>(q, qok). run_bind (parse_dns_message response) (\<lambda>(r, rok).
       Return (if \<not> qok \<or> \<not> rok \<or> \<not> dm_qr r \<or> dm_id q \<noteq> dm_id r then Inl (Msg ''invalid shadow DNS response'')
               else Inr response)))"

subsection \<open>One request\<close>

record shadow_stats =
  st_requests :: "64 word"
  st_successes :: "64 word"
  st_failures :: "64 word"
  st_servfails :: "64 word"
  st_in_flight :: int
  st_peak :: int
  st_selections :: "string \<Rightarrow> 64 word"

definition record_request :: "shadow_stats \<Rightarrow> shadow_stats" where
  "record_request st = st\<lparr>st_requests := st_requests st + 1\<rparr>"

definition record_plan :: "shadow_plan \<Rightarrow> shadow_stats \<Rightarrow> shadow_stats" where
  "record_plan plan st =
     (let p = pe_policy (pl_evaluation plan)
      in st\<lparr>st_selections := (st_selections st)(p := st_selections st p + 1)\<rparr>)"

definition record_success :: "shadow_stats \<Rightarrow> shadow_stats" where
  "record_success st = st\<lparr>st_successes := st_successes st + 1\<rparr>"

definition record_failure :: "shadow_stats \<Rightarrow> shadow_stats" where
  "record_failure st = st\<lparr>st_failures := st_failures st + 1\<rparr>"

definition record_servfail :: "shadow_stats \<Rightarrow> shadow_stats" where
  "record_servfail st = st\<lparr>st_servfails := st_servfails st + 1\<rparr>"

text \<open>
  \<open>send mark query\<close> is the exchange with the upstream over a socket with that mark: dial, write and
  read, the first error if one fails, otherwise the message that came back. Over TCP the message
  is what its length prefix delimits.
\<close>

type_synonym exchange = "32 word option \<Rightarrow> byte list \<Rightarrow> go_error + byte list"

definition length_checked :: "bool \<Rightarrow> byte list \<Rightarrow> go_error + byte list" where
  "length_checked tcp response =
     (if tcp \<and> (length response < 12 \<or> int (length response) > 65535)
      then Inl (Msg (''invalid shadow TCP DNS response length '' @ itoa (int (length response)))) else Inr response)"

definition forward ::
    "bool \<Rightarrow> exchange \<Rightarrow> string \<Rightarrow> byte list \<Rightarrow> shadow_config \<Rightarrow> (string \<rightharpoonup> policy_route) \<Rightarrow> shadow_stats \<Rightarrow>
     ((go_error + byte list) \<times> shadow_stats) run" where
  "forward tcp send client query cfg routes st =
     run_bind (plan_query query client cfg routes) (\<lambda>plan.
       case plan of
         Inl e \<Rightarrow> Return (Inl e, record_failure st)
       | Inr plan \<Rightarrow>
           (let st = record_plan plan st in
            case marked_dialer (pl_target plan) of
              Inl e \<Rightarrow> Return (Inl e, record_failure st)
            | Inr mark \<Rightarrow>
                (case send mark query of
                   Inl e \<Rightarrow> Return (Inl e, record_failure st)
                 | Inr response \<Rightarrow>
                     (case length_checked tcp response of
                        Inl e \<Rightarrow> Return (Inl e, record_failure st)
                      | Inr response \<Rightarrow>
                          run_bind (validate_response query response) (\<lambda>v.
                            case v of
                              Inl e \<Rightarrow> Return (Inl e, record_failure st)
                            | Inr r \<Rightarrow> Return (Inr r, record_success st))))))"

text \<open>The goroutine of one request: what it writes back to the client, if anything.\<close>

definition answer_request ::
    "bool \<Rightarrow> exchange \<Rightarrow> string \<Rightarrow> byte list \<Rightarrow> shadow_config \<Rightarrow> (string \<rightharpoonup> policy_route) \<Rightarrow> shadow_stats \<Rightarrow>
     (byte list option \<times> shadow_stats) run" where
  "answer_request tcp send client query cfg routes st =
     run_bind (forward tcp send client query cfg routes (record_request st)) (\<lambda>(r, st).
       case r of
         Inr response \<Rightarrow> Return (Some response, st)
       | Inl _ \<Rightarrow>
           run_bind (failure_response query 2) (\<lambda>f.
             case f of
               Inl _ \<Rightarrow> Return (None, st)
             | Inr response \<Rightarrow> Return (Some response, record_servfail st)))"

definition tcp_frame :: "byte list \<Rightarrow> byte list" where
  "tcp_frame response =
     [hi_byte (of_nat (length response)), lo_byte (of_nat (length response))] @ response"

subsection \<open>Parsing never panics here\<close>

lemma parse_message_short: "length msg < 12 \<Longrightarrow> parse_dns_message msg = Return (no_message, False)"
  by (simp add: parse_dns_message_def)

text \<open>What a message that was parsed says of its bytes.\<close>

lemma parse_message_cases:
  obtains d ok where "parse_dns_message msg = Return (d, ok)"
    and "ok \<Longrightarrow> 12 \<le> length msg \<and> dm_id d = be16 (msg ! 0) (msg ! 1) \<and>
           dm_qr d = (be16 (msg ! 2) (msg ! 3) AND 0x8000 \<noteq> 0) \<and> dm_qdcount d = be16 (msg ! 4) (msg ! 5)"
    and "ok \<Longrightarrow> dm_qdcount d \<noteq> 0 \<Longrightarrow>
           \<exists>name off. parse_dns_name msg 12 = Return (Some (name, off)) \<and> off + 4 \<le> length msg \<and> 12 < off"
proof (cases "length msg < 12")
  case True
  then show ?thesis using that [of no_message False] by (simp add: parse_message_short)
next
  case False
  then have h: "uint16_at msg 0 = Return (be16 (msg ! 0) (msg ! 1))"
    "uint16_at msg 2 = Return (be16 (msg ! 2) (msg ! 3))" "uint16_at msg 4 = Return (be16 (msg ! 4) (msg ! 5))"
    by (simp_all add: numeral_eq_Suc)
  let ?d = "no_message\<lparr>dm_id := be16 (msg ! 0) (msg ! 1), dm_qr := (be16 (msg ! 2) (msg ! 3) AND 0x8000 \<noteq> 0),
      dm_rcode := ucast (be16 (msg ! 2) (msg ! 3) AND 0x000f), dm_qdcount := be16 (msg ! 4) (msg ! 5)\<rparr>"
  obtain r where r: "parse_dns_name msg 12 = Return r"
    using parse_dns_name_total by blast
  show ?thesis
  proof (cases "be16 (msg ! 4) (msg ! 5) = 0")
    case True
    then have "parse_dns_message msg = Return (?d, True)"
      using False by (simp add: parse_dns_message_def h Let_def)
    then show ?thesis using that [of ?d True] False True by simp
  next
    case nz: False
    show ?thesis
    proof (cases "\<exists>name off. r = Some (name, off) \<and> off + 4 \<le> length msg")
      case True
      then obtain name off where s: "r = Some (name, off)" "off + 4 \<le> length msg" by blast
      let ?e = "?d\<lparr>dm_qname := trim_suffix (to_lower name) ''.'', dm_qtype := be16 (msg ! off) (msg ! (off + 1))\<rparr>"
      have "parse_dns_message msg = Return (?e, True)"
        using False nz s by (simp add: parse_dns_message_def h r Let_def)
      moreover have "12 < off"
        using r s parse_dns_name_iff [of msg 12 name off] name_at_end by fastforce
      ultimately show ?thesis using that [of ?e True] False nz r s by simp
    next
      case no: False
      then have "parse_dns_message msg = Return (no_message, False)"
        using False nz by (auto simp: parse_dns_message_def h r Let_def split: option.splits)
      then show ?thesis using that [of no_message False] by simp
    qed
  qed
qed

subsection \<open>The answer to a query that could not be forwarded\<close>

lemma failure_flags_bits:
  "failure_flags f rcode AND 0x8000 = 0x8000"
  "failure_flags f rcode AND 0x7ff0 = f AND 0x7ff0"
  "failure_flags f rcode AND 0x000f = ucast (rcode AND 0x0f)"
proof -
  have n: "n = 15 \<or> n = 14 \<or> n = 13 \<or> n = 12 \<or> n = 11 \<or> n = 10 \<or> n = 9 \<or> n = 8 \<or> n = 7 \<or> n = 6 \<or> n = 5 \<or>
      n = 4 \<or> n = 3 \<or> n = 2 \<or> n = 1 \<or> n = 0" if "n < LENGTH(16)" for n :: nat
    using that by (simp, presburger)
  show "failure_flags f rcode AND 0x8000 = 0x8000"
    unfolding failure_flags_def by (rule bit_word_eqI, drule n, elim disjE; simp add: bit_simps)
  show "failure_flags f rcode AND 0x7ff0 = f AND 0x7ff0"
    unfolding failure_flags_def by (rule bit_word_eqI, drule n, elim disjE; simp add: bit_simps)
  show "failure_flags f rcode AND 0x000f = ucast (rcode AND 0x0f)"
    unfolding failure_flags_def by (rule bit_word_eqI, drule n, elim disjE; simp add: bit_simps)
qed

lemma zero_bytes [simp]: "hi_byte 0 = 0" "lo_byte 0 = 0"
  by (simp_all add: hi_byte_def lo_byte_def)

lemma twelve:
  assumes "12 \<le> length r"
  obtains a b c d e f g h i j k l t where "r = a # b # c # d # e # f # g # h # i # j # k # l # t"
  using assms by (auto simp: eval_nat_numeral Suc_le_length_iff)

lemma put_header:
  assumes "12 \<le> length r"
  shows "put16 0 10 (put16 0 8 (put16 0 6 (put16 w 2 r))) =
    take 2 r @ [hi_byte w, lo_byte w] @ take 2 (drop 4 r) @ [0, 0, 0, 0, 0, 0] @ drop 12 r"
  using assms by (rule twelve) (simp add: put16_def eval_nat_numeral)

text \<open>A query with exactly one question, as \<^verbatim>\<open>parseDNSMessage\<close> sees it.\<close>

definition one_question :: "byte list \<Rightarrow> dns_message \<Rightarrow> bool" where
  "one_question query q \<longleftrightarrow> parse_dns_message query = Return (q, True) \<and> \<not> dm_qr q \<and> dm_qdcount q = 1"

lemma failure_response_form:
  assumes "one_question query q"
  obtains off name where "parse_dns_name query 12 = Return (Some (name, off))" and "12 < off" and "off + 4 \<le> length query"
    and "failure_response query rcode = Return (Inr (take 2 query @
          [hi_byte (failure_flags (be16 (query ! 2) (query ! 3)) rcode), lo_byte (failure_flags (be16 (query ! 2) (query ! 3)) rcode)] @
          take 2 (drop 4 query) @ [0, 0, 0, 0, 0, 0] @ drop 12 (take (off + 4) query)))"
proof -
  obtain d ok where d: "parse_dns_message query = Return (d, ok)"
    and nm: "ok \<Longrightarrow> dm_qdcount d \<noteq> 0 \<Longrightarrow>
       \<exists>name off. parse_dns_name query 12 = Return (Some (name, off)) \<and> off + 4 \<le> length query \<and> 12 < off"
    using parse_message_cases [of query "\<exists>d ok. parse_dns_message query = Return (d, ok) \<and> (ok \<longrightarrow> dm_qdcount d \<noteq> 0 \<longrightarrow>
       (\<exists>name off. parse_dns_name query 12 = Return (Some (name, off)) \<and> off + 4 \<le> length query \<and> 12 < off))"]
    by blast
  have "d = q" "ok" using d assms by (auto simp: one_question_def)
  then obtain name off where n: "parse_dns_name query 12 = Return (Some (name, off))" "off + 4 \<le> length query" "12 < off"
    using nm assms by (auto simp: one_question_def)
  let ?r = "take (off + 4) query"
  have len: "12 \<le> length ?r" using n by simp
  have flags: "uint16_at ?r 2 = Return (be16 (query ! 2) (query ! 3))"
    using n by (simp add: uint16_at_def byte_at_def)
  have eqs: "take 2 ?r = take 2 query" "take 2 (drop 4 ?r) = take 2 (drop 4 query)"
    using n by (simp_all add: min_def drop_take)
  have "failure_response query rcode = Return (Inr (put16 0 10 (put16 0 8 (put16 0 6
      (put16 (failure_flags (be16 (query ! 2) (query ! 3)) rcode) 2 ?r)))))"
    using assms n flags by (simp add: failure_response_def one_question_def Let_def)
  then show ?thesis
    using that [OF n(1,3,2)] unfolding put_header [OF len] eqs by blast
qed


subsection \<open>Every question is answered\<close>

lemma plan_query_total: "\<exists>r. plan_query query client cfg routes = Return r"
proof -
  obtain d ok where "parse_dns_message query = Return (d, ok)"
    using dns_message_parser_total by blast
  then show ?thesis by (simp add: plan_query_def)
qed

lemma validate_response_spec:
  assumes "validate_response query response = Return (Inr r)"
  shows "r = response \<and> 12 \<le> length r \<and>
    (\<exists>q. parse_dns_message query = Return (q, True) \<and> be16 (r ! 0) (r ! 1) = dm_id q) \<and> be16 (r ! 2) (r ! 3) AND 0x8000 \<noteq> 0"
proof -
  obtain q qok where q: "parse_dns_message query = Return (q, qok)"
    using dns_message_parser_total by blast
  obtain d ok where d: "parse_dns_message response = Return (d, ok)"
    and h: "ok \<Longrightarrow> 12 \<le> length response \<and> dm_id d = be16 (response ! 0) (response ! 1) \<and>
       dm_qr d = (be16 (response ! 2) (response ! 3) AND 0x8000 \<noteq> 0)"
    using parse_message_cases [of response "\<exists>d ok. parse_dns_message response = Return (d, ok) \<and>
       (ok \<longrightarrow> 12 \<le> length response \<and> dm_id d = be16 (response ! 0) (response ! 1) \<and>
         dm_qr d = (be16 (response ! 2) (response ! 3) AND 0x8000 \<noteq> 0))"] by blast
  show ?thesis
    using assms q d h by (auto simp: validate_response_def split: if_splits)
qed

lemma validate_response_total: "\<exists>r. validate_response query response = Return r"
proof -
  obtain q qok d ok where "parse_dns_message query = Return (q, qok)" "parse_dns_message response = Return (d, ok)"
    using dns_message_parser_total by meson
  then show ?thesis by (simp add: validate_response_def)
qed

text \<open>A forwarded request counts once, as a success or as a failure.\<close>

definition counted_once :: "shadow_stats \<Rightarrow> go_error + byte list \<Rightarrow> shadow_stats \<Rightarrow> bool" where
  "counted_once st r st' \<longleftrightarrow>
     st_requests st' = st_requests st \<and> st_servfails st' = st_servfails st \<and>
     (if is_ok r then st_successes st' = st_successes st + 1 \<and> st_failures st' = st_failures st
      else st_successes st' = st_successes st \<and> st_failures st' = st_failures st + 1)"

lemmas stats_defs = record_request_def record_plan_def record_success_def record_failure_def record_servfail_def

lemma forward_result:
  obtains r st' where "forward tcp send client query cfg routes st = Return (r, st')" and "counted_once st r st'"
    and "\<And>x. r = Inr x \<Longrightarrow> validate_response query x = Return (Inr x)"
proof -
  note result = that
  obtain p where p: "plan_query query client cfg routes = Return p"
    using plan_query_total by blast
  have fail: thesis if "forward tcp send client query cfg routes st = Return (Inl e, record_failure st0)"
    and "st_requests st0 = st_requests st" "st_servfails st0 = st_servfails st"
      "st_successes st0 = st_successes st" "st_failures st0 = st_failures st" for e st0
    by (rule result [OF that(1)]) (use that in \<open>auto simp: counted_once_def record_failure_def\<close>)
  show thesis
  proof (cases p)
    case (Inl e)
    then show thesis using p fail [of e st] by (simp add: forward_def)
  next
    case (Inr plan)
    let ?st = "record_plan plan st"
    have same: "st_requests ?st = st_requests st" "st_servfails ?st = st_servfails st"
      "st_successes ?st = st_successes st" "st_failures ?st = st_failures st"
      by (simp_all add: record_plan_def Let_def)
    show thesis
    proof (cases "marked_dialer (pl_target plan)")
      case (Inl e)
      then show thesis using p Inr same fail [of e ?st] by (simp add: forward_def)
    next
      case d: (Inr mark)
      show thesis
      proof (cases "send mark query")
        case (Inl e)
        then show thesis using p Inr d same fail [of e ?st] by (simp add: forward_def)
      next
        case s: (Inr resp)
        show thesis
        proof (cases "length_checked tcp resp")
          case (Inl e)
          then show thesis using p Inr d s same fail [of e ?st] by (simp add: forward_def)
        next
          case l: (Inr resp')
          obtain v where v: "validate_response query resp' = Return v"
            using validate_response_total by blast
          show thesis
          proof (cases v)
            case (Inl e)
            then show thesis using p Inr d s l v same fail [of e ?st] by (simp add: forward_def)
          next
            case w: (Inr x)
            have "x = resp'" using v w validate_response_spec by blast
            then show thesis
              using result [of "Inr x" "record_success ?st"] p Inr d s l v w same
              by (simp add: forward_def counted_once_def record_success_def)
          qed
        qed
      qed
    qed
  qed
qed

lemma one_question_id: "one_question query q \<Longrightarrow> dm_id q = be16 (query ! 0) (query ! 1)"
  using parse_message_cases [of query "\<exists>d ok. parse_dns_message query = Return (d, ok) \<and>
      (ok \<longrightarrow> dm_id d = be16 (query ! 0) (query ! 1))"]
  by (auto simp: one_question_def)

lemma failure_answer:
  assumes "one_question query q"
  obtains r where "failure_response query rcode = Return (Inr r)" and "be16 (r ! 0) (r ! 1) = dm_id q"
    and "be16 (r ! 2) (r ! 3) AND 0x8000 \<noteq> 0"
proof -
  let ?f = "failure_flags (be16 (query ! 2) (query ! 3)) rcode"
  obtain off name where o: "12 < off" "off + 4 \<le> length query"
    and r: "failure_response query rcode = Return (Inr (take 2 query @ [hi_byte ?f, lo_byte ?f] @
          take 2 (drop 4 query) @ [0, 0, 0, 0, 0, 0] @ drop 12 (take (off + 4) query)))"
    by (rule failure_response_form [OF assms, of rcode])
  obtain a b c d e f g h i j k l t where query: "query = a # b # c # d # e # f # g # h # i # j # k # l # t"
    using o by (auto intro: twelve [of query])
  let ?r = "take 2 query @ [hi_byte ?f, lo_byte ?f] @ take 2 (drop 4 query) @ [0, 0, 0, 0, 0, 0] @ drop 12 (take (off + 4) query)"
  have "be16 (?r ! 0) (?r ! 1) = dm_id q" "be16 (?r ! 2) (?r ! 3) = ?f"
    by (simp_all add: query eval_nat_numeral one_question_id [OF assms])
  moreover have "?f AND 0x8000 \<noteq> 0"
    unfolding failure_flags_bits(1) by simp
  ultimately show thesis
    using that [OF r] by metis
qed

text \<open>C31: whatever the rules, the routes and the network do, a query with exactly one question gets
  an answer with its own identifier and the response bit: the upstream's validated answer or a
  failure. It is counted as one request and as one success or one failure, and a failure answer is
  counted exactly when the forwarding failed.\<close>

theorem every_question_is_answered:
  assumes "one_question query q"
  shows "\<exists>r st'. answer_request tcp send client query cfg routes st = Return (Some r, st') \<and>
     be16 (r ! 0) (r ! 1) = dm_id q \<and> be16 (r ! 2) (r ! 3) AND 0x8000 \<noteq> 0 \<and>
     st_requests st' = st_requests st + 1 \<and>
     st_successes st' + st_failures st' = st_successes st + st_failures st + 1 \<and>
     st_servfails st' - st_servfails st = st_failures st' - st_failures st"
proof -
  obtain r st' where f: "forward tcp send client query cfg routes (record_request st) = Return (r, st')"
    and c: "counted_once (record_request st) r st'"
    and v: "\<And>x. r = Inr x \<Longrightarrow> validate_response query x = Return (Inr x)"
    by (rule forward_result [of tcp send client query cfg routes "record_request st"]) blast
  show ?thesis
  proof (cases r)
    case (Inr x)
    have "answer_request tcp send client query cfg routes st = Return (Some x, st')"
      using f Inr by (simp add: answer_request_def)
    moreover have "be16 (x ! 0) (x ! 1) = dm_id q" "be16 (x ! 2) (x ! 3) AND 0x8000 \<noteq> 0"
      using validate_response_spec [OF v [OF Inr]] assms by (auto simp: one_question_def)
    ultimately show ?thesis
      using c Inr by (auto simp: counted_once_def record_request_def)
  next
    case (Inl e)
    obtain x where x: "failure_response query 2 = Return (Inr x)" "be16 (x ! 0) (x ! 1) = dm_id q"
      "be16 (x ! 2) (x ! 3) AND 0x8000 \<noteq> 0"
      by (rule failure_answer [OF assms])
    have "answer_request tcp send client query cfg routes st = Return (Some x, record_servfail st')"
      using f Inl x by (simp add: answer_request_def)
    then show ?thesis
      using c Inl x by (auto simp: counted_once_def record_request_def record_servfail_def)
  qed
qed

subsection \<open>What a plan allows\<close>

text \<open>C32: a query is forwarded only where a policy sends it, and fails closed: its target is the
  unmarked system path only when the evaluation chose System; otherwise it carries the nonzero
  mark of the very policy that was chosen, whose route exists and has a table. The policy
  itself is the best match of the configured rules or the fallback.\<close>

theorem plan_fails_closed:
  assumes "plan_query query client cfg routes = Return (Inr plan)"
  shows "(\<exists>msg. one_question query msg \<and> pl_message plan = msg \<and>
       evaluate_policy \<lparr>rq_client = client, rq_domain = dm_qname msg, rq_qtype = qtype_name (dm_qtype msg),
         rq_rules = sc_rules cfg\<rparr> (sc_allowed cfg) = Inr (pl_evaluation plan)) \<and>
     (if eg_system (pl_target plan) then trim_space (pe_policy (pl_evaluation plan)) = ''System'' \<and>
           marked_dialer (pl_target plan) = Inr None
      else \<exists>r. routes (trim_space (pe_policy (pl_evaluation plan))) = Some r \<and> 0 < rt_table r \<and> rt_mark r \<noteq> 0 \<and>
             marked_dialer (pl_target plan) = Inr (Some (rt_mark r)))"
proof -
  obtain msg ok where m: "parse_dns_message query = Return (msg, ok)"
    using dns_message_parser_total by blast
  have guard: "ok" "\<not> dm_qr msg" "dm_qdcount msg = 1"
    using assms m by (auto simp: plan_query_def split: if_splits)
  let ?req = "\<lparr>rq_client = client, rq_domain = dm_qname msg, rq_qtype = qtype_name (dm_qtype msg), rq_rules = sc_rules cfg\<rparr>"
  obtain ev target where ev: "evaluate_policy ?req (sc_allowed cfg) = Inr ev" and tg: "resolve_egress (pe_policy ev) routes = Inr target"
    and plan: "plan = \<lparr>pl_message = msg, pl_evaluation = ev, pl_target = target\<rparr>"
    using assms m by (auto simp: plan_query_def split: if_splits sum.splits)
  have "if eg_system target then trim_space (pe_policy ev) = ''System'' \<and> marked_dialer target = Inr None
      else \<exists>r. routes (trim_space (pe_policy ev)) = Some r \<and> 0 < rt_table r \<and> rt_mark r \<noteq> 0 \<and>
             marked_dialer target = Inr (Some (rt_mark r))"
    using tg by (auto simp: resolve_egress_def marked_dialer_def Let_def split: if_splits option.splits)
  then show ?thesis
    using m guard ev by (simp add: plan one_question_def)
qed

text \<open>A configuration made from stored rules holds exactly those rules, and a plan evaluates them.\<close>

lemma shadow_config_rules:
  assumes "validate_shadow_config c = Inr cfg"
  shows "sc_allowed cfg = sc_allowed c" and "validate_rules (sc_rules c) (sc_allowed c) = Inr (sc_rules cfg)"
  using assms
  by (auto simp: validate_shadow_config_def finish_config_def Let_def split: if_splits option.splits sum.splits prod.splits)

lemma prepared_rules:
  assumes "validate_rules raw allowed = Inr out" and "normal_domains out"
    and "prepare_persisted doc live listen upstream timeout workers = Inr cfg" and "rd_rules doc = out"
  shows "sc_rules cfg = out" and "\<forall>r\<in>set out. permitted (sc_allowed cfg) r"
proof -
  let ?a = "Some (allowed_from_inventory live)"
  obtain rules where v: "validate_rules out ?a = Inr rules" and
    c: "validate_shadow_config \<lparr>sc_listen = listen, sc_interface = [], sc_upstream = upstream, sc_rules = rules,
      sc_allowed = ?a, sc_timeout = timeout, sc_max = workers\<rparr> = Inr cfg"
    using assms(3,4) by (auto simp: prepare_persisted_def split: if_splits sum.splits)
  have "validate_rules rules ?a = Inr (sc_rules cfg)" "sc_allowed cfg = ?a"
    using shadow_config_rules [OF c] by simp_all
  then show "sc_rules cfg = out" and "\<forall>r\<in>set out. permitted (sc_allowed cfg) r"
    using validated_again [OF assms(1,2) v] validated_again [OF assms(1,2)] by simp_all
qed

lemma plan_evaluates:
  assumes "plan_query query client cfg routes = Return (Inr plan)"
  shows "evaluate_policy \<lparr>rq_client = client, rq_domain = dm_qname (pl_message plan),
     rq_qtype = qtype_name (dm_qtype (pl_message plan)), rq_rules = sc_rules cfg\<rparr> (sc_allowed cfg) =
     Inr (pl_evaluation plan)"
proof -
  obtain msg ok where "parse_dns_message query = Return (msg, ok)"
    using dns_message_parser_total by blast
  then show ?thesis
    using assms by (auto simp: plan_query_def split: if_splits sum.splits)
qed

subsection \<open>Query types without a name\<close>

definition named_types :: "16 word set" where
  "named_types = {1, 2, 5, 12, 15, 16, 28, 33, 64, 65}"

lemma type_text:
  fixes n :: int
  assumes "0 \<le> n"
  shows "to_upper (trim_space (''TYPE'' @ itoa n)) = ''TYPE'' @ itoa n"
proof -
  have dig: "\<forall>c\<in>set (itoa n). is_digit c" and ne: "itoa n \<noteq> []"
    using nat_digits_digits [of "nat n"] assms by (auto simp: itoa_nonneg list_all_iff)
  have "is_digit (last (itoa n))" using dig ne by simp
  then have "\<not> is_space (last (''TYPE'' @ itoa n))"
    using ne by (auto simp: is_digit_def is_space_def)
  moreover have "\<not> is_space (hd (''TYPE'' @ itoa n))"
    by (simp add: is_space_def byte_of_def)
  ultimately have "trim_space (''TYPE'' @ itoa n) = ''TYPE'' @ itoa n"
    by (intro trim_space_id) simp
  moreover have "to_upper (itoa n) = itoa n"
    using dig by (auto simp: to_upper_def upper_char_def is_digit_def is_lower_def intro!: map_idI)
  moreover have "to_upper ''TYPE'' = ''TYPE''" by code_simp
  moreover have "to_upper (''TYPE'' @ itoa n) = to_upper ''TYPE'' @ to_upper (itoa n)"
    unfolding to_upper_def by (rule map_append)
  ultimately show ?thesis by metis
qed

lemma type_text_invalid: "0 \<le> n \<Longrightarrow> \<not> valid_qtype (''TYPE'' @ itoa n)"
  using type_text [of n] by (auto simp: valid_qtype_def query_types_def)

text \<open>C33: a query whose type has no name of its own in the program is never planned, whatever the
  rules say: it gets a failure even when no rule could apply to it. Among these types is SOA (6),
  which the rule language accepts as a query type.\<close>

theorem unnamed_types_are_refused:
  assumes "one_question query q" and "dm_qtype q \<notin> named_types"
  shows "\<exists>e. plan_query query client cfg routes = Return (Inl e)"
proof -
  have name: "qtype_name (dm_qtype q) = ''TYPE'' @ itoa (uint (dm_qtype q))"
    using assms(2) by (simp add: qtype_name_def named_types_def)
  have up: "to_upper (trim_space (qtype_name (dm_qtype q))) = qtype_name (dm_qtype q)"
    and bad: "\<not> valid_qtype (qtype_name (dm_qtype q))"
    unfolding name using type_text type_text_invalid by simp_all
  have "qtype_name (dm_qtype q) \<noteq> []" by (simp add: name)
  then have "\<exists>e. evaluate_policy \<lparr>rq_client = client, rq_domain = dm_qname q, rq_qtype = qtype_name (dm_qtype q),
      rq_rules = sc_rules cfg\<rparr> (sc_allowed cfg) = Inl e"
    by (simp add: evaluate_policy_def Let_def up bad)
  then show ?thesis
    using assms(1) by (auto simp: plan_query_def one_question_def)
qed

definition soa_rule :: "policy_rule" where
  "soa_rule = \<lparr>pr_id = ''soa'', pr_priority = 1, pr_policy = ''System'',
     pr_match = \<lparr>pm_cidr = [], pm_domain = [], pm_qtype = ''SOA''\<rparr>\<rparr>"

definition sample_config :: "policy_rule list \<Rightarrow> shadow_config" where
  "sample_config rules = \<lparr>sc_listen = ''192.168.1.1:5353'', sc_interface = ''br0'', sc_upstream = ''1.1.1.1:53'',
     sc_rules = rules, sc_allowed = Some (\<lambda>p. p = ''System''), sc_timeout = 0, sc_max = 0\<rparr>"

lemma query_one_question:
  assumes "ls \<noteq> []" and "list_all label_ok ls" and "length ls \<le> 128"
  shows "one_question (build_dns_query ident (join ''.'' ls) qt)
     \<lparr>dm_id = ident, dm_qr = False, dm_rcode = 0, dm_qname = to_lower (join ''.'' ls), dm_qtype = qt, dm_qdcount = 1\<rparr>"
  unfolding one_question_def using query_roundtrip [of ls "[]" ident qt] assms by simp

lemma soa_rule_accepted: "is_ok (validate_shadow_config (sample_config [soa_rule]))"
  by code_simp

lemma soa_query: "one_question (build_dns_query 7 ''example.com'' 6)
  \<lparr>dm_id = 7, dm_qr = False, dm_rcode = 0, dm_qname = ''example.com'', dm_qtype = 6, dm_qdcount = 1\<rparr>"
proof -
  have "list_all label_ok [''example'', ''com'']" by code_simp
  moreover have "to_lower (join ''.'' [''example'', ''com'']) = ''example.com''" by code_simp
  ultimately show ?thesis
    using query_one_question [of "[''example'', ''com'']" 7 6] by simp
qed

theorem unnamed_types_witness:
  "is_ok (validate_shadow_config (sample_config [soa_rule])) \<and>
   (\<exists>e. plan_query (build_dns_query 7 ''example.com'' 6) ''192.168.1.20'' (sample_config [soa_rule]) (\<lambda>p. None) = Return (Inl e))"
  using soa_rule_accepted unnamed_types_are_refused [OF soa_query] by (simp add: named_types_def)

theorem every_question_witness:
  "\<exists>r st'. answer_request False (\<lambda>mark q. Inl ErrIO) ''192.168.1.20'' (build_dns_query 7 ''example.com'' 6) (sample_config [])
       (\<lambda>p. None) \<lparr>st_requests = 0, st_successes = 0, st_failures = 0, st_servfails = 0, st_in_flight = 0,
          st_peak = 0, st_selections = (\<lambda>p. 0)\<rparr> = Return (Some r, st') \<and> be16 (r ! 0) (r ! 1) = 7 \<and>
     st_servfails st' = st_failures st'"
  using every_question_is_answered [OF soa_query, of False "\<lambda>mark q. Inl ErrIO" "''192.168.1.20''" "sample_config []" "\<lambda>p. None"
      "\<lparr>st_requests = 0, st_successes = 0, st_failures = 0, st_servfails = 0, st_in_flight = 0,
          st_peak = 0, st_selections = (\<lambda>p. 0)\<rparr>"] by auto


definition www_query :: "byte list" where
  "www_query = build_dns_query 1 ''www.example.com'' 1"

definition policy_config :: "shadow_config" where
  "policy_config = sample_config [\<lparr>pr_id = ''r'', pr_priority = 1, pr_policy = ''Policy1'',
     pr_match = \<lparr>pm_cidr = [], pm_domain = ''example.com'', pm_qtype = ''A''\<rparr>\<rparr>]
     \<lparr>sc_allowed := Some (\<lambda>p. p = ''System'' \<or> p = ''Policy1'')\<rparr>"

definition policy_routes :: "string \<rightharpoonup> policy_route" where
  "policy_routes p = (if p = ''Policy1'' then Some \<lparr>rt_name = ''Policy1'', rt_description = [], rt_mark = 0xffffaab,
     rt_table = 4098, rt_default = True\<rparr> else None)"

fun planned :: "(go_error + shadow_plan) run \<Rightarrow> shadow_plan option" where
  "planned (Return (Inr p)) = Some p"
| "planned _ = None"

theorem plan_witness:
  "\<exists>plan. planned (plan_query www_query ''127.0.0.1'' policy_config policy_routes) = Some plan \<and>
     \<not> eg_system (pl_target plan) \<and> marked_dialer (pl_target plan) = Inr (Some 0xffffaab)"
proof -
  let ?r = "plan_query www_query ''127.0.0.1'' policy_config policy_routes"
  have "map_option (\<lambda>p. (eg_system (pl_target p), pe_policy (pl_evaluation p))) (planned ?r) = Some (False, ''Policy1'')"
    by code_simp
  then obtain plan where p: "planned ?r = Some plan" "\<not> eg_system (pl_target plan)" "pe_policy (pl_evaluation plan) = ''Policy1''"
    by auto
  then have "?r = Return (Inr plan)"
    by (cases ?r rule: planned.cases) auto
  from plan_fails_closed [OF this] p have "\<exists>r. policy_routes (trim_space ''Policy1'') = Some r \<and> marked_dialer (pl_target plan) = Inr (Some (rt_mark r))"
    by auto
  moreover have "trim_space ''Policy1'' = ''Policy1''" by code_simp
  ultimately show ?thesis using p by (auto simp: policy_routes_def)
qed

subsection \<open>An accepted configuration\<close>

lemma finish_config_ok:
  "finish_config cfg = Inr out \<Longrightarrow>
     0 < sc_timeout out \<and> 1 \<le> sc_max out \<and> sc_max out \<le> max_concurrency \<and> sc_listen out = sc_listen cfg \<and>
     sc_interface out = sc_interface cfg \<and> sc_upstream out = sc_upstream cfg \<and> sc_rules out = sc_rules cfg \<and>
     sc_allowed out = sc_allowed cfg"
  by (auto simp: finish_config_def Let_def second_def split: if_splits)

lemma to4_length: "to4 a = Some v \<Longrightarrow> length v = 4"
  by (auto simp: to4_def split: if_splits)

text \<open>C34: a configuration the forwarder accepts listens on one explicit IPv4 address and a port of
  1 to 65535 that is not 53, names an interface unless the address is a loopback one, has an
  upstream that is an address and a port, between 1 and 256 workers, a positive timeout, and rules
  that passed validation against the inventory.\<close>

theorem accepted_shadow_config:
  assumes "validate_shadow_config cfg = Inr out"
  shows "(\<exists>v port_text port. length v = 4 \<and> v \<noteq> [0, 0, 0, 0] \<and> sc_listen out = ip4_string v @ '':'' @ port_text \<and>
       atoi port_text = Some port \<and> 0 < port \<and> port \<le> 65535 \<and> port \<noteq> 53 \<and>
       (hd v \<noteq> 127 \<longrightarrow> sc_interface out \<noteq> [])) \<and>
     (\<exists>host port_text port a. sc_upstream out = join_host_port host port_text \<and> parse_ip host = Some a \<and>
       atoi port_text = Some port \<and> 0 < port \<and> port \<le> 65535) \<and>
     \<not> contains_any (sc_interface out) interface_chars \<and>
     0 < sc_timeout out \<and> 1 \<le> sc_max out \<and> sc_max out \<le> 256 \<and>
     (\<exists>allowed. sc_allowed out = Some allowed \<and> validate_rules (sc_rules cfg) (Some allowed) = Inr (sc_rules out))"
proof -
  obtain host port_text ip v port up_host up_port rules where
      ip: "parse_ip host = Some ip" "to4 ip = Some v" "\<not> is_unspecified ip"
    and iface: "is_loopback ip \<or> trim_space (sc_interface cfg) \<noteq> []"
      "\<not> contains_any (trim_space (sc_interface cfg)) interface_chars"
    and port: "port_in_range port_text = Some port" "port \<noteq> 53"
    and up: "validate_upstream (sc_upstream cfg) = Inr (up_host, up_port)"
    and rules: "sc_allowed cfg \<noteq> None" "validate_rules (sc_rules cfg) (sc_allowed cfg) = Inr rules"
    and fin: "finish_config (cfg\<lparr>sc_interface := trim_space (sc_interface cfg),
        sc_listen := join_host_port (ip4_string v) port_text, sc_upstream := join_host_port up_host up_port, sc_rules := rules\<rparr>) = Inr out"
    using assms unfolding validate_shadow_config_def Let_def
    by (auto split: option.splits if_splits sum.splits prod.splits bind_splits)
  note f = finish_config_ok [OF fin]
  have v: "length v = 4" "v \<noteq> [0, 0, 0, 0]" "hd v \<noteq> 127 \<longrightarrow> \<not> is_loopback ip"
    using ip to4_length by (auto simp: is_unspecified_def is_loopback_def)
  have "CHR '':'' \<notin> set (ip4_string v)" "CHR ''%'' \<notin> set (ip4_string v)"
    using ip4_string_chars by (force simp: is_digit_def byte_of_def)+
  then have listen: "sc_listen out = ip4_string v @ '':'' @ port_text"
    using f by (simp add: join_host_port_def)
  have p: "atoi port_text = Some port" "0 < port" "port \<le> 65535"
    using port by (auto simp: port_in_range_def split: option.splits if_splits)
  obtain a q where u: "parse_ip up_host = Some a" "atoi up_port = Some q" "0 < q" "q \<le> 65535"
    using up by (auto simp: validate_upstream_def port_in_range_def split: option.splits if_splits prod.splits)
  show ?thesis
  proof (intro conjI)
    show "\<exists>v port_text port. length v = 4 \<and> v \<noteq> [0, 0, 0, 0] \<and> sc_listen out = ip4_string v @ '':'' @ port_text \<and>
       atoi port_text = Some port \<and> 0 < port \<and> port \<le> 65535 \<and> port \<noteq> 53 \<and>
       (hd v \<noteq> 127 \<longrightarrow> sc_interface out \<noteq> [])"
      using v listen p port(2) iface(1) f by auto
    show "\<exists>host port_text port a. sc_upstream out = join_host_port host port_text \<and> parse_ip host = Some a \<and>
       atoi port_text = Some port \<and> 0 < port \<and> port \<le> 65535"
      using u f by auto
  qed (use f iface rules in \<open>auto simp: max_concurrency_def\<close>)
qed

theorem accepted_shadow_witness:
  "\<exists>out. validate_shadow_config policy_config = Inr out \<and> sc_max out = 32 \<and> sc_max out \<le> 256"
proof -
  have "case validate_shadow_config policy_config of Inr out \<Rightarrow> sc_max out = 32 | Inl e \<Rightarrow> False"
    by code_simp
  then obtain out where out: "validate_shadow_config policy_config = Inr out" "sc_max out = 32"
    by (auto split: sum.splits)
  then show ?thesis using accepted_shadow_config [OF out(1)] by blast
qed

subsection \<open>The workers\<close>

text \<open>
  The semaphore and the counters of the server while its goroutines interleave. \<open>acquire\<close> takes a
  token and then counts under the lock; \<open>release\<close> gives the token back and then uncounts: these are
  two steps each. \<open>taken\<close> are the goroutines between the two halves of \<open>acquire\<close>, \<open>busy\<close> those at
  work, \<open>leaving\<close> those between the two halves of \<open>release\<close>.
\<close>

record workers =
  wk_tokens :: nat
  wk_taken :: nat
  wk_busy :: nat
  wk_leaving :: nat
  wk_in_flight :: int
  wk_peak :: int

definition count_worker :: "workers \<Rightarrow> workers" where
  "count_worker w =
     (let n = wk_in_flight w + 1
      in w\<lparr>wk_in_flight := n, wk_peak := (if n > wk_peak w then n else wk_peak w)\<rparr>)"

definition uncount_worker :: "workers \<Rightarrow> workers" where
  "uncount_worker w = (if wk_in_flight w > 0 then w\<lparr>wk_in_flight := wk_in_flight w - 1\<rparr> else w)"

inductive worker_step :: "nat \<Rightarrow> workers \<Rightarrow> workers \<Rightarrow> bool" for cap where
  take_token: "wk_tokens w < cap \<Longrightarrow>
    worker_step cap w (w\<lparr>wk_tokens := wk_tokens w + 1, wk_taken := wk_taken w + 1\<rparr>)"
| count: "0 < wk_taken w \<Longrightarrow>
    worker_step cap w (count_worker (w\<lparr>wk_taken := wk_taken w - 1, wk_busy := wk_busy w + 1\<rparr>))"
| give_token: "0 < wk_busy w \<Longrightarrow> 0 < wk_tokens w \<Longrightarrow>
    worker_step cap w (w\<lparr>wk_tokens := wk_tokens w - 1, wk_busy := wk_busy w - 1, wk_leaving := wk_leaving w + 1\<rparr>)"
| uncount: "0 < wk_leaving w \<Longrightarrow>
    worker_step cap w (uncount_worker (w\<lparr>wk_leaving := wk_leaving w - 1\<rparr>))"

definition no_workers :: "workers" where
  "no_workers = \<lparr>wk_tokens = 0, wk_taken = 0, wk_busy = 0, wk_leaving = 0, wk_in_flight = 0, wk_peak = 0\<rparr>"

inductive worker_reach :: "nat \<Rightarrow> workers \<Rightarrow> bool" for cap where
  idle: "worker_reach cap no_workers"
| move: "worker_reach cap w \<Longrightarrow> worker_step cap w w' \<Longrightarrow> worker_reach cap w'"

inductive_cases worker_stepE: "worker_step cap w w'"

lemma worker_invariant:
  "worker_reach cap w \<Longrightarrow>
     wk_tokens w = wk_taken w + wk_busy w \<and> wk_tokens w \<le> cap \<and>
     wk_in_flight w = int (wk_busy w) + int (wk_leaving w) \<and> wk_in_flight w \<le> wk_peak w"
proof (induction rule: worker_reach.induct)
  case idle
  then show ?case by (simp add: no_workers_def)
next
  case (move w w')
  from move.hyps(2) move.IH show ?case
    by (cases rule: worker_step.cases) (auto simp: count_worker_def uncount_worker_def Let_def)
qed

text \<open>However the goroutines interleave, never more requests are at work than the configured
  limit; the in-flight counter is exactly the requests at work and those on their way out; and no
  request is blocked from leaving.\<close>

theorem workers_bounded:
  assumes "worker_reach cap w"
  shows "wk_busy w \<le> cap \<and> wk_in_flight w = int (wk_busy w + wk_leaving w) \<and> wk_in_flight w \<le> wk_peak w \<and>
    (wk_busy w = 0 \<or> (\<exists>w'. worker_step cap w w' \<and> wk_busy w' = wk_busy w - 1))"
proof -
  note i = worker_invariant [OF assms]
  have "\<exists>w'. worker_step cap w w' \<and> wk_busy w' = wk_busy w - 1" if "wk_busy w \<noteq> 0"
    using worker_step.give_token [of w cap] that i by fastforce
  then show ?thesis using i by auto
qed

text \<open>
  The in-flight counter itself is not bounded by the limit: a token that was given back can be
  taken and counted again before its last owner is uncounted, so the peak that is reported can
  exceed the configured limit, here 2 with one worker.
\<close>

lemma peak_exceeds_limit: "\<exists>w. worker_reach 1 w \<and> wk_peak w = 2"
proof -
  let ?w1 = "no_workers\<lparr>wk_tokens := 1, wk_taken := 1\<rparr>"
  let ?w2 = "no_workers\<lparr>wk_tokens := 1, wk_busy := 1, wk_in_flight := 1, wk_peak := 1\<rparr>"
  let ?w3 = "no_workers\<lparr>wk_leaving := 1, wk_in_flight := 1, wk_peak := 1\<rparr>"
  let ?w4 = "no_workers\<lparr>wk_tokens := 1, wk_taken := 1, wk_leaving := 1, wk_in_flight := 1, wk_peak := 1\<rparr>"
  let ?w5 = "no_workers\<lparr>wk_tokens := 1, wk_busy := 1, wk_leaving := 1, wk_in_flight := 2, wk_peak := 2\<rparr>"
  have "worker_step 1 no_workers ?w1"
    using worker_step.take_token [of no_workers 1] by (simp add: no_workers_def)
  moreover have "worker_step 1 ?w1 ?w2"
    using worker_step.count [of ?w1 1] by (simp add: no_workers_def count_worker_def)
  moreover have "worker_step 1 ?w2 ?w3"
    using worker_step.give_token [of ?w2 1] by (simp add: no_workers_def)
  moreover have "worker_step 1 ?w3 ?w4"
    using worker_step.take_token [of ?w3 1] by (simp add: no_workers_def)
  moreover have "worker_step 1 ?w4 ?w5"
    using worker_step.count [of ?w4 1] by (simp add: no_workers_def count_worker_def)
  ultimately have "worker_reach 1 ?w5"
    by (meson worker_reach.idle worker_reach.move)
  then show ?thesis by (intro exI [of _ ?w5]) simp
qed

theorem workers_witness:
  "wk_busy (no_workers\<lparr>wk_tokens := 1, wk_taken := 1\<rparr>) \<le> 1"
proof -
  have "worker_step 1 no_workers (no_workers\<lparr>wk_tokens := 1, wk_taken := 1\<rparr>)"
    using worker_step.take_token [of no_workers 1] by (simp add: no_workers_def)
  then have "worker_reach 1 (no_workers\<lparr>wk_tokens := 1, wk_taken := 1\<rparr>)"
    by (rule worker_reach.move [OF worker_reach.idle])
  from workers_bounded [OF this] show ?thesis by blast
qed

end
