(* ===== verification/Dns_Store.thy ===== *)
theory Dns_Store
  imports Dns_Shadow Safety_File Transaction
begin

text \<open>
  \<^verbatim>\<open>modules/dns/runtime/dns_policy_store.go\<close> and the policy handlers of \<^verbatim>\<open>dns_module_server.go\<close>: the
  persisted rule document, how it is loaded and saved, the preview and the design that are shown
  before an activation, and what the handlers answer. The JSON codec, the decoded request and the
  inventory that was read from the router are arguments.
\<close>

subsection \<open>The document on disk\<close>

definition store_load ::
    "(string \<Rightarrow> go_error + rules_document) \<Rightarrow> string \<Rightarrow> rules_document io" where
  "store_load decode path s =
     (if path = [] then (Inl (Msg ''policy store path is empty''), s)
      else case fs_read_file path s of
        (Inl e, s1) \<Rightarrow>
          (if is_not_exist e then (Inr \<lparr>rd_version = rules_schema_version, rd_updated = zero_time, rd_rules = []\<rparr>, s1)
           else (Inl (Wrap ''read policy rules: '' e), s1))
      | (Inr data, s1) \<Rightarrow>
          (case decode data of
             Inl e \<Rightarrow> (Inl (Wrap ''decode policy rules: '' e), s1)
           | Inr doc \<Rightarrow>
               if rd_version doc \<noteq> rules_schema_version
               then (Inl (Msg (''unsupported policy rules schema version '' @ itoa (rd_version doc))), s1)
               else case validate_rules (rd_rules doc) None of
                 Inl e \<Rightarrow> (Inl (Wrap ''validate policy rules: '' e), s1)
               | Inr _ \<Rightarrow> (Inr doc, s1)))"

text \<open>The temporary file is removed on every error; its handle is closed first while it is open.\<close>

definition drop_temp :: "bool \<Rightarrow> string \<Rightarrow> os \<Rightarrow> os" where
  "drop_temp still_open tmp s = snd (fs_remove tmp (if still_open then snd (fs_close tmp s) else s))"

definition save_temp :: "string \<Rightarrow> string \<Rightarrow> string \<Rightarrow> unit io" where
  "save_temp path data tmp s =
     (case fs_chmod tmp 384 s of
        (Inl e, s1) \<Rightarrow> (Inl (Wrap ''chmod policy rules temp file: '' e), drop_temp True tmp s1)
      | (Inr _, s1) \<Rightarrow>
        (case fs_write tmp data s1 of
           (Inl e, s2) \<Rightarrow> (Inl (Wrap ''write policy rules temp file: '' e), drop_temp True tmp s2)
         | (Inr _, s2) \<Rightarrow>
           (case fs_sync tmp s2 of
              (Inl e, s3) \<Rightarrow> (Inl (Wrap ''sync policy rules temp file: '' e), drop_temp True tmp s3)
            | (Inr _, s3) \<Rightarrow>
              (case fs_close tmp s3 of
                 (Inl e, s4) \<Rightarrow> (Inl (Wrap ''close policy rules temp file: '' e), drop_temp False tmp s4)
               | (Inr _, s4) \<Rightarrow>
                 (case fs_rename tmp path s4 of
                    (Inl e, s5) \<Rightarrow> (Inl (Wrap ''replace policy rules: '' e), drop_temp False tmp s5)
                  | (Inr _, s5) \<Rightarrow> (Inr (), s5))))))"

definition temp_pattern :: "string" where
  "temp_pattern = ''.dns-policy-rules-*.tmp''"

definition save_bytes :: "string \<Rightarrow> string \<Rightarrow> unit io" where
  "save_bytes path data =
     io_bind (io_wrap ''create policy store directory: '' (fs_mkdir_all (path_dir path) 493)) (\<lambda>_.
     io_bind (io_wrap ''create policy rules temp file: '' (fs_create_temp (path_dir path) temp_pattern)) (\<lambda>tmp.
       save_temp path data tmp))"

definition store_save ::
    "(rules_document \<Rightarrow> go_error + string) \<Rightarrow> time \<Rightarrow> string \<Rightarrow> policy_rule list \<Rightarrow> rules_document io" where
  "store_save encode now path rules s =
     (if path = [] then (Inl (Msg ''policy store path is empty''), s)
      else let doc = \<lparr>rd_version = rules_schema_version, rd_updated = now, rd_rules = rules\<rparr> in
        case encode doc of
          Inl e \<Rightarrow> (Inl (Wrap ''encode policy rules: '' e), s)
        | Inr data \<Rightarrow>
            (case save_bytes path (data @ [CHR 0x0A]) s of
               (Inl e, s1) \<Rightarrow> (Inl e, s1)
             | (Inr _, s1) \<Rightarrow> (Inr doc, s1)))"

subsection \<open>The store is an atomic publisher\<close>

definition store_target :: "string \<Rightarrow> bool" where
  "store_target d \<longleftrightarrow> target_ok d \<and> has_suffix d ''.json''"

lemma temp_pattern_name: "temp_name dir temp_pattern x = dir_prefix dir @ ''.dns-policy-rules-'' @ x @ ''.tmp''"
proof -
  have "split_char (CHR ''*'') temp_pattern = [''.dns-policy-rules-'', ''.tmp'']"
    by code_simp
  then show ?thesis by (simp add: temp_name_def)
qed

lemma temp_away: "store_target d \<Longrightarrow> temp_name dir temp_pattern x \<noteq> d"
proof
  assume "store_target d" and "temp_name dir temp_pattern x = d"
  then obtain t where "t @ ''.json'' = dir_prefix dir @ ''.dns-policy-rules-'' @ x @ ''.tmp''"
    by (auto simp: store_target_def has_suffix_iff temp_pattern_name)
  then have "last (t @ ''.json'') = last (dir_prefix dir @ ''.dns-policy-rules-'' @ x @ ''.tmp'')"
    by (rule arg_cong)
  then show False by simp
qed

lemma drop_temp_result:
  assumes "q \<noteq> tmp"
  shows "node_at (drop_temp b tmp s) q = node_at s q"
proof -
  have rm: "node_at u2 q = node_at u q" if "fs_remove tmp u = (r2, u2)" for u r2 u2
    using that assms unfolding fs_remove_def
    by (elim syscall_cases) (auto split: option.splits if_splits)
  have "node_at (snd (fs_close tmp s)) = node_at s"
    using fs_close_result [OF surjective_pairing] by blast
  then show ?thesis
    using rm [OF surjective_pairing] by (simp add: drop_temp_def)
qed

lemma save_temp_result:
  assumes w: "save_temp path data tmp s = (r, s')" and tmp: "node_at s tmp = Some (Regular k [])" "tmp \<noteq> path"
  shows "if is_ok r then node_at s' = ((node_at s)(tmp := None))(path \<mapsto> Regular 384 data)
     else (\<forall>q. q \<noteq> tmp \<longrightarrow> node_at s' q = node_at s q)"
proof -
  obtain r1 s1 where 1: "fs_chmod tmp 384 s = (r1, s1)" by fastforce
  obtain r2 s2 where 2: "fs_write tmp data s1 = (r2, s2)" by fastforce
  obtain r3 s3 where 3: "fs_sync tmp s2 = (r3, s3)" by fastforce
  obtain r4 s4 where 4: "fs_close tmp s3 = (r4, s4)" by fastforce
  obtain r5 s5 where 5: "fs_rename tmp path s4 = (r5, s5)" by fastforce
  have n1: "node_at s1 = (if is_ok r1 then (node_at s)(tmp \<mapsto> Regular 384 []) else node_at s)"
    using fs_chmod_result [OF 1 tmp(1)] by (cases r1) auto
  show ?thesis
  proof (cases r1)
    case (Inl e)
    then have "\<not> is_ok r" "s' = drop_temp True tmp s1"
      using w by (auto simp: save_temp_def 1)
    then show ?thesis using n1 drop_temp_result Inl by simp
  next
    case r1: (Inr u)
    then have "node_at s1 tmp = Some (Regular 384 [])" using n1 by simp
    from fs_write_result [OF 2 this]
    have n2: "node_at s2 = (node_at s)(tmp \<mapsto> Regular 384 (if is_ok r2 then data else []))"
      using n1 r1 by (cases r2) auto
    have n4: "node_at s4 = node_at s2" "node_at s3 = node_at s2"
      using fs_sync_result [OF 3] fs_close_result [OF 4] by auto
    have "node_at s4 tmp = Some (Regular 384 (if is_ok r2 then data else []))"
      using n2 n4 by simp
    from fs_rename_file_result [OF 5 this tmp(2)]
    have n5: "node_at s5 = (if is_ok r5 then ((node_at s)(tmp := None))(path \<mapsto> Regular 384 (if is_ok r2 then data else []))
        else (node_at s)(tmp \<mapsto> Regular 384 (if is_ok r2 then data else [])))"
      using n2 n4 by (cases r5) auto
    consider (bad2) e where "r2 = Inl e" | (bad3) u e where "r2 = Inr u" "r3 = Inl e"
      | (bad4) u v e where "r2 = Inr u" "r3 = Inr v" "r4 = Inl e"
      | (bad5) u v w e where "r2 = Inr u" "r3 = Inr v" "r4 = Inr w" "r5 = Inl e"
      | (good) u v w x where "r2 = Inr u" "r3 = Inr v" "r4 = Inr w" "r5 = Inr x"
      by (cases r2; cases r3; cases r4; cases r5) blast+
    then show ?thesis
    proof cases
      case bad2
      then have "\<not> is_ok r" "s' = drop_temp True tmp s2"
        using w r1 by (auto simp: save_temp_def 1 2)
      then show ?thesis using n2 drop_temp_result by simp
    next
      case bad3
      then have "\<not> is_ok r" "s' = drop_temp True tmp s3"
        using w r1 by (auto simp: save_temp_def 1 2 3)
      then show ?thesis using n2 n4 drop_temp_result by simp
    next
      case bad4
      then have "\<not> is_ok r" "s' = drop_temp False tmp s4"
        using w r1 by (auto simp: save_temp_def 1 2 3 4)
      then show ?thesis using n2 n4 drop_temp_result by simp
    next
      case bad5
      then have "\<not> is_ok r" "s' = drop_temp False tmp s5"
        using w r1 by (auto simp: save_temp_def 1 2 3 4 5)
      then show ?thesis using n5 bad5 drop_temp_result by simp
    next
      case good
      then have "is_ok r" "s' = s5"
        using w r1 by (auto simp: save_temp_def 1 2 3 4 5)
      then show ?thesis using n5 good by simp
    qed
  qed
qed

lemma save_bytes_result:
  assumes away: "\<And>x. temp_name (path_dir path) temp_pattern x \<noteq> path"
    and own: "path \<notin> set (ancestors_from [slash] (elems (path_dir path)))"
    and w: "save_bytes path data s = (r, s')"
  shows "(\<forall>p. p \<noteq> path \<longrightarrow> node_at s p \<noteq> None \<longrightarrow> node_at s' p = node_at s p) \<and>
     (if is_ok r then node_at s' path = Some (Regular 384 data) else node_at s' path = node_at s path)"
proof -
  obtain r1 s1 where 1: "fs_mkdir_all (path_dir path) 493 s = (r1, s1)" by fastforce
  obtain r2 tmps2 where 2: "fs_create_temp (path_dir path) temp_pattern s1 = (r2, tmps2)" by fastforce
  have dirs: "node_at s1 p = node_at s p \<or> (node_at s p = None \<and> node_at s1 p = Some (Directory 493))" for p
    using fs_mkdir_all_result [OF 1] by blast
  then have old: "node_at s1 p = node_at s p" if "node_at s p \<noteq> None" for p
    using that by metis
  have "touches (set (ancestors_from [slash] (elems (path_dir path)))) (fs_mkdir_all (path_dir path) 493)"
    by (rule touches_mkdir_all) simp
  from touchesD [OF this 1] own have here: "node_at s1 path = node_at s path"
    by (simp add: same_except_def)
  show ?thesis
  proof (cases r1)
    case (Inl e)
    then have "\<not> is_ok r" "s' = s1"
      using w by (auto simp: save_bytes_def io_bind_def io_wrap_def 1)
    then show ?thesis using old here by simp
  next
    case ok1: (Inr u)
    show ?thesis
    proof (cases r2)
      case (Inl e)
      then have "\<not> is_ok r" "node_at s' = node_at s1"
        using w ok1 fs_create_temp_result [OF 2] by (auto simp: save_bytes_def io_bind_def io_wrap_def 1 2)
      then show ?thesis using old here by simp
    next
      case (Inr tmp)
      have t: "tmp \<noteq> path" "node_at s1 tmp = None" "node_at tmps2 = (node_at s1)(tmp \<mapsto> Regular 384 [])"
        using fs_create_temp_result [OF 2] away Inr by auto
      have body: "save_temp path data tmp tmps2 = (r, s')"
        using w ok1 Inr by (simp add: save_bytes_def io_bind_def io_wrap_def 1 2)
      have st: "if is_ok r then node_at s' = ((node_at tmps2)(tmp := None))(path \<mapsto> Regular 384 data)
         else (\<forall>q. q \<noteq> tmp \<longrightarrow> node_at s' q = node_at tmps2 q)"
        by (rule save_temp_result [OF body _ t(1), of 384]) (simp add: t)
      have other: "node_at s' p = node_at s1 p" if "p \<noteq> path" "p \<noteq> tmp" for p
        using st t that by (auto split: if_splits)
      have new: "node_at s tmp = None" using old t(2) by metis
      have keep: "node_at s' p = node_at s p" if "p \<noteq> path" "node_at s p \<noteq> None" for p
      proof -
        have "p \<noteq> tmp" using new that(2) by auto
        then show ?thesis using other [OF that(1)] old [OF that(2)] by simp
      qed
      have "if is_ok r then node_at s' path = Some (Regular 384 data) else node_at s' path = node_at s1 path"
        using st t by (auto split: if_splits)
      then show ?thesis using keep here by auto
    qed
  qed
qed

text \<open>The second publisher of the program keeps the contract of the first.\<close>

interpretation rules_file: atomic_writer "\<lambda>d c m. save_bytes d c" "\<lambda>m. 384" store_target
proof (unfold_locales, goal_cases)
  case (1 d c m s s')
  then show ?case
    using save_bytes_result [OF temp_away [OF 1(1)] not_own_ancestor 1(2)] by (simp add: store_target_def target_ok_def)
next
  case (2 d c m s e s')
  then show ?case
    using save_bytes_result [OF temp_away [OF 2(1)] not_own_ancestor 2(2)] by (simp add: store_target_def target_ok_def)
next
  case (3 d c m s r s' p)
  then show ?case
    using save_bytes_result [OF temp_away [OF 3(1)] not_own_ancestor 3(2)] by (simp add: store_target_def target_ok_def)
qed

subsection \<open>Preview and design of an activation\<close>

definition preview_before :: "string \<Rightarrow> string \<Rightarrow> bool" where
  "preview_before a b =
     (if a = ''System'' then True
      else if b = ''System'' then False
      else case (proxy_ordinal a, proxy_ordinal b) of
        (Some i, Some j) \<Rightarrow> if i \<noteq> j then i < j else a < b
      | (Some i, None) \<Rightarrow> True
      | (None, Some j) \<Rightarrow> False
      | (None, None) \<Rightarrow> a < b)"

record activation_preview =
  ap_version :: int
  ap_updated :: time
  ap_persisted :: int
  ap_active :: int
  ap_policies :: "string list"
  ap_ready :: bool
  ap_activated :: bool
  ap_changes :: "(string \<times> string \<times> string) list"
  ap_evidence :: "string list"

text \<open>The map from policy names has one entry for each policy that some rule names.\<close>

definition preview_policies :: "policy_rule list \<Rightarrow> string list" where
  "preview_policies rules =
     (let names = remdups (map pr_policy rules);
          policies = sort_by (<) (map po_proxy (inventory_from_names (map (\<lambda>p. (p, p)) names)))
      in if length policies > 1 then sort_by preview_before policies else policies)"

definition build_preview :: "rules_document \<Rightarrow> policy_rule list \<Rightarrow> activation_preview" where
  "build_preview doc rules =
     \<lparr>ap_version = rd_version doc, ap_updated = rd_updated doc, ap_persisted = int (length rules), ap_active = 0,
      ap_policies = preview_policies rules, ap_ready = True, ap_activated = False,
      ap_changes = [(''policy_rules'', ''inactive (0 active policy-router rules)'',
         ''persisted ('' @ itoa (int (length rules)) @ '' validated rules)'')],
      ap_evidence = [''persisted document loaded'', ''schema version '' @ itoa (rd_version doc) @ '' accepted'',
        ''rules validated against live Keenetic policy inventory'', ''runtime activation remains disabled'']\<rparr>"

subsection \<open>The handlers\<close>

datatype rules_reply =
    ErrorReply string
  | DocumentReply rules_document
  | ConflictReply string
  | EvaluationReply policy_evaluation int time
  | PreviewReply activation_preview

definition inventory_allowed :: "policy_option list \<Rightarrow> string \<Rightarrow> bool" where
  "inventory_allowed inventory name \<longleftrightarrow> list_ex (\<lambda>item. po_proxy item = name) inventory"

type_synonym 'a decoded = "(go_error + 'a) \<times> bool"

text \<open>GET and HEAD of \<^verbatim>\<open>/v1/policy-rules\<close>.\<close>

definition rules_get ::
    "(string \<Rightarrow> go_error + rules_document) \<Rightarrow> string \<Rightarrow> os \<Rightarrow> (nat \<times> rules_reply) \<times> os" where
  "rules_get decode path s =
     (case store_load decode path s of
        (Inl e, s1) \<Rightarrow> ((500, ErrorReply (error_text e)), s1)
      | (Inr doc, s1) \<Rightarrow> ((200, DocumentReply doc), s1))"

definition mutation_guard :: "string \<Rightarrow> string \<Rightarrow> string \<Rightarrow> (nat \<times> string) option" where
  "mutation_guard action content_type verb =
     (if action \<noteq> ''dns-control'' then Some (403, ''missing RouterForge mutation header'')
      else if verb \<noteq> ''DELETE'' \<and> \<not> has_prefix (to_lower content_type) ''application/json''
      then Some (415, ''application/json required'')
      else None)"

text \<open>
  PUT: \<open>body\<close> is the first decoded value of the request and whether nothing follows it.
\<close>

definition rules_put ::
    "(rules_document \<Rightarrow> go_error + string) \<Rightarrow> time \<Rightarrow> string \<Rightarrow> string \<Rightarrow> policy_rule list decoded \<Rightarrow>
     (go_error + policy_option list) \<Rightarrow> string \<Rightarrow> os \<Rightarrow> (nat \<times> rules_reply) \<times> os" where
  "rules_put encode now action content_type body inventory path s =
     (case mutation_guard action content_type ''PUT'' of
        Some (code, msg) \<Rightarrow> ((code, ErrorReply msg), s)
      | None \<Rightarrow>
     (case fst body of
        Inl e \<Rightarrow> ((400, ErrorReply (error_text e)), s)
      | Inr raw \<Rightarrow>
     (if \<not> snd body then ((400, ErrorReply ''only one JSON object is allowed''), s)
      else case inventory of
        Inl e \<Rightarrow> ((502, ErrorReply (error_text e)), s)
      | Inr items \<Rightarrow>
     (case validate_rules raw (Some (inventory_allowed items)) of
        Inl e \<Rightarrow> ((400, ErrorReply (error_text e)), s)
      | Inr rules \<Rightarrow>
     (case store_save encode now path rules s of
        (Inl e, s1) \<Rightarrow> ((500, ErrorReply (error_text e)), s1)
      | (Inr doc, s1) \<Rightarrow> ((200, DocumentReply doc), s1))))))"

text \<open>The steps the evaluation and the preview share: load, inventory, validation against it.\<close>

definition loaded_rules ::
    "(string \<Rightarrow> go_error + rules_document) \<Rightarrow> (go_error + policy_option list) \<Rightarrow> string \<Rightarrow>
     (rules_document \<Rightarrow> policy_rule list \<Rightarrow> (string \<Rightarrow> bool) \<Rightarrow> nat \<times> rules_reply) \<Rightarrow> os \<Rightarrow> (nat \<times> rules_reply) \<times> os" where
  "loaded_rules decode inventory path k s =
     (case store_load decode path s of
        (Inl e, s1) \<Rightarrow> ((500, ErrorReply (error_text e)), s1)
      | (Inr doc, s1) \<Rightarrow>
     (case inventory of
        Inl e \<Rightarrow> ((502, ErrorReply (error_text e)), s1)
      | Inr items \<Rightarrow>
     (case validate_rules (rd_rules doc) (Some (inventory_allowed items)) of
        Inl e \<Rightarrow> ((409, ConflictReply (error_text e)), s1)
      | Inr rules \<Rightarrow> (k doc rules (inventory_allowed items), s1))))"

record evaluate_request =
  er_client :: string
  er_domain :: string
  er_qtype :: string

definition evaluate_persisted ::
    "(string \<Rightarrow> go_error + rules_document) \<Rightarrow> string \<Rightarrow> string \<Rightarrow> evaluate_request decoded \<Rightarrow>
     (go_error + policy_option list) \<Rightarrow> string \<Rightarrow> os \<Rightarrow> (nat \<times> rules_reply) \<times> os" where
  "evaluate_persisted decode verb content_type body inventory path s =
     (if verb \<noteq> ''POST'' then ((405, ErrorReply ''POST required''), s)
      else if \<not> has_prefix (to_lower content_type) ''application/json''
      then ((415, ErrorReply ''application/json required''), s)
      else case fst body of
        Inl e \<Rightarrow> ((400, ErrorReply (error_text e)), s)
      | Inr rq \<Rightarrow>
     (if \<not> snd body then ((400, ErrorReply ''only one JSON object is allowed''), s)
      else loaded_rules decode inventory path (\<lambda>doc rules allowed.
        case evaluate_policy \<lparr>rq_client = er_client rq, rq_domain = er_domain rq, rq_qtype = er_qtype rq, rq_rules = rules\<rparr>
               (Some allowed) of
          Inl e \<Rightarrow> (400, ErrorReply (error_text e))
        | Inr ev \<Rightarrow> (200, EvaluationReply ev (rd_version doc) (rd_updated doc))) s))"

definition preview_activation ::
    "(string \<Rightarrow> go_error + rules_document) \<Rightarrow> (go_error + policy_option list) \<Rightarrow> string \<Rightarrow> os \<Rightarrow> (nat \<times> rules_reply) \<times> os" where
  "preview_activation decode inventory path s =
     loaded_rules decode inventory path (\<lambda>doc rules allowed. (200, PreviewReply (build_preview doc rules))) s"

subsection \<open>What is put is what is read\<close>

lemma store_save_result:
  assumes "store_target path" and "store_save encode now path rules s = (r, s')"
  shows "case r of
      Inr doc \<Rightarrow> doc = \<lparr>rd_version = rules_schema_version, rd_updated = now, rd_rules = rules\<rparr> \<and>
        (\<exists>data. encode doc = Inr data \<and> node_at s' path = Some (Regular 384 (data @ [CHR 0x0A])))
    | Inl e \<Rightarrow> node_at s' path = node_at s path"
proof -
  have path: "path \<noteq> []" using assms(1) by (auto simp: store_target_def has_suffix_iff)
  let ?doc = "\<lparr>rd_version = rules_schema_version, rd_updated = now, rd_rules = rules\<rparr>"
  show ?thesis
  proof (cases "encode ?doc")
    case (Inl e)
    then show ?thesis using assms(2) path by (auto simp: store_save_def)
  next
    case (Inr data)
    obtain r1 s1 where 1: "save_bytes path (data @ [CHR 0x0A]) s = (r1, s1)" by fastforce
    have stored: "node_at s1 path = (if is_ok r1 then Some (Regular 384 (data @ [CHR 0x0A])) else node_at s path)"
      by (rule rules_file.old_or_new [OF assms(1) 1])
    show ?thesis
      using assms(2) path Inr 1 stored by (cases r1) (auto simp: store_save_def Let_def)
  qed
qed

lemma store_save_elsewhere:
  assumes "store_target path" and "store_save encode now path rules s = (r, s')" and "p \<noteq> path" and "node_at s p \<noteq> None"
  shows "node_at s' p = node_at s p"
proof -
  have path: "path \<noteq> []" using assms(1) by (auto simp: store_target_def has_suffix_iff)
  let ?doc = "\<lparr>rd_version = rules_schema_version, rd_updated = now, rd_rules = rules\<rparr>"
  show ?thesis
  proof (cases "encode ?doc")
    case (Inl e)
    then show ?thesis using assms(2) path by (auto simp: store_save_def)
  next
    case (Inr data)
    obtain r1 s1 where 1: "save_bytes path (data @ [CHR 0x0A]) s = (r1, s1)" by fastforce
    have "node_at s1 p = node_at s p"
      by (rule rules_file.elsewhere [OF assms(1) 1 assms(3,4)])
    then show ?thesis
      using assms(2) path Inr 1 by (cases r1) (auto simp: store_save_def Let_def)
  qed
qed

text \<open>The codec of the document: what \<^verbatim>\<open>MarshalIndent\<close> wrote, a final newline added, is read back by
  \<^verbatim>\<open>Unmarshal\<close>.\<close>

definition codec_ok :: "(rules_document \<Rightarrow> go_error + string) \<Rightarrow> (string \<Rightarrow> go_error + rules_document) \<Rightarrow> bool" where
  "codec_ok encode decode \<longleftrightarrow> (\<forall>doc data. encode doc = Inr data \<longrightarrow> decode (data @ [CHR 0x0A]) = Inr doc)"

text \<open>Reading a plain file back when no call fails.\<close>

lemma read_plain_file:
  assumes "node_at s p = Some (Regular m c)" and "faults s = []"
  shows "fst (fs_read_file p s) = Inr c"
proof -
  have "follow_link max_links s p = Inr (Regular m c)"
    using assms(1) by (subst follow_link.simps) simp
  then show ?thesis
    using assms(2) by (cases s) (simp add: fs_read_file_def syscall_def)
qed

lemma put_then_get:
  assumes codec: "codec_ok encode decode"
    and path: "store_target path"
    and put: "rules_put encode now action content_type body inventory path s = ((200, reply), s1)"
    and calm: "faults s2 = []" and same: "node_at s2 path = node_at s1 path"
  obtains raw items out where "fst body = Inr raw" and "inventory = Inr items"
    and "validate_rules raw (Some (inventory_allowed items)) = Inr out"
    and "reply = DocumentReply \<lparr>rd_version = rules_schema_version, rd_updated = now, rd_rules = out\<rparr>"
    and "fst (store_load decode path s2) = Inr \<lparr>rd_version = rules_schema_version, rd_updated = now, rd_rules = out\<rparr>"
proof -
  obtain raw items out doc where raw: "fst body = Inr raw" and items: "inventory = Inr items"
    and out: "validate_rules raw (Some (inventory_allowed items)) = Inr out"
    and save: "store_save encode now path out s = (Inr doc, s1)" and reply: "reply = DocumentReply doc"
    using put by (auto simp: rules_put_def mutation_guard_def split: option.splits sum.splits prod.splits if_splits)
  have doc: "doc = \<lparr>rd_version = rules_schema_version, rd_updated = now, rd_rules = out\<rparr>"
    and stored: "\<exists>data. encode doc = Inr data \<and> node_at s1 path = Some (Regular 384 (data @ [CHR 0x0A]))"
    using store_save_result [OF path save] by auto
  then obtain data where data: "encode doc = Inr data" "node_at s2 path = Some (Regular 384 (data @ [CHR 0x0A]))"
    using same by auto
  obtain s3 where "fs_read_file path s2 = (Inr (data @ [CHR 0x0A]), s3)"
    using read_plain_file [OF data(2) calm] by (metis prod.collapse)
  moreover have "path \<noteq> []" using path by (auto simp: store_target_def has_suffix_iff)
  ultimately have "fst (store_load decode path s2) = Inr doc"
    using codec data(1) validated_rules_reload(1) [OF out] by (simp add: store_load_def codec_ok_def doc)
  then show thesis using that raw items out reply doc by blast
qed


text \<open>Saving the rules is all or nothing on disk: whichever call fails, the file of the store
  holds the complete new document exactly when the caller is told so, otherwise what it held
  before; and no other file changes. A refused PUT in particular leaves the stored rules alone.\<close>

theorem rules_are_saved_atomically:
  assumes "store_target path"
    and "rules_put encode now action content_type body inventory path s = ((code, reply), s')"
  shows "(if code = 200 then \<exists>doc data. reply = DocumentReply doc \<and> encode doc = Inr data \<and>
             node_at s' path = Some (Regular 384 (data @ [CHR 0x0A]))
          else node_at s' path = node_at s path) \<and>
     (\<forall>p. p \<noteq> path \<and> node_at s p \<noteq> None \<longrightarrow> node_at s' p = node_at s p)"
proof (cases "\<exists>out r. store_save encode now path out s = (r, s') \<and>
    ((code, reply) = (case r of Inl e \<Rightarrow> (500, ErrorReply (error_text e)) | Inr doc \<Rightarrow> (200, DocumentReply doc)))")
  case True
  then obtain out r where r: "store_save encode now path out s = (r, s')"
    "(code, reply) = (case r of Inl e \<Rightarrow> (500, ErrorReply (error_text e)) | Inr doc \<Rightarrow> (200, DocumentReply doc))"
    by blast
  show ?thesis
    using store_save_result [OF assms(1) r(1)] store_save_elsewhere [OF assms(1) r(1)] r(2)
    by (cases r) auto
next
  case False
  then have "s' = s \<and> code \<noteq> 200"
    using assms(2)
    by (auto simp: rules_put_def mutation_guard_def split: option.splits sum.splits prod.splits if_splits)
  then show ?thesis by simp
qed

definition example_rules :: "policy_rule list" where
  "example_rules = [sample_rule '' r1 '' 5 ''system'' [] ''Corp.'', sample_rule ''r0'' 5 ''System'' [] []]"

definition example_document :: "rules_document" where
  "example_document = \<lparr>rd_version = 1, rd_updated = 42,
     rd_rules = [sample_rule ''r0'' 5 ''System'' [] [], sample_rule ''r1'' 5 ''System'' [] ''corp'']\<rparr>"

definition example_encode :: "rules_document \<Rightarrow> go_error + string" where
  "example_encode doc = (if doc = example_document then Inr ''{}'' else Inl ErrIO)"

definition example_decode :: "string \<Rightarrow> go_error + rules_document" where
  "example_decode data = (if data = ''{}'' @ [CHR 0x0A] then Inr example_document else Inl ErrIO)"

definition example_inventory :: "go_error + policy_option list" where
  "example_inventory = Inr [\<lparr>po_proxy = ''System'', po_display = ''System'', po_system = True, po_ordinal = 0\<rparr>]"

definition rules_path :: "string" where
  "rules_path = ''/opt/etc/routerforge/dns-policy-rules.json''"

definition store_os :: "bool list \<Rightarrow> os" where
  "store_os fs = \<lparr>tree = [(''/opt'', Directory 493), (''/opt/etc'', Directory 493)],
                faults = fs, entropy = [''1''], realpath = Inr\<rparr>"

definition example_put :: "bool list \<Rightarrow> (nat \<times> rules_reply) \<times> os" where
  "example_put fs = rules_put example_encode 42 ''dns-control'' ''application/json'' (Inr example_rules, True)
     example_inventory rules_path (store_os fs)"

lemma example_codec: "codec_ok example_encode example_decode"
  by (simp add: codec_ok_def example_encode_def example_decode_def)

lemma rules_path_target: "store_target rules_path"
  by code_simp


text \<open>With the rename failing, the PUT answers 500 and no rules file appears.\<close>

theorem saved_atomically_witness:
  "fst (fst (example_put [False, False, False, False, False, False, True])) = 500 \<and>
   node_at (snd (example_put [False, False, False, False, False, False, True])) rules_path = None"
proof -
  let ?p = "example_put [False, False, False, False, False, False, True]"
  have code: "fst (fst ?p) = 500" by code_simp
  have "node_at (store_os [False, False, False, False, False, False, True]) rules_path = None" by code_simp
  moreover have "rules_put example_encode 42 ''dns-control'' ''application/json'' (Inr example_rules, True)
     example_inventory rules_path (store_os [False, False, False, False, False, False, True]) = ((500, snd (fst ?p)), snd ?p)"
    using code by (metis example_put_def prod.collapse)
  ultimately show ?thesis
    using rules_are_saved_atomically [OF rules_path_target] code by fastforce
qed

subsection \<open>The published design of an activation\<close>

record stage_design =
  sd_state :: tx_state
  sd_purpose :: string
  sd_evidence :: "string list"
  sd_on_failure :: string

record transaction_design =
  td_component :: string
  td_version :: int
  td_persisted :: int
  td_available :: bool
  td_mutates :: bool
  td_stages :: "stage_design list"
  td_terminal :: "tx_state list"
  td_artifacts :: "string list"
  td_gate :: "string list"

definition design_stages :: "stage_design list" where
  "design_stages =
    [\<lparr>sd_state = Precheck,
      sd_purpose = ''prove the persisted rule set and live policy inventory are usable before any runtime change'',
      sd_evidence = [''persisted document loaded'', ''schema version accepted'',
        ''all rules validate against current Keenetic policy inventory''],
      sd_on_failure = ''failed; no runtime mutation is permitted''\<rparr>,
     \<lparr>sd_state = Snapshot,
      sd_purpose = ''capture exact pre-activation runtime policy-router state and desired persisted document identity'',
      sd_evidence = [''pre-activation runtime snapshot captured'', ''desired persisted document identity captured'',
        ''rollback artifact is readable before apply''],
      sd_on_failure = ''failed; no runtime mutation is permitted''\<rparr>,
     \<lparr>sd_state = Validated,
      sd_purpose = ''freeze the canonical desired rule set and activation plan after snapshot creation'',
      sd_evidence = [''canonical validated rules frozen'', ''policy inventory rechecked after snapshot'',
        ''activation input is unchanged since precheck''],
      sd_on_failure = ''failed; no runtime mutation is permitted''\<rparr>,
     \<lparr>sd_state = Applied,
      sd_purpose = ''future activation implementation atomically installs the staged runtime policy-router state'',
      sd_evidence = [''apply operation returned success'', ''runtime accepted the staged policy-router configuration''],
      sd_on_failure = ''attempt rollback to the exact pre-activation snapshot; unresolved state becomes ambiguous''\<rparr>,
     \<lparr>sd_state = Verified,
      sd_purpose = ''prove the active runtime state matches the staged desired configuration before commit'',
      sd_evidence = [''active runtime identity matches staged desired identity'', ''runtime health check passes'',
        ''policy-router evaluation probes match the staged rule set''],
      sd_on_failure = ''rollback to the exact pre-activation snapshot and verify recovery; unresolved state becomes ambiguous''\<rparr>,
     \<lparr>sd_state = Committed,
      sd_purpose = ''declare activation successful only after verification evidence is complete'',
      sd_evidence = [''all required verification evidence passed'', ''transaction manifest is terminal and immutable''],
      sd_on_failure = ''not applicable; commit is reached only after verified state''\<rparr>]"

definition build_design :: "rules_document \<Rightarrow> policy_rule list \<Rightarrow> transaction_design" where
  "build_design doc rules =
     \<lparr>td_component = ''dns-policy-router'', td_version = rd_version doc, td_persisted = int (length rules),
      td_available = False, td_mutates = False, td_stages = design_stages,
      td_terminal = [Committed, RolledBack, Ambiguous, Failed],
      td_artifacts = [''exact pre-activation runtime policy-router snapshot'', ''desired persisted policy document identity'',
        ''transaction evidence manifest''],
      td_gate = [''active runtime identity equals staged desired identity'', ''runtime health is good'',
        ''policy-router evaluation probes pass'', ''no unresolved rollback or ambiguous evidence exists'']\<rparr>"

fun follows_machine :: "tx_state list \<Rightarrow> bool" where
  "follows_machine (a # b # rest) \<longleftrightarrow> can_transition a b \<and> follows_machine (b # rest)"
| "follows_machine _ \<longleftrightarrow> True"

text \<open>The stages of the design are a path of the machine that runs activations, from its first state to
  a commit, and the states the design calls terminal are the ones the machine cannot leave.\<close>

lemma design_follows_machine:
  "follows_machine (map sd_state (td_stages (build_design doc rules))) \<and>
   sd_state (hd (td_stages (build_design doc rules))) = Precheck \<and>
   sd_state (last (td_stages (build_design doc rules))) = Committed \<and>
   set (td_terminal (build_design doc rules)) = {st. tx_terminal st}"
  by (auto simp: build_design_def design_stages_def tx_terminal_def)

end
