(* ===== verification/Dns_Ingress.thy ===== *)
theory Dns_Ingress
  imports Dns_Shadow Dns_Activation
begin

text \<open>
  \<^verbatim>\<open>modules/dns/runtime/dns_policy_ingress.go\<close> and \<^verbatim>\<open>dns_policy_ingress_linux.go\<close>: the firewall rules
  that turn the clients' DNS traffic of one interface over to the RouterForge proxy. The program
  \<^verbatim>\<open>iptables\<close> is an argument: whether it is found on the path, and what a call with given arguments
  prints, returns and does to the state \<open>'s\<close> of the system. A loop that need not end is a partial
  function, so that \<open>None\<close> says that the Go function does not return.
\<close>

subsection \<open>Configuration and rule specifications\<close>

definition ingress_chain :: "string" where
  "ingress_chain = ''RF_DNS_INGRESS''"

record ingress_config =
  ic_interface :: string
  ic_listen :: string

definition validate_ingress :: "ingress_config \<Rightarrow> go_error + ingress_config" where
  "validate_ingress cfg =
     (let iface = trim_space (ic_interface cfg) in
      if iface = [] \<or> contains_any iface interface_chars then Inl (Msg ''invalid DNS ingress interface'')
      else case split_host_port (trim_space (ic_listen cfg)) of
        None \<Rightarrow> Inl (Msg ''invalid DNS ingress listen address'')
      | Some (host, port_text) \<Rightarrow>
          (case Option.bind (parse_ip host) (\<lambda>ip. map_option (Pair ip) (to4 ip)) of
             None \<Rightarrow> Inl (Msg ''DNS ingress requires an explicit non-loopback IPv4 address'')
           | Some (ip, v4) \<Rightarrow>
               if is_loopback ip \<or> is_unspecified ip
               then Inl (Msg ''DNS ingress requires an explicit non-loopback IPv4 address'')
               else (case port_in_range port_text of
                 None \<Rightarrow> Inl (Msg ''DNS ingress requires a non-53 listen port'')
               | Some port \<Rightarrow>
                   if port = 53 then Inl (Msg ''DNS ingress requires a non-53 listen port'')
                   else Inr \<lparr>ic_interface = iface, ic_listen = join_host_port (ip4_string v4) (itoa port)\<rparr>)))"

definition jump_args :: "string \<Rightarrow> string \<Rightarrow> string list" where
  "jump_args iface proto =
     [''-t'', ''nat'', ''PREROUTING'', ''-i'', iface, ''-p'', proto, ''--dport'', ''53'', ''-j'', ingress_chain]"

definition redirect_args :: "string \<Rightarrow> int \<Rightarrow> string list" where
  "redirect_args proto port =
     [''-t'', ''nat'', ingress_chain, ''-p'', proto, ''--dport'', ''53'', ''-j'', ''REDIRECT'', ''--to-ports'', itoa port]"

subsection \<open>Running iptables\<close>

record 's iptables =
  ipt_path :: "'s \<Rightarrow> go_error option"
  ipt_exec :: "string list \<Rightarrow> 's \<Rightarrow> (string \<times> go_error option) \<times> 's"

record ingress_manager =
  im_config :: ingress_config
  im_port :: int

definition ipt_run :: "'s iptables \<Rightarrow> string list \<Rightarrow> 's \<Rightarrow> (go_error + string) \<times> 's" where
  "ipt_run ipt args s =
     (case ipt_path ipt s of
        Some e \<Rightarrow> (Inl (Wrap ''iptables unavailable: '' e), s)
      | None \<Rightarrow>
          (case ipt_exec ipt args s of
             ((out, Some e), s1) \<Rightarrow>
               (Inl (Note (Wrap (''iptables '' @ join '' '' args @ '': '') e) ('': '' @ trim_space out)), s1)
           | ((out, None), s1) \<Rightarrow> (Inr out, s1)))"

definition ipt_exists :: "'s iptables \<Rightarrow> string list \<Rightarrow> 's \<Rightarrow> bool \<times> 's" where
  "ipt_exists ipt args s =
     (case ipt_path ipt s of
        Some e \<Rightarrow> (False, s)
      | None \<Rightarrow> (case ipt_exec ipt args s of ((out, e), s1) \<Rightarrow> (e = None, s1)))"

text \<open>Commands one after the other until one fails.\<close>

fun run_all :: "'s iptables \<Rightarrow> string list list \<Rightarrow> 's step" where
  "run_all ipt [] s = (None, s)"
| "run_all ipt (args # rest) s =
     (case ipt_run ipt args s of (Inl e, s1) \<Rightarrow> (Some e, s1) | (Inr _, s1) \<Rightarrow> run_all ipt rest s1)"

definition protos :: "string list" where
  "protos = [''udp'', ''tcp'']"

definition list_chain :: "string list" where
  "list_chain = [''-t'', ''nat'', ''-S'', ingress_chain]"

definition check_jump :: "ingress_manager \<Rightarrow> string \<Rightarrow> string list" where
  "check_jump m proto = [''-t'', ''nat'', ''-C'', ''PREROUTING''] @ drop 3 (jump_args (ic_interface (im_config m)) proto)"

definition delete_jump :: "ingress_manager \<Rightarrow> string \<Rightarrow> string list" where
  "delete_jump m proto = [''-t'', ''nat'', ''-D'', ''PREROUTING''] @ drop 3 (jump_args (ic_interface (im_config m)) proto)"

definition insert_jump :: "ingress_manager \<Rightarrow> string \<Rightarrow> string list" where
  "insert_jump m proto = [''-t'', ''nat'', ''-I'', ''PREROUTING'', ''1''] @ drop 3 (jump_args (ic_interface (im_config m)) proto)"

definition append_redirect :: "ingress_manager \<Rightarrow> string \<Rightarrow> string list" where
  "append_redirect m proto = [''-t'', ''nat'', ''-A'', ingress_chain] @ drop 3 (redirect_args proto (im_port m))"

definition check_redirect :: "ingress_manager \<Rightarrow> string \<Rightarrow> string list" where
  "check_redirect m proto = [''-t'', ''nat'', ''-C'', ingress_chain] @ drop 3 (redirect_args proto (im_port m))"

definition flush_chain :: "string list" where
  "flush_chain = [''-t'', ''nat'', ''-F'', ingress_chain]"

definition delete_chain :: "string list" where
  "delete_chain = [''-t'', ''nat'', ''-X'', ingress_chain]"

definition new_chain :: "string list" where
  "new_chain = [''-t'', ''nat'', ''-N'', ingress_chain]"

subsection \<open>The manager\<close>

primrec delete_up_to :: "nat \<Rightarrow> 's iptables \<Rightarrow> string list \<Rightarrow> 's \<Rightarrow> 's" where
  "delete_up_to 0 ipt args s = s"
| "delete_up_to (Suc n) ipt args s =
     (case ipt_run ipt args s of (Inl _, s1) \<Rightarrow> s1 | (Inr _, s1) \<Rightarrow> delete_up_to n ipt args s1)"

definition reconcile_stale :: "'s iptables \<Rightarrow> ingress_manager \<Rightarrow> 's step" where
  "reconcile_stale ipt m s =
     (let s1 = fold (\<lambda>proto. delete_up_to 8 ipt (delete_jump m proto)) protos s;
          (stale, s2) = ipt_exists ipt list_chain s1
      in if stale then
           (let s3 = snd (ipt_run ipt flush_chain s2) in
            case ipt_run ipt delete_chain s3 of (Inl e, s4) \<Rightarrow> (Some e, s4) | (Inr _, s4) \<Rightarrow> (None, s4))
         else (None, s2))"

definition ingress_precheck :: "'s iptables \<Rightarrow> 's step" where
  "ingress_precheck ipt s =
     (case ipt_path ipt s of
        Some e \<Rightarrow> (Some (Wrap ''iptables unavailable: '' e), s)
      | None \<Rightarrow>
          (case ipt_run ipt [''-t'', ''nat'', ''-S'', ''PREROUTING''] s of
             (Inl e, s1) \<Rightarrow> (Some e, s1)
           | (Inr _, s1) \<Rightarrow>
               (case ipt_exists ipt list_chain s1 of
                  (True, s2) \<Rightarrow> (Some (Msg ''stale RouterForge DNS ingress chain exists''), s2)
                | (False, s2) \<Rightarrow> (None, s2))))"

text \<open>The loop of \<^verbatim>\<open>Remove\<close>: it is left when the check fails or at the first error of all.\<close>

partial_function (option) remove_jumps ::
    "'s iptables \<Rightarrow> string list \<Rightarrow> string list \<Rightarrow> go_error option \<Rightarrow> 's \<Rightarrow> (go_error option \<times> 's) option" where
  "remove_jumps ipt check delete_it err s =
     (case ipt_exists ipt check s of (there, s1) \<Rightarrow>
        if \<not> there then Some (err, s1)
        else case ipt_run ipt delete_it s1 of (r, s2) \<Rightarrow>
          (case (r, err) of
             (Inl e, None) \<Rightarrow> Some (Some e, s2)
           | _ \<Rightarrow> remove_jumps ipt check delete_it err s2))"

definition note_first :: "go_error option \<Rightarrow> go_error + string \<Rightarrow> go_error option" where
  "note_first err r = (case r of Inl e \<Rightarrow> (case err of None \<Rightarrow> Some e | Some x \<Rightarrow> Some x) | Inr _ \<Rightarrow> err)"

definition remove_chain :: "'s iptables \<Rightarrow> go_error option \<Rightarrow> 's step" where
  "remove_chain ipt err s =
     (case ipt_exists ipt list_chain s of
        (False, s1) \<Rightarrow> (err, s1)
      | (True, s1) \<Rightarrow>
          (case ipt_run ipt flush_chain s1 of
             (r1, s2) \<Rightarrow> (case ipt_run ipt delete_chain s2 of (r2, s3) \<Rightarrow> (note_first (note_first err r1) r2, s3))))"

definition ingress_remove :: "'s iptables \<Rightarrow> ingress_manager \<Rightarrow> 's \<Rightarrow> (go_error option \<times> 's) option" where
  "ingress_remove ipt m s =
     Option.bind (remove_jumps ipt (check_jump m ''udp'') (delete_jump m ''udp'') None s) (\<lambda>(err1, s1).
     Option.bind (remove_jumps ipt (check_jump m ''tcp'') (delete_jump m ''tcp'') err1 s1) (\<lambda>(err2, s2).
       Some (remove_chain ipt err2 s2)))"

text \<open>\<^verbatim>\<open>Install\<close>: once the chain is there, every error runs \<^verbatim>\<open>Remove\<close>, whose own error is dropped.\<close>

definition ingress_install :: "'s iptables \<Rightarrow> ingress_manager \<Rightarrow> 's \<Rightarrow> (go_error option \<times> 's) option" where
  "ingress_install ipt m s =
     (case ipt_run ipt new_chain s of
        (Inl e, s1) \<Rightarrow> Some (Some e, s1)
      | (Inr _, s1) \<Rightarrow>
          (case run_all ipt (map (append_redirect m) protos @ map (insert_jump m) protos) s1 of
             (None, s2) \<Rightarrow> Some (None, s2)
           | (Some e, s2) \<Rightarrow> map_option (\<lambda>(_, s3). (Some e, s3)) (ingress_remove ipt m s2)))"

fun verify_installed :: "'s iptables \<Rightarrow> ingress_manager \<Rightarrow> string list \<Rightarrow> 's step" where
  "verify_installed ipt m [] s = (None, s)"
| "verify_installed ipt m (proto # rest) s =
     (case ipt_run ipt (check_jump m proto) s of
        (Inl e, s1) \<Rightarrow> (Some (Wrap (''verify '' @ proto @ '' ingress jump: '') e), s1)
      | (Inr _, s1) \<Rightarrow>
          (case ipt_run ipt (check_redirect m proto) s1 of
             (Inl e, s2) \<Rightarrow> (Some (Wrap (''verify '' @ proto @ '' ingress redirect: '') e), s2)
           | (Inr _, s2) \<Rightarrow> verify_installed ipt m rest s2))"

definition ingress_verify_installed :: "'s iptables \<Rightarrow> ingress_manager \<Rightarrow> 's step" where
  "ingress_verify_installed ipt m s = verify_installed ipt m protos s"

fun verify_no_jumps :: "'s iptables \<Rightarrow> ingress_manager \<Rightarrow> string list \<Rightarrow> 's step" where
  "verify_no_jumps ipt m [] s = (None, s)"
| "verify_no_jumps ipt m (proto # rest) s =
     (case ipt_exists ipt (check_jump m proto) s of
        (True, s1) \<Rightarrow> (Some (Msg (''RouterForge '' @ proto @ '' ingress jump still exists'')), s1)
      | (False, s1) \<Rightarrow> verify_no_jumps ipt m rest s1)"

definition ingress_verify_removed :: "'s iptables \<Rightarrow> ingress_manager \<Rightarrow> 's step" where
  "ingress_verify_removed ipt m s =
     (case ipt_exists ipt list_chain s of
        (True, s1) \<Rightarrow> (Some (Msg ''RouterForge DNS ingress chain still exists''), s1)
      | (False, s1) \<Rightarrow> verify_no_jumps ipt m protos s1)"

definition ingress_dump :: "'s iptables \<Rightarrow> 's \<Rightarrow> string \<times> 's" where
  "ingress_dump ipt s =
     (case ipt_run ipt [''-t'', ''nat'', ''-L'', ingress_chain, ''-v'', ''-n'', ''-x''] s of
        (Inl e, s1) \<Rightarrow> (error_text e, s1) | (Inr out, s1) \<Rightarrow> (out, s1))"

subsection \<open>What iptables documents\<close>

text \<open>
  The part of the nat table the manager works on: the rules of PREROUTING in order and the chain of
  the module, if it exists. \<open>nat_step\<close> is what a command does to it when it succeeds, and \<open>None\<close>
  when the command has to be refused: a check or a deletion of a rule that is not there, a chain that
  does not exist or exists already, the deletion of a chain that has rules or is jumped to.
\<close>

record nat_table =
  nt_pre :: "string list list"
  nt_chain :: "string list list option"

definition jumps_to_chain :: "string list \<Rightarrow> bool" where
  "jumps_to_chain spec \<longleftrightarrow> spec \<noteq> [] \<and> last spec = ingress_chain"

definition nat_step :: "string list \<Rightarrow> nat_table \<Rightarrow> nat_table option" where
  "nat_step args t =
     (if take 2 args \<noteq> [''-t'', ''nat''] then None
      else let cmd = take 2 (drop 2 args); spec = drop 4 args in
      if cmd = [''-S'', ''PREROUTING''] then Some t
      else if cmd = [''-C'', ''PREROUTING''] then (if spec \<in> set (nt_pre t) then Some t else None)
      else if cmd = [''-D'', ''PREROUTING'']
      then (if spec \<in> set (nt_pre t) then Some (t\<lparr>nt_pre := remove1 spec (nt_pre t)\<rparr>) else None)
      else if cmd = [''-I'', ''PREROUTING''] \<and> take 1 spec = [''1''] then Some (t\<lparr>nt_pre := drop 1 spec # nt_pre t\<rparr>)
      else if cmd = [''-N'', ingress_chain] then (if nt_chain t = None then Some (t\<lparr>nt_chain := Some []\<rparr>) else None)
      else case nt_chain t of
        None \<Rightarrow> None
      | Some rules \<Rightarrow>
          if cmd = [''-S'', ingress_chain] \<or> cmd = [''-L'', ingress_chain] then Some t
          else if cmd = [''-A'', ingress_chain] then Some (t\<lparr>nt_chain := Some (rules @ [spec])\<rparr>)
          else if cmd = [''-C'', ingress_chain] then (if spec \<in> set rules then Some t else None)
          else if cmd = [''-F'', ingress_chain] then Some (t\<lparr>nt_chain := Some []\<rparr>)
          else if cmd = [''-X'', ingress_chain]
          then (if rules = [] \<and> \<not> list_ex jumps_to_chain (nt_pre t) then Some (t\<lparr>nt_chain := None\<rparr>) else None)
          else None)"

text \<open>
  The three levels of trust: a command that succeeds does what it says and one that fails changes
  nothing; a check fails only when the rule or chain is not there; no command fails unless it has to.
\<close>

definition behaves :: "'s iptables \<Rightarrow> ('s \<Rightarrow> nat_table) \<Rightarrow> bool" where
  "behaves ipt view \<longleftrightarrow>
     (\<forall>args s. case ipt_exec ipt args s of ((out, e), s') \<Rightarrow>
        (case e of None \<Rightarrow> nat_step args (view s) = Some (view s') | Some _ \<Rightarrow> view s' = view s))"

definition truthful :: "'s iptables \<Rightarrow> ('s \<Rightarrow> nat_table) \<Rightarrow> bool" where
  "truthful ipt view \<longleftrightarrow> behaves ipt view \<and> (\<forall>s. ipt_path ipt s = None) \<and>
     (\<forall>args s. args ! 2 \<in> {''-C'', ''-S''} \<longrightarrow> snd (fst (ipt_exec ipt args s)) \<noteq> None \<longrightarrow> nat_step args (view s) = None)"

definition reliable :: "'s iptables \<Rightarrow> ('s \<Rightarrow> nat_table) \<Rightarrow> bool" where
  "reliable ipt view \<longleftrightarrow> behaves ipt view \<and> (\<forall>s. ipt_path ipt s = None) \<and>
     (\<forall>args s. snd (fst (ipt_exec ipt args s)) \<noteq> None \<longrightarrow> nat_step args (view s) = None)"

lemma reliable_truthful: "reliable ipt view \<Longrightarrow> truthful ipt view"
  by (simp add: reliable_def truthful_def)

lemma truthful_behaves: "truthful ipt view \<Longrightarrow> behaves ipt view"
  by (simp add: truthful_def)

definition jump_spec :: "ingress_manager \<Rightarrow> string \<Rightarrow> string list" where
  "jump_spec m proto = drop 3 (jump_args (ic_interface (im_config m)) proto)"

definition redirect_spec :: "ingress_manager \<Rightarrow> string \<Rightarrow> string list" where
  "redirect_spec m proto = drop 3 (redirect_args proto (im_port m))"

lemma specs:
  "jump_spec m p = [''-i'', ic_interface (im_config m), ''-p'', p, ''--dport'', ''53'', ''-j'', ingress_chain]"
  "redirect_spec m p = [''-p'', p, ''--dport'', ''53'', ''-j'', ''REDIRECT'', ''--to-ports'', itoa (im_port m)]"
  by (simp_all add: jump_spec_def redirect_spec_def jump_args_def redirect_args_def eval_nat_numeral)

lemma jump_spec_jumps [simp]: "jumps_to_chain (jump_spec m p)"
  by (simp add: specs jumps_to_chain_def)

lemma commands:
  "check_jump m p = ''-t'' # ''nat'' # ''-C'' # ''PREROUTING'' # jump_spec m p"
  "delete_jump m p = ''-t'' # ''nat'' # ''-D'' # ''PREROUTING'' # jump_spec m p"
  "insert_jump m p = ''-t'' # ''nat'' # ''-I'' # ''PREROUTING'' # ''1'' # jump_spec m p"
  "append_redirect m p = ''-t'' # ''nat'' # ''-A'' # ingress_chain # redirect_spec m p"
  "check_redirect m p = ''-t'' # ''nat'' # ''-C'' # ingress_chain # redirect_spec m p"
  by (simp_all add: check_jump_def delete_jump_def insert_jump_def append_redirect_def check_redirect_def
      jump_spec_def redirect_spec_def)

lemma nat_steps:
  "nat_step (check_jump m p) t = (if jump_spec m p \<in> set (nt_pre t) then Some t else None)"
  "nat_step (delete_jump m p) t =
     (if jump_spec m p \<in> set (nt_pre t) then Some (t\<lparr>nt_pre := remove1 (jump_spec m p) (nt_pre t)\<rparr>) else None)"
  "nat_step (insert_jump m p) t = Some (t\<lparr>nt_pre := jump_spec m p # nt_pre t\<rparr>)"
  "nat_step new_chain t = (if nt_chain t = None then Some (t\<lparr>nt_chain := Some []\<rparr>) else None)"
  "nat_step (append_redirect m p) t = map_option (\<lambda>rs. t\<lparr>nt_chain := Some (rs @ [redirect_spec m p])\<rparr>) (nt_chain t)"
  "nat_step (check_redirect m p) t =
     (case nt_chain t of None \<Rightarrow> None | Some rs \<Rightarrow> if redirect_spec m p \<in> set rs then Some t else None)"
  "nat_step list_chain t = map_option (\<lambda>_. t) (nt_chain t)"
  "nat_step flush_chain t = map_option (\<lambda>_. t\<lparr>nt_chain := Some []\<rparr>) (nt_chain t)"
  "nat_step delete_chain t = (if nt_chain t = Some [] \<and> \<not> list_ex jumps_to_chain (nt_pre t) then Some (t\<lparr>nt_chain := None\<rparr>) else None)"
  by (auto simp: commands nat_step_def new_chain_def list_chain_def flush_chain_def delete_chain_def ingress_chain_def
      eval_nat_numeral Let_def split: option.splits)

subsection \<open>One command\<close>

lemma run_ok: "behaves ipt view \<Longrightarrow> ipt_run ipt args s = (Inr out, s') \<Longrightarrow> nat_step args (view s) = Some (view s')"
  by (auto simp: ipt_run_def behaves_def split: option.splits prod.splits dest!: spec [of _ args] spec [of _ s])

lemma run_err: "behaves ipt view \<Longrightarrow> ipt_run ipt args s = (Inl e, s') \<Longrightarrow> view s' = view s"
  by (auto simp: ipt_run_def behaves_def split: option.splits prod.splits dest!: spec [of _ args] spec [of _ s])

lemma run_err_reliable: "reliable ipt view \<Longrightarrow> ipt_run ipt args s = (Inl e, s') \<Longrightarrow> nat_step args (view s) = None"
  by (auto simp: ipt_run_def reliable_def split: option.splits prod.splits dest!: spec [of _ args] spec [of _ s])

lemma exists_true: "behaves ipt view \<Longrightarrow> ipt_exists ipt args s = (True, s') \<Longrightarrow> nat_step args (view s) = Some (view s')"
  by (auto simp: ipt_exists_def behaves_def split: option.splits prod.splits dest!: spec [of _ args] spec [of _ s])

lemma exists_false:
  "truthful ipt view \<Longrightarrow> ipt_exists ipt args s = (False, s') \<Longrightarrow> args ! 2 \<in> {''-C'', ''-S''} \<Longrightarrow>
   view s' = view s \<and> nat_step args (view s) = None"
  by (auto simp: ipt_exists_def truthful_def behaves_def split: option.splits prod.splits
      dest!: spec [of _ args] spec [of _ s])

lemma command_verbs [simp]: "check_jump m p ! 2 = ''-C''" "list_chain ! 2 = ''-S''"
  by (simp_all add: commands list_chain_def)

lemma probe_jump:
  assumes "truthful ipt view" and "ipt_exists ipt (check_jump m p) s = (there, s')"
  shows "view s' = view s \<and> there = (jump_spec m p \<in> set (nt_pre (view s)))"
proof (cases there)
  case True
  then show ?thesis
    using exists_true [OF truthful_behaves [OF assms(1)], of "check_jump m p" s s'] assms(2)
    by (auto simp: nat_steps split: if_splits)
next
  case False
  then show ?thesis
    using exists_false [OF assms(1), of "check_jump m p" s s'] assms(2)
    by (auto simp: nat_steps split: if_splits)
qed

lemma probe_chain:
  assumes "truthful ipt view" and "ipt_exists ipt list_chain s = (there, s')"
  shows "view s' = view s \<and> there = (nt_chain (view s) \<noteq> None)"
proof (cases there)
  case True
  then show ?thesis
    using exists_true [OF truthful_behaves [OF assms(1)], of list_chain s s'] assms(2)
    by (auto simp: nat_steps)
next
  case False
  then show ?thesis
    using exists_false [OF assms(1), of list_chain s s'] assms(2)
    by (auto simp: nat_steps)
qed

subsection \<open>Removal\<close>

text \<open>From \<open>t\<close> with the error \<open>e\<close> so far to \<open>t'\<close> with the error \<open>e'\<close>, for the jump \<open>J\<close>.\<close>

definition jumps_removed :: "string list \<Rightarrow> go_error option \<Rightarrow> nat_table \<Rightarrow> go_error option \<Rightarrow> nat_table \<Rightarrow> bool" where
  "jumps_removed J e t e' t' \<longleftrightarrow>
     nt_chain t' = nt_chain t \<and> removeAll J (nt_pre t') = removeAll J (nt_pre t) \<and>
     (e' = e \<longrightarrow> J \<notin> set (nt_pre t')) \<and> (e \<noteq> None \<longrightarrow> e' = e)"

lemma removeAll_remove1: "removeAll x (remove1 x xs) = removeAll x xs"
  by (induction xs) auto

lemma jumps_removed_stop: "J \<notin> set (nt_pre t) \<Longrightarrow> jumps_removed J e t e t"
  by (simp add: jumps_removed_def)

lemma jumps_removed_step:
  "jumps_removed J e (t\<lparr>nt_pre := remove1 J (nt_pre t)\<rparr>) e' t' \<Longrightarrow> jumps_removed J e t e' t'"
  by (simp add: jumps_removed_def removeAll_remove1)

lemma jumps_removed_all: "jumps_removed J e t e t' \<Longrightarrow> nt_pre t' = removeAll J (nt_pre t)"
  using removeAll_id [of J "nt_pre t'"] by (simp add: jumps_removed_def)

lemma remove_jumps_result:
  assumes t: "truthful ipt view"
    and run: "remove_jumps ipt (check_jump m p) (delete_jump m p) err s = Some r"
  shows "jumps_removed (jump_spec m p) err (view s) (fst r) (view (snd r))"
proof -
  let ?R = "\<lambda>i c d e s r. i = ipt \<longrightarrow> c = check_jump m p \<longrightarrow> d = delete_jump m p \<longrightarrow>
      jumps_removed (jump_spec m p) e (view s) (fst r) (view (snd r))"
  have "?R ipt (check_jump m p) (delete_jump m p) err s r"
  proof (rule remove_jumps.raw_induct [where P = ?R, OF _ run], intro impI)
    fix f i c d e s r
    assume ih: "\<And>i c d e s r. f i c d e s = Some r \<Longrightarrow> ?R i c d e s r"
      and eq: "(case ipt_exists i c s of (there, s1) \<Rightarrow>
        if \<not> there then Some (e, s1)
        else case ipt_run i d s1 of (r, s2) \<Rightarrow>
          (case (r, e) of (Inl x, None) \<Rightarrow> Some (Some x, s2) | _ \<Rightarrow> f i c d e s2)) = Some r"
      and same: "i = ipt" "c = check_jump m p" "d = delete_jump m p"
    obtain there s1 where 1: "ipt_exists ipt c s = (there, s1)" by fastforce
    obtain q s2 where 2: "ipt_run ipt d s1 = (q, s2)" by fastforce
    have pr: "view s1 = view s" "there = (jump_spec m p \<in> set (nt_pre (view s)))"
      using probe_jump [OF t] 1 same by auto
    show "jumps_removed (jump_spec m p) e (view s) (fst r) (view (snd r))"
    proof (cases there)
      case False
      then have "r = (e, s1)" using eq same 1 by simp
      then show ?thesis using False pr by (simp add: jumps_removed_stop)
    next
      case True
      show ?thesis
      proof (cases q)
        case (Inl x)
        then have v: "view s2 = view s" using run_err [OF truthful_behaves [OF t]] 2 pr by auto
        show ?thesis
        proof (cases e)
          case None
          then have "r = (Some x, s2)" using eq same 1 2 True Inl by simp
          then show ?thesis using v None by (simp add: jumps_removed_def)
        next
          case (Some y)
          then have "f i c d e s2 = Some r" using eq same 1 2 True Inl by simp
          then show ?thesis using ih [of i c d e s2 r] same v by simp
        qed
      next
        case (Inr out)
        then have "f i c d e s2 = Some r" using eq same 1 2 True by simp
        then have "jumps_removed (jump_spec m p) e (view s2) (fst r) (view (snd r))"
          using ih [of i c d e s2 r] same by simp
        moreover have "view s2 = (view s)\<lparr>nt_pre := remove1 (jump_spec m p) (nt_pre (view s))\<rparr>"
          using run_ok [OF truthful_behaves [OF t], of d s1 out s2] 2 Inr same pr True by (simp add: nat_steps)
        ultimately show ?thesis using jumps_removed_step by metis
      qed
    qed
  qed
  then show ?thesis by simp
qed

lemma remove_chain_result:
  assumes t: "truthful ipt view" and run: "remove_chain ipt err s = (None, s')"
  shows "err = None \<and> view s' = (view s)\<lparr>nt_chain := None\<rparr>"
proof -
  obtain there s1 where 1: "ipt_exists ipt list_chain s = (there, s1)" by fastforce
  obtain r1 s2 where 2: "ipt_run ipt flush_chain s1 = (r1, s2)" by fastforce
  obtain r2 s3 where 3: "ipt_run ipt delete_chain s2 = (r2, s3)" by fastforce
  note pr = probe_chain [OF t 1]
  show ?thesis
  proof (cases there)
    case False
    then show ?thesis using run pr by (cases "view s") (simp add: remove_chain_def 1)
  next
    case True
    then have "note_first (note_first err r1) r2 = None" "s' = s3"
      using run by (simp_all add: remove_chain_def 1 2 3)
    then obtain o1 o2 where ok: "err = None" "r1 = Inr o1" "r2 = Inr o2"
      by (auto simp: note_first_def split: sum.splits option.splits)
    have "view s2 = (view s)\<lparr>nt_chain := Some []\<rparr>"
      using run_ok [OF truthful_behaves [OF t]] 2 ok pr by (fastforce simp: nat_steps)
    moreover have "view s3 = (view s2)\<lparr>nt_chain := None\<rparr>"
      using run_ok [OF truthful_behaves [OF t]] 3 ok by (fastforce simp: nat_steps split: if_splits)
    ultimately show ?thesis using ok \<open>s' = s3\<close> by simp
  qed
qed

lemma protos_differ: "jump_spec m ''udp'' \<noteq> jump_spec m ''tcp''"
  by (simp add: specs)

definition own_jumps :: "ingress_manager \<Rightarrow> string list list" where
  "own_jumps m = [jump_spec m ''tcp'', jump_spec m ''udp'']"

lemma remove_result:
  assumes t: "truthful ipt view" and run: "ingress_remove ipt m s = Some (None, s')"
  shows "view s' = \<lparr>nt_pre = filter (\<lambda>x. x \<notin> set (own_jumps m)) (nt_pre (view s)), nt_chain = None\<rparr>"
proof -
  let ?U = "jump_spec m ''udp''" and ?T = "jump_spec m ''tcp''"
  obtain e1 s1 e2 s2 where 1: "remove_jumps ipt (check_jump m ''udp'') (delete_jump m ''udp'') None s = Some (e1, s1)"
    and 2: "remove_jumps ipt (check_jump m ''tcp'') (delete_jump m ''tcp'') e1 s1 = Some (e2, s2)"
    and 3: "remove_chain ipt e2 s2 = (None, s')"
    using run by (auto simp: ingress_remove_def split: bind_splits)
  note chain = remove_chain_result [OF t 3]
  have r1: "jumps_removed ?U None (view s) e1 (view s1)" using remove_jumps_result [OF t 1] by simp
  have r2: "jumps_removed ?T e1 (view s1) e2 (view s2)" using remove_jumps_result [OF t 2] by simp
  have e: "e1 = None" "e2 = None" using chain r2 by (auto simp: jumps_removed_def)
  have p1: "nt_pre (view s1) = removeAll ?U (nt_pre (view s))"
    using r1 e by (simp add: jumps_removed_all)
  have p2: "nt_pre (view s2) = removeAll ?T (nt_pre (view s1))"
    using r2 e by (simp add: jumps_removed_all)
  have "nt_pre (view s2) = filter (\<lambda>x. x \<notin> set (own_jumps m)) (nt_pre (view s))"
    unfolding p2 p1 own_jumps_def removeAll_filter_not_eq filter_filter by (rule filter_cong) auto
  then show ?thesis using chain by (cases "view s'"; cases "view s2") auto
qed

subsection \<open>Termination\<close>

lemma run_must:
  assumes "reliable ipt view" and "nat_step args (view s) = Some t"
  obtains out s' where "ipt_run ipt args s = (Inr out, s')" and "view s' = t"
proof -
  obtain r s' where r: "ipt_run ipt args s = (r, s')" by fastforce
  show thesis
  proof (cases r)
    case (Inl e)
    then have "ipt_run ipt args s = (Inl e, s')" using r by simp
    from run_err_reliable [OF assms(1) this] show thesis using assms(2) by simp
  next
    case (Inr out)
    have "behaves ipt view" using assms(1) by (simp add: reliable_def)
    moreover have "ipt_run ipt args s = (Inr out, s')" using r Inr by simp
    ultimately have "nat_step args (view s) = Some (view s')" by (rule run_ok)
    then show thesis using that r Inr assms(2) by simp
  qed
qed

lemma remove_jumps_returns:
  assumes rel: "reliable ipt view"
  shows "\<exists>s'. remove_jumps ipt (check_jump m p) (delete_jump m p) err s = Some (err, s')"
proof (induction "length (nt_pre (view s))" arbitrary: s rule: less_induct)
  case less
  note t = reliable_truthful [OF rel]
  let ?J = "jump_spec m p"
  obtain there s1 where 1: "ipt_exists ipt (check_jump m p) s = (there, s1)" by fastforce
  note pr = probe_jump [OF t 1]
  show ?case
  proof (cases there)
    case False
    then show ?thesis by (subst remove_jumps.simps) (simp add: 1)
  next
    case True
    then have "nat_step (delete_jump m p) (view s1) = Some ((view s)\<lparr>nt_pre := remove1 ?J (nt_pre (view s))\<rparr>)"
      using pr by (simp add: nat_steps)
    then obtain out s2 where 2: "ipt_run ipt (delete_jump m p) s1 = (Inr out, s2)"
      and v2: "view s2 = (view s)\<lparr>nt_pre := remove1 ?J (nt_pre (view s))\<rparr>"
      by (rule run_must [OF rel])
    have "length (nt_pre (view s2)) < length (nt_pre (view s))"
      using True pr by (simp add: v2 length_remove1) (metis One_nat_def diff_less length_pos_if_in_set zero_less_one)
    from less [OF this] show ?thesis
      using True by (subst remove_jumps.simps) (simp add: 1 2)
  qed
qed

lemma remove_chain_returns:
  assumes rel: "reliable ipt view" and "\<not> list_ex jumps_to_chain (nt_pre (view s))"
  shows "\<exists>s'. remove_chain ipt err s = (err, s')"
proof -
  note t = reliable_truthful [OF rel]
  obtain there s1 where 1: "ipt_exists ipt list_chain s = (there, s1)" by fastforce
  note pr = probe_chain [OF t 1]
  show ?thesis
  proof (cases there)
    case False
    then show ?thesis by (simp add: remove_chain_def 1)
  next
    case True
    then have "nat_step flush_chain (view s1) = Some ((view s)\<lparr>nt_chain := Some []\<rparr>)"
      using pr by (auto simp: nat_steps)
    then obtain o1 s2 where 2: "ipt_run ipt flush_chain s1 = (Inr o1, s2)" "view s2 = (view s)\<lparr>nt_chain := Some []\<rparr>"
      by (rule run_must [OF rel])
    then have "nat_step delete_chain (view s2) = Some ((view s)\<lparr>nt_chain := None\<rparr>)"
      using assms(2) by (simp add: nat_steps)
    then obtain o2 s3 where "ipt_run ipt delete_chain s2 = (Inr o2, s3)"
      by (rule run_must [OF rel])
    then show ?thesis using True 2 by (simp add: remove_chain_def 1 note_first_def)
  qed
qed

lemma remove_returns:
  assumes rel: "reliable ipt view"
    and "\<not> list_ex jumps_to_chain (filter (\<lambda>x. x \<notin> set (own_jumps m)) (nt_pre (view s)))"
  shows "\<exists>s'. ingress_remove ipt m s = Some (None, s')"
proof -
  note t = reliable_truthful [OF rel]
  let ?U = "jump_spec m ''udp''" and ?T = "jump_spec m ''tcp''"
  obtain s1 where 1: "remove_jumps ipt (check_jump m ''udp'') (delete_jump m ''udp'') None s = Some (None, s1)"
    using remove_jumps_returns [OF rel] by blast
  obtain s2 where 2: "remove_jumps ipt (check_jump m ''tcp'') (delete_jump m ''tcp'') None s1 = Some (None, s2)"
    using remove_jumps_returns [OF rel] by blast
  have p1: "nt_pre (view s1) = removeAll ?U (nt_pre (view s))"
    using jumps_removed_all remove_jumps_result [OF t 1] by fastforce
  have p2: "nt_pre (view s2) = removeAll ?T (nt_pre (view s1))"
    using jumps_removed_all remove_jumps_result [OF t 2] by fastforce
  have "nt_pre (view s2) = filter (\<lambda>x. x \<notin> set (own_jumps m)) (nt_pre (view s))"
    unfolding p2 p1 own_jumps_def removeAll_filter_not_eq filter_filter by (rule filter_cong) auto
  then obtain s3 where "remove_chain ipt None s2 = (None, s3)"
    using remove_chain_returns [OF rel, of s2 None] assms(2) by auto
  then show ?thesis by (simp add: ingress_remove_def 1 2)
qed

subsection \<open>Installation\<close>

definition installed_table :: "ingress_manager \<Rightarrow> nat_table \<Rightarrow> nat_table" where
  "installed_table m t = \<lparr>nt_pre = own_jumps m @ nt_pre t,
     nt_chain = Some [redirect_spec m ''udp'', redirect_spec m ''tcp'']\<rparr>"

lemma run_all_ok:
  "behaves ipt view \<Longrightarrow> run_all ipt cmds s = (None, s') \<Longrightarrow>
   fold (\<lambda>c t. Option.bind t (nat_step c)) cmds (Some (view s)) = Some (view s')"
proof (induction cmds arbitrary: s)
  case Nil
  then show ?case by simp
next
  case (Cons c cmds)
  obtain r s1 where 1: "ipt_run ipt c s = (r, s1)" by fastforce
  with Cons.prems obtain out where "r = Inr out" by (cases r) auto
  then show ?case using Cons 1 run_ok [OF Cons.prems(1), of c s out s1] by simp
qed

lemma run_all_must:
  "reliable ipt view \<Longrightarrow> fold (\<lambda>c t. Option.bind t (nat_step c)) cmds (Some (view s)) = Some t \<Longrightarrow>
   \<exists>s'. run_all ipt cmds s = (None, s') \<and> view s' = t"
proof (induction cmds arbitrary: s)
  case Nil
  then show ?case by simp
next
  case (Cons c cmds)
  have none: "fold (\<lambda>c t. Option.bind t (nat_step c)) cs None = None" for cs
    by (induction cs) auto
  then obtain t1 where "nat_step c (view s) = Some t1"
    using Cons.prems(2) by (cases "nat_step c (view s)") auto
  moreover from this obtain out s1 where "ipt_run ipt c s = (Inr out, s1)" "view s1 = t1"
    by (rule run_must [OF Cons.prems(1)])
  ultimately show ?case using Cons by simp
qed

lemma install_steps:
  "nt_chain t = Some [] \<Longrightarrow>
   fold (\<lambda>c t. Option.bind t (nat_step c)) (map (append_redirect m) protos @ map (insert_jump m) protos) (Some t)
     = Some (installed_table m t)"
  by (cases t) (simp add: protos_def nat_steps installed_table_def own_jumps_def)

lemma install_result:
  assumes b: "behaves ipt view" and run: "ingress_install ipt m s = Some (None, s')"
  shows "nt_chain (view s) = None \<and> view s' = installed_table m (view s)"
proof -
  obtain r s1 where 1: "ipt_run ipt new_chain s = (r, s1)" by fastforce
  obtain e s2 where 2: "run_all ipt (map (append_redirect m) protos @ map (insert_jump m) protos) s1 = (e, s2)"
    by fastforce
  obtain out where r: "r = Inr out" and e: "e = None" "s' = s2"
    using run by (cases r; cases e) (auto simp: ingress_install_def 1 2)
  have "nt_chain (view s) = None" "view s1 = (view s)\<lparr>nt_chain := Some []\<rparr>"
    using run_ok [OF b, of new_chain s out s1] 1 r by (auto simp: nat_steps split: if_splits)
  moreover from this have "view s2 = installed_table m (view s1)"
    using run_all_ok [OF b, of _ s1 s2] 2 e install_steps [of "view s1" m] by fastforce
  ultimately show ?thesis using e by (simp add: installed_table_def)
qed

lemma install_returns:
  assumes rel: "reliable ipt view" and "nt_chain (view s) = None"
  shows "\<exists>s'. ingress_install ipt m s = Some (None, s')"
proof -
  have "nat_step new_chain (view s) = Some ((view s)\<lparr>nt_chain := Some []\<rparr>)"
    using assms(2) by (simp add: nat_steps)
  then obtain out s1 where 1: "ipt_run ipt new_chain s = (Inr out, s1)" and v: "view s1 = (view s)\<lparr>nt_chain := Some []\<rparr>"
    by (rule run_must [OF rel])
  obtain s2 where "run_all ipt (map (append_redirect m) protos @ map (insert_jump m) protos) s1 = (None, s2)"
    using run_all_must [OF rel, of _ s1] install_steps [of "view s1" m] v by fastforce
  then show ?thesis by (simp add: ingress_install_def 1)
qed

lemma verify_removed_result:
  assumes t: "truthful ipt view" and run: "ingress_verify_removed ipt m s = (r, s')"
  shows "view s' = view s \<and> (r = None) = (nt_chain (view s) = None \<and> set (own_jumps m) \<inter> set (nt_pre (view s)) = {})"
proof -
  obtain a s1 where 1: "ipt_exists ipt list_chain s = (a, s1)" by fastforce
  obtain b s2 where 2: "ipt_exists ipt (check_jump m ''udp'') s1 = (b, s2)" by fastforce
  obtain c s3 where 3: "ipt_exists ipt (check_jump m ''tcp'') s2 = (c, s3)" by fastforce
  note p1 = probe_chain [OF t 1] and p2 = probe_jump [OF t 2] and p3 = probe_jump [OF t 3]
  show ?thesis
    using run p1 p2 p3 by (cases a; cases b; cases c) (auto simp: ingress_verify_removed_def protos_def 1 2 3 own_jumps_def)
qed

lemma verify_installed_returns:
  assumes rel: "reliable ipt view" and "set (own_jumps m) \<subseteq> set (nt_pre (view s))"
    and "nt_chain (view s) = Some [redirect_spec m ''udp'', redirect_spec m ''tcp'']"
  shows "\<exists>s'. ingress_verify_installed ipt m s = (None, s') \<and> view s' = view s"
proof -
  have steps: "nat_step (check_jump m p) (view s) = Some (view s)" "nat_step (check_redirect m p) (view s) = Some (view s)"
    if "p = ''udp'' \<or> p = ''tcp''" for p
    using assms(2,3) that by (auto simp: nat_steps own_jumps_def)
  obtain o1 s1 where 1: "ipt_run ipt (check_jump m ''udp'') s = (Inr o1, s1)" "view s1 = view s"
    using run_must [OF rel, of "check_jump m ''udp''" s "view s"] steps [of "''udp''"] by blast
  obtain o2 s2 where 2: "ipt_run ipt (check_redirect m ''udp'') s1 = (Inr o2, s2)" "view s2 = view s"
    using run_must [OF rel, of "check_redirect m ''udp''" s1 "view s"] steps [of "''udp''"] 1(2) by metis
  obtain o3 s3 where 3: "ipt_run ipt (check_jump m ''tcp'') s2 = (Inr o3, s3)" "view s3 = view s"
    using run_must [OF rel, of "check_jump m ''tcp''" s2 "view s"] steps [of "''tcp''"] 2(2) by metis
  obtain o4 s4 where 4: "ipt_run ipt (check_redirect m ''tcp'') s3 = (Inr o4, s4)" "view s4 = view s"
    using run_must [OF rel, of "check_redirect m ''tcp''" s3 "view s"] steps [of "''tcp''"] 3(2) by metis
  show ?thesis
    using 1 2 3 4 by (simp add: ingress_verify_installed_def protos_def)
qed

text \<open>C38: turning the DNS traffic over and back is exact. With an iptables that fails only when it
  has to, and no chain of the module and no rule that jumps to it at the start: \<^verbatim>\<open>Install\<close> succeeds and
  leaves the two redirects in the chain and the two jumps in front of all other rules,
  \<^verbatim>\<open>VerifyInstalled\<close> confirms it, \<^verbatim>\<open>Remove\<close> then returns without an error, the table is what it was
  before, and \<^verbatim>\<open>VerifyRemoved\<close> confirms that.\<close>

theorem ingress_roundtrip:
  assumes rel: "reliable ipt view" and clean: "nt_chain (view s) = None" "\<not> list_ex jumps_to_chain (nt_pre (view s))"
  shows "\<exists>s1 s2 s3 s4. ingress_install ipt m s = Some (None, s1) \<and> view s1 = installed_table m (view s) \<and>
     ingress_verify_installed ipt m s1 = (None, s2) \<and> view s2 = view s1 \<and>
     ingress_remove ipt m s2 = Some (None, s3) \<and> view s3 = view s \<and>
     ingress_verify_removed ipt m s3 = (None, s4)"
proof -
  note t = reliable_truthful [OF rel]
  obtain s1 where 1: "ingress_install ipt m s = Some (None, s1)"
    using install_returns [OF rel clean(1)] by blast
  have v1: "view s1 = installed_table m (view s)"
    using install_result [OF truthful_behaves [OF t] 1] by simp
  obtain s2 where 2: "ingress_verify_installed ipt m s1 = (None, s2)" "view s2 = view s1"
    using verify_installed_returns [OF rel, of m s1] by (auto simp: v1 installed_table_def)
  have not_own: "x \<notin> set (own_jumps m)" if "x \<in> set (nt_pre (view s))" for x
    using clean(2) that by (auto simp: list_ex_iff own_jumps_def)
  then have rest: "filter (\<lambda>x. x \<notin> set (own_jumps m)) (nt_pre (view s2)) = nt_pre (view s)"
    by (simp add: 2(2) v1 installed_table_def)
  obtain s3 where 3: "ingress_remove ipt m s2 = Some (None, s3)"
    using remove_returns [OF rel, of m s2] clean(2) unfolding rest by blast
  have v3: "view s3 = view s"
    using remove_result [OF t 3] rest clean(1) by (cases "view s") simp
  obtain r s4 where 4: "ingress_verify_removed ipt m s3 = (r, s4)" by fastforce
  have "r = None"
    using verify_removed_result [OF t 4] clean(1) not_own by (auto simp: v3)
  then show ?thesis using 1 v1 2 3 v3 4 by blast
qed

text \<open>C39: a removal that reports no error has removed everything of the module and nothing else: no
  jump of the manager is left, however many there were, its chain is gone, and all other rules of
  PREROUTING are there in their order. This holds even when commands fail, as long as a check
  fails only for a rule that is not there; and the verification after it accepts exactly
  such a table.\<close>

theorem ingress_removal_is_complete:
  assumes "truthful ipt view" and "ingress_remove ipt m s = Some (None, s')"
    and "ingress_verify_removed ipt m s' = (r, s'')"
  shows "view s' = \<lparr>nt_pre = filter (\<lambda>x. x \<notin> set (own_jumps m)) (nt_pre (view s)), nt_chain = None\<rparr> \<and> r = None"
  using remove_result [OF assms(1,2)] verify_removed_result [OF assms(1,3)] by auto

text \<open>An iptables that does exactly what it documents, on a table of its own.\<close>

definition exact_iptables :: "nat_table iptables" where
  "exact_iptables = \<lparr>ipt_path = (\<lambda>t. None),
     ipt_exec = (\<lambda>args t. case nat_step args t of None \<Rightarrow> (([], Some ErrIO), t) | Some t' \<Rightarrow> (([], None), t'))\<rparr>"

lemma exact_reliable: "reliable exact_iptables (\<lambda>t. t)"
  by (auto simp: reliable_def behaves_def exact_iptables_def split: option.splits prod.splits)

definition home_manager :: "ingress_manager" where
  "home_manager = \<lparr>im_config = \<lparr>ic_interface = ''br0'', ic_listen = ''192.168.1.1:5353''\<rparr>, im_port = 5353\<rparr>"

definition home_table :: "nat_table" where
  "home_table = \<lparr>nt_pre = [[''-p'', ''tcp'', ''-j'', ''NDM'']], nt_chain = None\<rparr>"

theorem ingress_roundtrip_witness:
  "\<exists>s1 s3. ingress_install exact_iptables home_manager home_table = Some (None, s1) \<and> length (nt_pre s1) = 3 \<and>
     ingress_remove exact_iptables home_manager s1 = Some (None, s3) \<and> s3 = home_table"
proof -
  have c: "nt_chain home_table = None" "\<not> list_ex jumps_to_chain (nt_pre home_table)"
    by code_simp+
  obtain s1 s2 s3 where i: "ingress_install exact_iptables home_manager home_table = Some (None, s1)"
    "s1 = installed_table home_manager home_table" "s2 = s1"
    "ingress_remove exact_iptables home_manager s2 = Some (None, s3)" "s3 = home_table"
    using ingress_roundtrip [OF exact_reliable c, of home_manager] by blast
  moreover have "length (nt_pre (installed_table home_manager home_table)) = 3"
    by (simp add: installed_table_def own_jumps_def home_table_def)
  ultimately show ?thesis by blast
qed

theorem ingress_removal_witness:
  "\<exists>s'. ingress_remove exact_iptables home_manager
       \<lparr>nt_pre = [jump_spec home_manager ''udp'', [''x''], jump_spec home_manager ''udp''], nt_chain = Some [[''y'']]\<rparr> = Some (None, s') \<and>
     nt_pre s' = [[''x'']] \<and> nt_chain s' = None"
proof -
  let ?t = "\<lparr>nt_pre = [jump_spec home_manager ''udp'', [''x''], jump_spec home_manager ''udp''], nt_chain = Some [[''y'']]\<rparr>"
  have f: "filter (\<lambda>x. x \<notin> set (own_jumps home_manager)) (nt_pre ?t) = [[''x'']]" "\<not> list_ex jumps_to_chain [[''x'']]"
    by code_simp+
  obtain s' where r: "ingress_remove exact_iptables home_manager ?t = Some (None, s')"
    using remove_returns [OF exact_reliable, of home_manager ?t] f(2) unfolding f(1) by blast
  obtain q s'' where "ingress_verify_removed exact_iptables home_manager s' = (q, s'')" by fastforce
  from ingress_removal_is_complete [OF reliable_truthful [OF exact_reliable] r this]
  have "s' = \<lparr>nt_pre = [[''x'']], nt_chain = None\<rparr>" unfolding f(1) by blast
  then show ?thesis using r by simp
qed

subsection \<open>A removal that does not return\<close>

text \<open>
  The loop of \<^verbatim>\<open>Remove\<close> is left on an error only when it is the first one. When the deletion of the
  UDP jump failed already, the errors of the TCP deletion are not the first, and the loop goes on
  as long as the check finds the rule.
\<close>

lemma remove_jumps_stuck:
  assumes "\<And>s. fst (ipt_exists ipt check s)" and "\<And>s. \<exists>e s'. ipt_run ipt delete_it s = (Inl e, s')"
  shows "remove_jumps ipt check delete_it (Some e) s = None"
proof (rule ccontr)
  assume "remove_jumps ipt check delete_it (Some e) s \<noteq> None"
  then obtain r where r: "remove_jumps ipt check delete_it (Some e) s = Some r" by blast
  let ?P = "\<lambda>i c d err s r. i = ipt \<longrightarrow> c = check \<longrightarrow> d = delete_it \<longrightarrow> err = None"
  have "?P ipt check delete_it (Some e) s r"
  proof (rule remove_jumps.raw_induct [where P = ?P, OF _ r], intro impI)
    fix f i c d err s r
    assume ih: "\<And>i c d err s r. f i c d err s = Some r \<Longrightarrow> ?P i c d err s r"
      and eq: "(case ipt_exists i c s of (there, s1) \<Rightarrow>
        if \<not> there then Some (err, s1)
        else case ipt_run i d s1 of (r, s2) \<Rightarrow>
          (case (r, err) of (Inl x, None) \<Rightarrow> Some (Some x, s2) | _ \<Rightarrow> f i c d err s2)) = Some r"
      and same: "i = ipt" "c = check" "d = delete_it"
    obtain s1 where 1: "ipt_exists ipt check s = (True, s1)"
      using assms(1) [of s] by (metis (full_types) eq_fst_iff)
    obtain x s2 where 2: "ipt_run ipt delete_it s1 = (Inl x, s2)"
      using assms(2) by blast
    show "err = None"
    proof (cases err)
      case (Some y)
      then have "f i c d err s2 = Some r" using eq same 1 2 by simp
      then show ?thesis using ih [of i c d err s2 r] same by simp
    qed
  qed
  then show False by simp
qed

text \<open>An iptables that finds every rule but cannot delete any, as when the table is locked.\<close>

definition locked_iptables :: "unit iptables" where
  "locked_iptables = \<lparr>ipt_path = (\<lambda>s. None),
     ipt_exec = (\<lambda>args s. (if args ! 2 = ''-D'' then (''locked'', Some ErrIO) else ([], None), s))\<rparr>"

text \<open>C40: \<^verbatim>\<open>Remove\<close> need not return: with an iptables that finds both jumps and fails to delete them, the
  first loop ends with the error of the UDP deletion and the second never ends.\<close>

theorem removal_may_not_return: "ingress_remove locked_iptables m () = None"
proof -
  have ex: "ipt_exists locked_iptables (check_jump m p) s = (True, s)" for p s
    by (simp add: ipt_exists_def locked_iptables_def commands)
  have run: "\<exists>e s'. ipt_run locked_iptables (delete_jump m p) s = (Inl e, s')" for p s
    by (auto simp: ipt_run_def locked_iptables_def commands)
  obtain e s' where 1: "ipt_run locked_iptables (delete_jump m ''udp'') () = (Inl e, s')"
    using run by blast
  have "remove_jumps locked_iptables (check_jump m ''udp'') (delete_jump m ''udp'') None () = Some (Some e, s')"
    by (subst remove_jumps.simps) (simp add: ex 1)
  moreover have "remove_jumps locked_iptables (check_jump m ''tcp'') (delete_jump m ''tcp'') (Some e) s' = None"
    by (rule remove_jumps_stuck) (use ex run in auto)
  ultimately show ?thesis by (simp add: ingress_remove_def)
qed

end
