(* ===== verification/Go_Text.thy ===== *)
theory Go_Text
  imports Go_Std
begin

text \<open>
  Text files as the configuration editors of the program read and write them: line ends
  (\<^verbatim>\<open>strings.ReplaceAll\<close>, \<^verbatim>\<open>strings.Split\<close>, \<^verbatim>\<open>bufio.Scanner\<close>), words (\<^verbatim>\<open>strings.Fields\<close>), the first
  occurrence of a byte, and \<^verbatim>\<open>strconv.ParseInt\<close> with its error ignored.
\<close>

definition lf :: "char" where
  "lf = CHR 0x0A"

definition cr :: "char" where
  "cr = CHR 0x0D"

lemma lf_cr [simp]: "lf \<noteq> cr" "cr \<noteq> lf" "is_space lf" "is_space cr"
  by (simp_all add: lf_def cr_def is_space_def byte_of_def)

text \<open>\<^verbatim>\<open>ReplaceAll(s, "\\r\\n", "\\n")\<close> and \<^verbatim>\<open>ReplaceAll(s, "\\r", "\\n")\<close>.\<close>

fun replace_crlf :: "string \<Rightarrow> string" where
  "replace_crlf [] = []"
| "replace_crlf [c] = [c]"
| "replace_crlf (c # d # s) = (if c = cr \<and> d = lf then lf # replace_crlf s else c # replace_crlf (d # s))"

definition replace_cr :: "string \<Rightarrow> string" where
  "replace_cr s = map (\<lambda>c. if c = cr then lf else c) s"

lemma replace_crlf_id [simp]: "cr \<notin> set s \<Longrightarrow> replace_crlf s = s"
  by (induction s rule: replace_crlf.induct) auto

lemma replace_cr_id [simp]: "cr \<notin> set s \<Longrightarrow> replace_cr s = s"
  by (induction s) (auto simp: replace_cr_def)

lemma set_replace_crlf: "set (replace_crlf s) \<subseteq> set s"
  by (induction s rule: replace_crlf.induct) auto

lemma count_replace_crlf: "length (filter (\<lambda>c. c = lf) (replace_crlf s)) = length (filter (\<lambda>c. c = lf) s)"
  by (induction s rule: replace_crlf.induct) auto

text \<open>The lines a \<^verbatim>\<open>bufio.Scanner\<close> with its default buffer delivers: a line of 64 KiB or more stops it
  with an error.\<close>

definition max_token :: "int" where
  "max_token = 65536"

definition scan_pieces :: "string \<Rightarrow> string list" where
  "scan_pieces s = (let ps = split_char lf s in if last ps = [] then butlast ps else ps)"

definition drop_cr :: "string \<Rightarrow> string" where
  "drop_cr l = (if l \<noteq> [] \<and> last l = cr then butlast l else l)"

lemma trim_right_snoc: "p c \<Longrightarrow> trim_right p (s @ [c]) = trim_right p s"
  by (simp add: trim_right_def)

lemma trim_space_snoc: "is_space c \<Longrightarrow> trim_space (s @ [c]) = trim_space s"
proof (cases "\<forall>x\<in>set s. is_space x")
  case True
  assume "is_space c"
  then have "trim_left is_space (s @ [c]) = []" "trim_left is_space s = []"
    using True by (auto simp: trim_left_def dropWhile_eq_Nil_conv)
  then show ?thesis by (simp add: trim_space_def)
next
  case False
  assume c: "is_space c"
  have "trim_left is_space (s @ [c]) = trim_left is_space s @ [c]"
    using False by (auto simp: trim_left_def dropWhile_append1)
  then show ?thesis using c by (simp add: trim_space_def trim_right_snoc)
qed

lemma trim_space_drop_cr [simp]: "trim_space (drop_cr l) = trim_space l"
proof (cases "l \<noteq> [] \<and> last l = cr")
  case True
  then have "l = butlast l @ [cr]" by (metis append_butlast_last_id)
  then have "trim_space l = trim_space (butlast l)" by (metis trim_space_snoc lf_cr(4))
  then show ?thesis using True by (simp add: drop_cr_def)
next
  case False
  then show ?thesis by (simp only: drop_cr_def if_False)
qed

lemma split_char_subset: "l \<in> set (split_char c s) \<Longrightarrow> set l \<subseteq> set s"
  by (induction s arbitrary: l) (fastforce split: if_splits list.splits)+

lemma join_snoc_empty: "ls \<noteq> [] \<Longrightarrow> join sep (ls @ [[]]) = join sep ls @ sep"
  by (induction sep ls rule: join.induct) auto

lemma scan_pieces_lines:
  assumes "\<forall>l\<in>set ls. lf \<notin> set l"
  shows "scan_pieces (join [lf] ls @ [lf]) = (if ls = [] then [[]] else ls)"
proof (cases ls)
  case Nil
  then show ?thesis by (simp add: scan_pieces_def)
next
  case (Cons l rest)
  have "join [lf] (ls @ [[]]) = join [lf] ls @ [lf]"
    using Cons by (intro join_snoc_empty) simp
  then have "split_char lf (join [lf] ls @ [lf]) = ls @ [[]]"
    using split_char_join [of "ls @ [[]]" lf] assms by auto
  then show ?thesis using Cons by (simp add: scan_pieces_def Let_def)
qed

text \<open>\<^verbatim>\<open>strings.IndexByte\<close>.\<close>

definition index_char :: "char \<Rightarrow> string \<Rightarrow> nat option" where
  "index_char c s = (if c \<in> set s then Some (length (takeWhile (\<lambda>x. x \<noteq> c) s)) else None)"

lemma index_char_append: "c \<notin> set a \<Longrightarrow> index_char c (a @ c # b) = Some (length a)"
  unfolding index_char_def by (subst takeWhile_append2) auto

text \<open>\<^verbatim>\<open>ParseInt\<close> returns the nearest bound when the value is out of range, and 0 for anything that is
  no number.\<close>

definition parse_int :: "string \<Rightarrow> int" where
  "parse_int s =
     (let neg = (case s of c # _ \<Rightarrow> c = CHR ''-'' | [] \<Rightarrow> False);
          d = (case s of c # t \<Rightarrow> if c = CHR ''-'' \<or> c = CHR ''+'' then t else s | [] \<Rightarrow> [])
      in if d = [] \<or> \<not> list_all is_digit d then 0
         else (let v = (if neg then - int (digits_value d) else int (digits_value d))
               in if v > max_int64 then max_int64 else if v < - max_int64 - 1 then - max_int64 - 1 else v))"

subsection \<open>Words\<close>

definition word_ok :: "string \<Rightarrow> bool" where
  "word_ok w \<longleftrightarrow> w \<noteq> [] \<and> list_all (\<lambda>c. \<not> is_space c) w"

lemma fields_Nil [simp]: "fields [] = []"
  by (simp add: fields_def fields_func.simps)

lemma fields_skip: "is_space c \<Longrightarrow> fields (c # s) = fields s"
  unfolding fields_def by (subst (1 2) fields_func.simps) simp

lemma fields_word:
  assumes "word_ok w" and "s = [] \<or> is_space (hd s)"
  shows "fields (w @ s) = w # fields s"
proof -
  obtain c cs where w: "w = c # cs" "\<not> is_space c" using assms(1) by (cases w) (auto simp: word_ok_def)
  have all: "\<forall>x\<in>set w. \<not> is_space x" using assms(1) by (simp add: word_ok_def list_all_iff)
  have take: "takeWhile (\<lambda>c. \<not> is_space c) (w @ s) = w" and drop: "dropWhile (\<lambda>c. \<not> is_space c) (w @ s) = s"
    using all assms(2) by (cases s; simp add: takeWhile_append2 dropWhile_append2)+
  have keep: "dropWhile is_space (w @ s) = w @ s" and ne: "w @ s \<noteq> []" using w by simp_all
  show ?thesis
    unfolding fields_def
    by (subst fields_func.simps) (simp only: Let_def keep ne take drop if_False)
qed

lemma fields_join:
  assumes "list_all word_ok ws"
  shows "fields (join [CHR '' ''] ws) = ws"
  using assms
proof (induction "[CHR '' '']" ws rule: join.induct)
  case 1
  then show ?case by simp
next
  case (2 x)
  then show ?case using fields_word [of x "[]"] by simp
next
  case (3 x y ys)
  have sp: "is_space CHR '' ''" by code_simp
  have "fields (join [CHR '' ''] (x # y # ys)) = x # fields (CHR '' '' # join [CHR '' ''] (y # ys))"
    using 3(2) sp fields_word [of x "CHR '' '' # join [CHR '' ''] (y # ys)"] by simp
  then show ?case using 3 fields_skip [OF sp] by simp
qed

lemma fields_words: "w \<in> set (fields_func is_space s) \<Longrightarrow> word_ok w"
proof (induction "is_space" s rule: fields_func.induct)
  case (1 s)
  let ?t = "dropWhile is_space s"
  show ?case
  proof (cases "?t = []")
    case True
    then show ?thesis using 1(2) by (simp add: fields_func.simps [of _ s])
  next
    case False
    then obtain c cs where t: "?t = c # cs" "\<not> is_space c"
      by (metis hd_dropWhile list.exhaust list.sel(1))
    have "word_ok (takeWhile (\<lambda>c. \<not> is_space c) ?t)"
      using t by (auto simp: word_ok_def list_all_iff dest: set_takeWhileD)
    moreover have "fields_func is_space s =
        takeWhile (\<lambda>c. \<not> is_space c) ?t # fields_func is_space (dropWhile (\<lambda>c. \<not> is_space c) ?t)"
      using False by (subst fields_func.simps) (simp only: Let_def if_False)
    ultimately show ?thesis
      using 1(1) [OF refl False] 1(2) by auto
  qed
qed

lemma fields_word_ok: "list_all word_ok (fields s)"
  using fields_words by (auto simp: fields_def list_all_iff)

lemma fields_join_fields [simp]: "fields (join [CHR '' ''] (fields s)) = fields s"
  by (rule fields_join) (rule fields_word_ok)

end
