(* ===== verification/Antiscan_Text.thy ===== *)
theory Antiscan_Text
  imports Go_Text
begin

text \<open>
  The text of \<^verbatim>\<open>ascn.conf\<close>, the configuration of the Antiscan package that
  \<^verbatim>\<open>modules/antiscan-manager-runtime\<close> edits: the parser (\<^verbatim>\<open>antiscan.go\<close>), the checks on a requested
  update and the merge of the requested values into the text (\<^verbatim>\<open>config_transaction.go\<close>). The merge
  is shown to be exact: what it produces parses back to the requested values, keeps the comments,
  and gains a line end with every further application.
\<close>

subsection \<open>Parsing\<close>

type_synonym conf = "string \<Rightarrow> string option"

definition config_keys :: "string list" where
  "config_keys =
     [''ISP_INTERFACES'', ''PORTS'', ''PORTS_FORWARDED'', ''ENABLE_HONEYPOT'', ''HONEYPOT_PORTS'', ''HONEYPOT_BANTIME'',
      ''ENABLE_IPS_BAN'', ''RULES_MASK'', ''RECENT_CONNECTIONS_TIME'', ''RECENT_CONNECTIONS_HITCOUNT'',
      ''RECENT_CONNECTIONS_LIMIT'', ''RECENT_CONNECTIONS_BANTIME'', ''DIFFERENT_IP_CANDIDATES_STORAGETIME'',
      ''DIFFERENT_IP_THRESHOLD'', ''SUBNETS_BANTIME'', ''IPSETS_DIRECTORY'', ''SAVE_IPSETS'', ''SAVE_ON_EXIT'',
      ''USE_CUSTOM_EXCLUDE_LIST'', ''CUSTOM_LISTS_BLOCK_MODE'', ''GEOBLOCK_MODE'', ''GEOBLOCK_COUNTRIES'',
      ''GEO_EXCLUDE_COUNTRIES'', ''READ_NDM_LOCKOUT_IPSETS'', ''LOCKOUT_IPSET_BANTIME'']"

definition dquote :: "char" where
  "dquote = CHR 0x22"

definition unsafe_chars :: "string" where
  "unsafe_chars = [CHR 0x00, cr, lf, CHR 0x60, CHR ''$'', CHR 0x5C, dquote]"

definition valid_config_key :: "string \<Rightarrow> bool" where
  "valid_config_key k \<longleftrightarrow> k \<noteq> [] \<and> list_all (\<lambda>c. is_upper c \<or> is_digit c \<or> c = CHR ''_'') k"

definition skip_line :: "string \<Rightarrow> bool" where
  "skip_line l \<longleftrightarrow> trim_space l = [] \<or> has_prefix (trim_space l) ''#''"

fun parse_pieces :: "nat \<Rightarrow> string list \<Rightarrow> conf \<Rightarrow> conf \<times> go_error option" where
  "parse_pieces n [] raw = (raw, None)"
| "parse_pieces n (p # ps) raw =
     (if int (length p) \<ge> max_token then (raw, Some (Msg ''bufio.Scanner: token too long''))
      else
        (let line = trim_space (drop_cr p) in
         if line = [] \<or> has_prefix line ''#'' then parse_pieces (Suc n) ps raw
         else case index_char CHR ''='' line of
           None \<Rightarrow> (raw, Some (Msg (''line '' @ itoa (int n) @ '': expected KEY='' @ [dquote] @ ''VALUE'' @ [dquote])))
         | Some idx \<Rightarrow>
             if idx = 0
             then (raw, Some (Msg (''line '' @ itoa (int n) @ '': expected KEY='' @ [dquote] @ ''VALUE'' @ [dquote])))
             else
               (let key = trim_space (take idx line); value = trim_space (drop (Suc idx) line) in
                if \<not> valid_config_key key \<or> length value < 2 \<or> hd value \<noteq> dquote \<or> last value \<noteq> dquote
                then (raw, Some (Msg (''line '' @ itoa (int n) @ '': invalid Antiscan config syntax'')))
                else
                  (let inner = butlast (tl value) in
                   if contains_any inner unsafe_chars
                   then (raw, Some (Msg (''line '' @ itoa (int n) @ '': unsupported config value'')))
                   else parse_pieces (Suc n) ps (raw(key \<mapsto> inner))))))"

definition parse_raw :: "string \<Rightarrow> conf \<times> go_error option" where
  "parse_raw s = parse_pieces 1 (scan_pieces s) Map.empty"

definition conf_get :: "conf \<Rightarrow> string \<Rightarrow> string" where
  "conf_get m k = (case m k of None \<Rightarrow> [] | Some v \<Rightarrow> v)"

definition truthy :: "string \<Rightarrow> bool" where
  "truthy v \<longleftrightarrow> trim_space v = ''1''"

definition conf_integer :: "string \<Rightarrow> int" where
  "conf_integer v = parse_int (trim_space v)"

definition csv :: "string \<Rightarrow> string list" where
  "csv v = (if trim_space v = [] then [] else filter (\<lambda>p. p \<noteq> []) (map trim_space (split_char CHR '','' v)))"

fun first_non_empty :: "string list \<Rightarrow> string" where
  "first_non_empty [] = []"
| "first_non_empty (v # vs) = (if trim_space v \<noteq> [] then v else first_non_empty vs)"

record antiscan_config =
  cf_raw :: conf
  cf_interfaces :: "string list"
  cf_ports :: "string list"
  cf_forwarded :: "string list"
  cf_honeypot :: bool
  cf_honeypot_ports :: "string list"
  cf_honeypot_bantime :: int
  cf_ips_ban :: bool
  cf_rules_mask :: string
  cf_recent_time :: int
  cf_recent_hitcount :: int
  cf_recent_limit :: int
  cf_recent_bantime :: int
  cf_candidate_storage :: int
  cf_ip_threshold :: int
  cf_subnets_bantime :: int
  cf_save_ipsets :: bool
  cf_save_on_exit :: bool
  cf_custom_exclude :: bool
  cf_custom_mode :: string
  cf_geo_mode :: string
  cf_geo_countries :: "string list"
  cf_geo_exclude :: "string list"
  cf_ndm_lockout :: bool
  cf_lockout_bantime :: int
  cf_ipsets_dir :: string

definition config_of :: "conf \<Rightarrow> antiscan_config" where
  "config_of raw =
     \<lparr>cf_raw = raw,
      cf_interfaces = Go_Std.fields (conf_get raw ''ISP_INTERFACES''),
      cf_ports = csv (conf_get raw ''PORTS''),
      cf_forwarded = csv (conf_get raw ''PORTS_FORWARDED''),
      cf_honeypot = truthy (conf_get raw ''ENABLE_HONEYPOT''),
      cf_honeypot_ports = csv (conf_get raw ''HONEYPOT_PORTS''),
      cf_honeypot_bantime = conf_integer (conf_get raw ''HONEYPOT_BANTIME''),
      cf_ips_ban = (conf_get raw ''ENABLE_IPS_BAN'' = [] \<or> truthy (conf_get raw ''ENABLE_IPS_BAN'')),
      cf_rules_mask = first_non_empty [conf_get raw ''RULES_MASK'', ''255.255.255.255''],
      cf_recent_time = conf_integer (conf_get raw ''RECENT_CONNECTIONS_TIME''),
      cf_recent_hitcount = conf_integer (conf_get raw ''RECENT_CONNECTIONS_HITCOUNT''),
      cf_recent_limit = conf_integer (conf_get raw ''RECENT_CONNECTIONS_LIMIT''),
      cf_recent_bantime = conf_integer (conf_get raw ''RECENT_CONNECTIONS_BANTIME''),
      cf_candidate_storage = conf_integer (conf_get raw ''DIFFERENT_IP_CANDIDATES_STORAGETIME''),
      cf_ip_threshold = conf_integer (conf_get raw ''DIFFERENT_IP_THRESHOLD''),
      cf_subnets_bantime = conf_integer (conf_get raw ''SUBNETS_BANTIME''),
      cf_save_ipsets = truthy (conf_get raw ''SAVE_IPSETS''),
      cf_save_on_exit = truthy (conf_get raw ''SAVE_ON_EXIT''),
      cf_custom_exclude = truthy (conf_get raw ''USE_CUSTOM_EXCLUDE_LIST''),
      cf_custom_mode = first_non_empty [conf_get raw ''CUSTOM_LISTS_BLOCK_MODE'', ''0''],
      cf_geo_mode = first_non_empty [conf_get raw ''GEOBLOCK_MODE'', ''0''],
      cf_geo_countries = Go_Std.fields (conf_get raw ''GEOBLOCK_COUNTRIES''),
      cf_geo_exclude = Go_Std.fields (conf_get raw ''GEO_EXCLUDE_COUNTRIES''),
      cf_ndm_lockout = truthy (conf_get raw ''READ_NDM_LOCKOUT_IPSETS''),
      cf_lockout_bantime = conf_integer (conf_get raw ''LOCKOUT_IPSET_BANTIME''),
      cf_ipsets_dir = conf_get raw ''IPSETS_DIRECTORY''\<rparr>"

text \<open>On an error the returned configuration has the entries read so far and nothing else.\<close>

definition bare_config :: "conf \<Rightarrow> antiscan_config" where
  "bare_config raw =
     \<lparr>cf_raw = raw, cf_interfaces = [], cf_ports = [], cf_forwarded = [], cf_honeypot = False, cf_honeypot_ports = [],
      cf_honeypot_bantime = 0, cf_ips_ban = False, cf_rules_mask = [], cf_recent_time = 0, cf_recent_hitcount = 0,
      cf_recent_limit = 0, cf_recent_bantime = 0, cf_candidate_storage = 0, cf_ip_threshold = 0, cf_subnets_bantime = 0,
      cf_save_ipsets = False, cf_save_on_exit = False, cf_custom_exclude = False, cf_custom_mode = [], cf_geo_mode = [],
      cf_geo_countries = [], cf_geo_exclude = [], cf_ndm_lockout = False, cf_lockout_bantime = 0, cf_ipsets_dir = []\<rparr>"

definition parse_config :: "string \<Rightarrow> antiscan_config \<times> go_error option" where
  "parse_config s =
     (case parse_raw s of
        (raw, Some e) \<Rightarrow> (bare_config raw, Some e)
      | (raw, None) \<Rightarrow> (config_of raw, None))"

subsection \<open>Merging the requested values\<close>

fun check_values :: "conf \<Rightarrow> string list \<Rightarrow> go_error option" where
  "check_values vals [] = None"
| "check_values vals (k # ks) =
     (case vals k of
        None \<Rightarrow> Some (Msg (''missing config value '' @ k))
      | Some v \<Rightarrow> if contains_any v unsafe_chars then Some (Msg (k @ '' contains unsupported characters''))
                  else check_values vals ks)"

definition entry_line :: "conf \<Rightarrow> string \<Rightarrow> string" where
  "entry_line vals k = k @ ''='' @ [dquote] @ conf_get vals k @ [dquote]"

fun merge_lines :: "conf \<Rightarrow> nat \<Rightarrow> string list \<Rightarrow> go_error + string list \<times> string set" where
  "merge_lines vals n [] = Inr ([], {})"
| "merge_lines vals n (l # ls) =
     (let t = trim_space l in
      if t = [] \<or> has_prefix t ''#''
      then (case merge_lines vals (Suc n) ls of Inl e \<Rightarrow> Inl e | Inr (out, seen) \<Rightarrow> Inr (l # out, seen))
      else case index_char CHR ''='' t of
        None \<Rightarrow> Inl (Msg (''line '' @ itoa (int n) @ '': expected KEY='' @ [dquote] @ ''VALUE'' @ [dquote]))
      | Some idx \<Rightarrow>
          if idx = 0
          then Inl (Msg (''line '' @ itoa (int n) @ '': expected KEY='' @ [dquote] @ ''VALUE'' @ [dquote]))
          else
            (let key = trim_space (take idx t) in
             if key \<notin> set config_keys
             then Inl (Msg (''line '' @ itoa (int n) @ '': unsupported Antiscan config key '' @ key))
             else case merge_lines vals (Suc n) ls of
               Inl e \<Rightarrow> Inl e
             | Inr (out, seen) \<Rightarrow> Inr (entry_line vals key # out, insert key seen)))"

definition added_note :: "string" where
  "added_note = ''# Added by RouterForge Antiscan Manager''"

definition drop_blank_end :: "string list \<Rightarrow> string list" where
  "drop_blank_end ls = rev (dropWhile (\<lambda>l. l = []) (rev ls))"

definition append_missing :: "conf \<Rightarrow> string list \<Rightarrow> string set \<Rightarrow> string list" where
  "append_missing vals out seen =
     (let missing = filter (\<lambda>k. k \<notin> seen) config_keys in
      if missing \<noteq> [] then drop_blank_end out @ [[], added_note] @ map (entry_line vals) missing else out)"

definition merge_config :: "string \<Rightarrow> conf \<Rightarrow> go_error + string" where
  "merge_config original vals =
     (case check_values vals config_keys of
        Some e \<Rightarrow> Inl e
      | None \<Rightarrow>
          (case merge_lines vals 1 (split_char lf (replace_crlf original)) of
             Inl e \<Rightarrow> Inl e
           | Inr (out, seen) \<Rightarrow> Inr (join [lf] (append_missing vals out seen) @ [lf])))"

fun mismatch :: "conf \<Rightarrow> conf \<Rightarrow> string list \<Rightarrow> go_error option" where
  "mismatch got want [] = None"
| "mismatch got want (k # ks) =
     (if conf_get got k \<noteq> conf_get want k then Some (Msg (''generated config verification mismatch for '' @ k))
      else mismatch got want ks)"

definition verify_values :: "string \<Rightarrow> conf \<Rightarrow> go_error option" where
  "verify_values candidate vals =
     (case parse_config candidate of
        (cfg, Some e) \<Rightarrow> Some (Wrap ''parse generated config: '' e)
      | (cfg, None) \<Rightarrow> mismatch (cf_raw cfg) vals config_keys)"

subsection \<open>The lines a merge writes\<close>

lemma key_chars:
  assumes "valid_config_key k"
  shows "k \<noteq> []" and "\<forall>c\<in>set k. \<not> is_space c" and "CHR ''='' \<notin> set k" and "hd k \<noteq> CHR ''#''" and "\<not> is_space (hd k)"
proof -
  have c: "\<not> is_space c \<and> c \<noteq> CHR ''='' \<and> c \<noteq> CHR ''#''" if "c \<in> set k" for c
  proof -
    have "is_upper c \<or> is_digit c \<or> c = CHR ''_''" using assms that by (auto simp: valid_config_key_def list_all_iff)
    then show ?thesis by (auto simp: is_upper_def is_digit_def is_space_def byte_of_def)
  qed
  show "k \<noteq> []" using assms by (simp add: valid_config_key_def)
  then have "hd k \<in> set k" by simp
  then show "\<forall>c\<in>set k. \<not> is_space c" "CHR ''='' \<notin> set k" "hd k \<noteq> CHR ''#''" "\<not> is_space (hd k)"
    using c by auto
qed

lemma config_keys_valid: "k \<in> set config_keys \<Longrightarrow> valid_config_key k"
proof -
  have "list_all valid_config_key config_keys" by code_simp
  then show "k \<in> set config_keys \<Longrightarrow> valid_config_key k" by (simp add: list_all_iff)
qed

lemma dquote_facts [simp]: "\<not> is_space dquote" "dquote \<noteq> lf" "dquote \<noteq> cr" "lf \<noteq> dquote" "cr \<noteq> dquote"
  by (simp_all add: dquote_def is_space_def byte_of_def lf_def cr_def)

lemma check_values_None:
  "check_values vals ks = None \<longleftrightarrow> (\<forall>k\<in>set ks. \<exists>v. vals k = Some v \<and> \<not> contains_any v unsafe_chars)"
  by (induction ks) (auto split: option.splits)

lemma trim_space_word: "\<forall>c\<in>set k. \<not> is_space c \<Longrightarrow> trim_space k = k"
  by (rule trim_space_id) (cases "k = []"; auto)

lemma entry_line_reads:
  assumes k: "k \<in> set config_keys"
  shows "trim_space (entry_line vals k) = entry_line vals k"
    and "trim_space (drop_cr (entry_line vals k)) = entry_line vals k"
    and "entry_line vals k \<noteq> []" and "\<not> has_prefix (entry_line vals k) ''#''"
    and "index_char CHR ''='' (entry_line vals k) = Some (length k)"
    and "trim_space (take (length k) (entry_line vals k)) = k"
    and "trim_space (drop (Suc (length k)) (entry_line vals k)) = dquote # conf_get vals k @ [dquote]"
proof -
  note kc = key_chars [OF config_keys_valid [OF k]]
  obtain c cs where c: "k = c # cs" using kc(1) by (cases k) auto
  show t: "trim_space (entry_line vals k) = entry_line vals k"
    using kc(1,5) by (intro trim_space_id) (simp add: entry_line_def)
  then show "trim_space (drop_cr (entry_line vals k)) = entry_line vals k" by simp
  show "entry_line vals k \<noteq> []" by (simp add: entry_line_def)
  show "\<not> has_prefix (entry_line vals k) ''#''"
    using kc(4) c by (simp add: entry_line_def has_prefix_def)
  show "index_char CHR ''='' (entry_line vals k) = Some (length k)"
    using index_char_append [OF kc(3)] by (simp add: entry_line_def)
  show "trim_space (take (length k) (entry_line vals k)) = k"
    using trim_space_word [OF kc(2)] by (simp add: entry_line_def)
  have "trim_space (dquote # conf_get vals k @ [dquote]) = dquote # conf_get vals k @ [dquote]"
    by (rule trim_space_id) simp
  then show "trim_space (drop (Suc (length k)) (entry_line vals k)) = dquote # conf_get vals k @ [dquote]"
    by (simp add: entry_line_def)
qed

lemma entry_line_not_skip: "k \<in> set config_keys \<Longrightarrow> \<not> skip_line (entry_line vals k)"
  using entry_line_reads [of k vals] by (simp add: skip_line_def)

lemma entry_line_inj:
  assumes "k \<in> set config_keys" and "k' \<in> set config_keys" and "entry_line vals k = entry_line vals k'"
  shows "k = k'"
  using entry_line_reads(5,6) [OF assms(1), of vals] entry_line_reads(5,6) [OF assms(2), of vals] assms(3) by simp

definition conf_line :: "conf \<Rightarrow> string \<Rightarrow> bool" where
  "conf_line vals l \<longleftrightarrow> skip_line l \<or> (\<exists>k\<in>set config_keys. l = entry_line vals k)"

definition keys_in :: "conf \<Rightarrow> string list \<Rightarrow> string set" where
  "keys_in vals ls = {k \<in> set config_keys. entry_line vals k \<in> set ls}"

lemma keys_in_Cons:
  "keys_in vals (l # ls) = {k \<in> set config_keys. l = entry_line vals k} \<union> keys_in vals ls"
  by (auto simp: keys_in_def)

lemma keys_in_skip: "skip_line l \<Longrightarrow> keys_in vals (l # ls) = keys_in vals ls"
  using entry_line_not_skip by (auto simp: keys_in_Cons)

lemma keys_in_entry: "k \<in> set config_keys \<Longrightarrow> keys_in vals (entry_line vals k # ls) = insert k (keys_in vals ls)"
  using entry_line_inj by (auto simp: keys_in_Cons)

lemma keys_in_snoc_Nil: "keys_in vals (ls @ [[]]) = keys_in vals ls"
  by (auto simp: keys_in_def entry_line_def)

text \<open>What the merge makes of the lines: those that say nothing stay, the others become the entry of
  their key.\<close>

lemma merge_lines_result:
  "merge_lines vals n ls = Inr (out, seen) \<Longrightarrow>
   list_all2 (\<lambda>l x. if skip_line l then x = l else \<exists>k\<in>set config_keys. x = entry_line vals k) ls out \<and>
   seen = keys_in vals out"
proof (induction ls arbitrary: n out seen)
  case Nil
  then show ?case by (simp add: keys_in_def)
next
  case (Cons l ls)
  show ?case
  proof (cases "skip_line l")
    case True
    then obtain out' where out: "out = l # out'" and "merge_lines vals (Suc n) ls = Inr (out', seen)"
      using Cons.prems by (auto simp: skip_line_def Let_def split: sum.splits prod.splits)
    then show ?thesis using Cons.IH True by (auto simp: keys_in_skip)
  next
    case False
    then obtain key out' seen' where "key \<in> set config_keys" "out = entry_line vals key # out'" "seen = insert key seen'"
      and "merge_lines vals (Suc n) ls = Inr (out', seen')"
      using Cons.prems by (auto simp: skip_line_def Let_def split: sum.splits prod.splits option.splits if_splits)
    then show ?thesis using Cons.IH False by (auto simp: keys_in_entry)
  qed
qed

lemma merge_lines_out:
  assumes "merge_lines vals n ls = Inr (out, seen)"
  shows "list_all (conf_line vals) out" and "length out = length ls"
    and "filter skip_line out = filter skip_line ls"
proof -
  note l2 = conjunct1 [OF merge_lines_result [OF assms]]
  then show "length out = length ls" by (simp add: list_all2_lengthD)
  show "list_all (conf_line vals) out"
    using l2 by (induction rule: list_all2_induct) (auto simp: conf_line_def split: if_splits)
  show "filter skip_line out = filter skip_line ls"
    using l2 by (induction rule: list_all2_induct) (auto simp: entry_line_not_skip split: if_splits)
qed

lemma merge_lines_again:
  "list_all (conf_line vals) ps \<Longrightarrow> merge_lines vals n ps = Inr (ps, keys_in vals ps)"
proof (induction ps arbitrary: n)
  case Nil
  then show ?case by (simp add: keys_in_def)
next
  case (Cons p ps)
  then have ih: "merge_lines vals (Suc n) ps = Inr (ps, keys_in vals ps)" by simp
  show ?case
  proof (cases "skip_line p")
    case True
    then show ?thesis using ih by (auto simp: skip_line_def Let_def keys_in_skip)
  next
    case False
    then obtain k where k: "k \<in> set config_keys" "p = entry_line vals k"
      using Cons.prems by (auto simp: conf_line_def)
    have ne: "k \<noteq> []" using k(1) config_keys_valid by (auto simp: valid_config_key_def)
    show ?thesis
      using ih k(1) ne unfolding k(2)
      by (simp add: entry_line_reads [OF k(1)] Let_def keys_in_entry)
  qed
qed

lemma parse_step:
  assumes vals: "check_values vals config_keys = None" and "conf_line vals p" and "int (length p) < max_token"
  obtains raw' where "\<And>ps. parse_pieces n (p # ps) raw = parse_pieces (Suc n) ps raw'"
    and "\<And>ps k. (if k \<in> keys_in vals (p # ps) then vals k else raw k) = (if k \<in> keys_in vals ps then vals k else raw' k)"
proof (cases "skip_line p")
  case True
  then show ?thesis using assms(3) that [of raw] by (auto simp: skip_line_def Let_def keys_in_skip)
next
  case False
  then obtain k where k: "k \<in> set config_keys" "p = entry_line vals k"
    using assms(2) by (auto simp: conf_line_def)
  obtain v where v: "vals k = Some v" "\<not> contains_any v unsafe_chars"
    using vals k(1) by (auto simp: check_values_None)
  have ne: "k \<noteq> []" using k(1) config_keys_valid by (auto simp: valid_config_key_def)
  have "parse_pieces n (p # ps) raw = parse_pieces (Suc n) ps (raw(k \<mapsto> v))" for ps
    using assms(3) ne v config_keys_valid [OF k(1)] unfolding k(2)
    by (simp add: entry_line_reads [OF k(1)] Let_def conf_get_def)
  moreover have "(if x \<in> keys_in vals (p # ps) then vals x else raw x) =
      (if x \<in> keys_in vals ps then vals x else (raw(k \<mapsto> v)) x)" for ps x
    unfolding k(2) by (auto simp: keys_in_entry [OF k(1)] v)
  ultimately show ?thesis using that by blast
qed

lemma parse_merged:
  assumes vals: "check_values vals config_keys = None"
  shows "list_all (conf_line vals) ps \<Longrightarrow> list_all (\<lambda>p. int (length p) < max_token) ps \<Longrightarrow>
    parse_pieces n ps raw = ((\<lambda>k. if k \<in> keys_in vals ps then vals k else raw k), None)"
proof (induction ps arbitrary: n raw)
  case Nil
  then show ?case by (simp add: keys_in_def)
next
  case (Cons p ps)
  have p: "conf_line vals p" "int (length p) < max_token" using Cons.prems by simp_all
  obtain raw' where "parse_pieces n (p # ps) raw = parse_pieces (Suc n) ps raw'"
    and same: "\<And>k. (if k \<in> keys_in vals (p # ps) then vals k else raw k) = (if k \<in> keys_in vals ps then vals k else raw' k)"
    by (rule parse_step [OF vals p, of n raw]) blast
  then show ?case unfolding same using Cons by simp
qed

lemma parse_long:
  assumes vals: "check_values vals config_keys = None" and "list_all (conf_line vals) ps"
    and "\<not> list_all (\<lambda>p. int (length p) < max_token) ps"
  shows "snd (parse_pieces n ps raw) \<noteq> None"
proof -
  obtain a p b where ps: "ps = a @ p # b" "list_all (\<lambda>p. int (length p) < max_token) a" "max_token \<le> int (length p)"
    using assms(3) split_list_first_prop [of ps "\<lambda>p. \<not> int (length p) < max_token"] by (auto simp: list_all_iff)
  have step: "snd (parse_pieces n (a @ p # b) raw) \<noteq> None"
    if "list_all (conf_line vals) a" "list_all (\<lambda>p. int (length p) < max_token) a" for a n raw
    using that
  proof (induction a arbitrary: n raw)
    case Nil
    then show ?case using ps(3) by simp
  next
    case (Cons x xs)
    then have x: "conf_line vals x" "int (length x) < max_token" by simp_all
    obtain raw' where "parse_pieces n (x # (xs @ p # b)) raw = parse_pieces (Suc n) (xs @ p # b) raw'"
      by (rule parse_step [OF vals x, of n raw]) blast
    then show ?case using Cons by simp
  qed
  show ?thesis unfolding ps(1) using assms(2) ps by (intro step) auto
qed

subsection \<open>The merged text\<close>

lemma drop_blank_end_keeps:
  "set (drop_blank_end ls) \<subseteq> set ls" "filter P (drop_blank_end ls) = filter P ls" if "\<not> P []"
proof -
  have split: "ls = drop_blank_end ls @ rev (takeWhile (\<lambda>l. l = []) (rev ls))"
    unfolding drop_blank_end_def by (metis rev_append rev_rev_ident takeWhile_dropWhile_id)
  show "set (drop_blank_end ls) \<subseteq> set ls" using split by (metis Un_upper1 set_append)
  have "filter P (rev (takeWhile (\<lambda>l. l = []) (rev ls))) = []"
    using that by (auto simp: filter_empty_conv dest: set_takeWhileD)
  then show "filter P (drop_blank_end ls) = filter P ls" using split by (metis append_Nil2 filter_append)
qed

lemma skip_Nil [simp]: "skip_line []"
  by (simp add: skip_line_def)

lemma skip_note [simp]: "skip_line added_note"
  by code_simp

lemma append_missing_result:
  assumes "list_all (conf_line vals) out" and "seen = keys_in vals out"
  shows "list_all (conf_line vals) (append_missing vals out seen)"
    and "keys_in vals (append_missing vals out seen) = set config_keys"
proof -
  let ?missing = "filter (\<lambda>k. k \<notin> seen) config_keys"
  show "list_all (conf_line vals) (append_missing vals out seen)"
    using assms(1) drop_blank_end_keeps(1) [of "\<lambda>_. False" out]
    by (auto simp: append_missing_def Let_def list_all_iff conf_line_def)
  show "keys_in vals (append_missing vals out seen) = set config_keys"
  proof (cases "?missing = []")
    case True
    then have "set config_keys \<subseteq> seen" by (auto simp: filter_empty_conv)
    then show ?thesis using True assms(2) by (auto simp: append_missing_def keys_in_def)
  next
    case False
    have "entry_line vals k \<in> set (append_missing vals out seen)" if k: "k \<in> set config_keys" for k
    proof (cases "k \<in> seen")
      case True
      then have "entry_line vals k \<in> set (filter (\<lambda>l. \<not> skip_line l) out)"
        using assms(2) k entry_line_not_skip by (simp add: keys_in_def)
      then have "entry_line vals k \<in> set (drop_blank_end out)"
        by (metis (mono_tags) drop_blank_end_keeps(2) filter_is_subset skip_Nil subsetD)
      then show ?thesis using False by (simp add: append_missing_def Let_def)
    next
      case not_seen: False
      then have "entry_line vals k \<in> entry_line vals ` set ?missing" using k by simp
      then show ?thesis
        using False unfolding append_missing_def Let_def by (simp only: not_False_eq_True if_True set_append set_map) blast
    qed
    then show ?thesis by (auto simp: keys_in_def)
  qed
qed

lemma entry_line_no_lf:
  assumes "k \<in> set config_keys" and "check_values vals config_keys = None"
  shows "lf \<notin> set (entry_line vals k)" and "cr \<notin> set (entry_line vals k)"
proof -
  obtain v where v: "vals k = Some v" "\<not> contains_any v unsafe_chars"
    using assms by (auto simp: check_values_None)
  have "lf \<notin> set v" "cr \<notin> set v" using v(2) by (auto simp: contains_any_def unsafe_chars_def list_ex_iff)
  moreover have "lf \<notin> set k" "cr \<notin> set k"
    using key_chars(2) [OF config_keys_valid [OF assms(1)]] by (metis lf_cr(3,4))+
  moreover have "lf \<noteq> CHR ''=''" "cr \<noteq> CHR ''=''" by (simp_all add: lf_def cr_def)
  ultimately show "lf \<notin> set (entry_line vals k)" "cr \<notin> set (entry_line vals k)"
    using dquote_facts by (auto simp: entry_line_def v conf_get_def)
qed

text \<open>The shape of every merge result.\<close>

lemma merge_config_shape:
  assumes "merge_config original vals = Inr cand"
  obtains out ls where "check_values vals config_keys = None"
    and "merge_lines vals 1 (split_char lf (replace_crlf original)) = Inr (out, keys_in vals out)"
    and "list_all (conf_line vals) out"
    and "ls = append_missing vals out (keys_in vals out)" and "ls \<noteq> []" and "\<forall>l\<in>set ls. lf \<notin> set l"
    and "cand = join [lf] ls @ [lf]" and "scan_pieces cand = ls" and "split_char lf cand = ls @ [[]]"
    and "list_all (conf_line vals) ls" and "keys_in vals ls = set config_keys"
proof -
  obtain out seen where vals: "check_values vals config_keys = None"
    and m: "merge_lines vals 1 (split_char lf (replace_crlf original)) = Inr (out, seen)"
    and cand: "cand = join [lf] (append_missing vals out seen) @ [lf]"
    using assms by (auto simp: merge_config_def split: option.splits sum.splits prod.splits)
  define ls where "ls = append_missing vals out seen"
  note r = merge_lines_out [OF m] and seen = conjunct2 [OF merge_lines_result [OF m]]
  have "out \<noteq> []" using r(2) by auto
  then have ne: "ls \<noteq> []" by (auto simp: ls_def append_missing_def Let_def)
  have "lf \<notin> set l" if l: "l \<in> set out" for l
  proof (cases "skip_line l")
    case True
    then have "l \<in> set (filter skip_line out)" using l by simp
    then have "l \<in> set (filter skip_line (split_char lf (replace_crlf original)))" by (simp only: r(3))
    then show ?thesis using split_char_no_sep by auto
  next
    case False
    then obtain k where "k \<in> set config_keys" "l = entry_line vals k"
      using r(1) l by (auto simp: list_all_iff conf_line_def)
    then show ?thesis using entry_line_no_lf(1) [OF _ vals] by simp
  qed
  moreover have "lf \<notin> set added_note" by code_simp
  ultimately have no_lf: "\<forall>l\<in>set ls. lf \<notin> set l"
    using drop_blank_end_keeps(1) [of "\<lambda>_. False" out] entry_line_no_lf(1) [OF _ vals]
    by (auto simp: ls_def append_missing_def Let_def)
  have pieces: "scan_pieces cand = ls"
    using scan_pieces_lines [OF no_lf] ne cand by (simp add: ls_def)
  have "join [lf] (ls @ [[]]) = join [lf] ls @ [lf]"
    using ne by (rule join_snoc_empty)
  then have "split_char lf cand = ls @ [[]]"
    using split_char_join [of "ls @ [[]]" lf] no_lf cand by (auto simp: ls_def)
  then show thesis
    using that [of out ls] vals m r(1) seen cand ls_def ne no_lf pieces append_missing_result [OF r(1) seen] by simp
qed

lemma mismatch_None: "mismatch got want ks = None \<longleftrightarrow> (\<forall>k\<in>set ks. conf_get got k = conf_get want k)"
  by (induction ks) auto

lemma merged_verifies:
  assumes "merge_config original vals = Inr cand"
  shows "verify_values cand vals = None \<longleftrightarrow> list_all (\<lambda>l. int (length l) < max_token) (split_char lf cand)"
proof -
  obtain out ls where vals: "check_values vals config_keys = None" and "cand = join [lf] ls @ [lf]"
    and pieces: "scan_pieces cand = ls" "split_char lf cand = ls @ [[]]"
    and conf: "list_all (conf_line vals) ls" and keys: "keys_in vals ls = set config_keys"
    by (rule merge_config_shape [OF assms]) blast
  have short: "list_all (\<lambda>l. int (length l) < max_token) (split_char lf cand) \<longleftrightarrow> list_all (\<lambda>l. int (length l) < max_token) ls"
    by (simp add: pieces max_token_def)
  show ?thesis
  proof (cases "list_all (\<lambda>l. int (length l) < max_token) ls")
    case True
    then have "parse_raw cand = ((\<lambda>k. if k \<in> set config_keys then vals k else None), None)"
      using parse_merged [OF vals conf, of 1 Map.empty] by (simp add: parse_raw_def pieces keys)
    then have "verify_values cand vals = None"
      by (simp add: verify_values_def parse_config_def config_of_def mismatch_None conf_get_def)
    then show ?thesis using True short by simp
  next
    case False
    then have "snd (parse_raw cand) \<noteq> None"
      using parse_long [OF vals conf] by (simp add: parse_raw_def pieces)
    then have "verify_values cand vals \<noteq> None"
      by (auto simp: verify_values_def parse_config_def split: prod.splits option.splits)
    then show ?thesis using False short by simp
  qed
qed

definition note_line :: "string \<Rightarrow> bool" where
  "note_line l \<longleftrightarrow> skip_line l \<and> trim_space l \<noteq> []"

lemma merged_keeps_notes:
  assumes "merge_config original vals = Inr cand"
  shows "\<exists>added. set added \<subseteq> {added_note} \<and>
     filter note_line (split_char lf cand) = filter note_line (split_char lf (replace_crlf original)) @ added"
proof -
  obtain out ls where m: "merge_lines vals 1 (split_char lf (replace_crlf original)) = Inr (out, keys_in vals out)"
    and ls: "ls = append_missing vals out (keys_in vals out)" and split: "split_char lf cand = ls @ [[]]"
    by (rule merge_config_shape [OF assms]) blast
  have nil: "\<not> note_line []" by (simp add: note_line_def)
  have n: "filter note_line xs = filter note_line (filter skip_line xs)" for xs
    unfolding filter_filter by (rule filter_cong) (auto simp: note_line_def)
  have "filter note_line out = filter note_line (split_char lf (replace_crlf original))"
    using merge_lines_out(3) [OF m] n by metis
  moreover have "filter note_line (map (entry_line vals) (filter P config_keys)) = []" for P
    using entry_line_not_skip by (auto simp: note_line_def filter_empty_conv)
  ultimately have "filter note_line ls = filter note_line (split_char lf (replace_crlf original)) @
      (if filter (\<lambda>k. k \<notin> keys_in vals out) config_keys = [] then [] else filter note_line [added_note])"
    using nil drop_blank_end_keeps(2) [of note_line out] by (simp add: ls append_missing_def Let_def)
  then show ?thesis using nil by (auto simp: split)
qed

text \<open>C11: the merge of requested values into \<^verbatim>\<open>ascn.conf\<close> is exact: the generated text passes the
  verification, that is, it parses and every key has the requested value, exactly when none of its
  lines exceeds what the scanner of the parser takes; and every comment of the file is kept, in
  its order, with at most the note of the manager added.\<close>

theorem merge_is_exact:
  assumes "merge_config original vals = Inr cand"
  shows "(verify_values cand vals = None \<longleftrightarrow> list_all (\<lambda>l. int (length l) < max_token) (split_char lf cand)) \<and>
    (\<exists>added. set added \<subseteq> {added_note} \<and>
       filter note_line (split_char lf cand) = filter note_line (split_char lf (replace_crlf original)) @ added)"
  using merged_verifies [OF assms] merged_keeps_notes [OF assms] by blast

text \<open>The merge is not idempotent: applying the values again to the text the merge produced
  appends one more empty line, every time, so the text never equals the one it was made from and
  the early return for settings that are already there is never taken.\<close>

theorem merge_again_grows:
  assumes "cr \<notin> set original" and "merge_config original vals = Inr cand"
  shows "merge_config cand vals = Inr (cand @ [lf]) \<and> cand \<noteq> original"
proof -
  obtain out ls where vals: "check_values vals config_keys = None"
    and m: "merge_lines vals 1 (split_char lf (replace_crlf original)) = Inr (out, keys_in vals out)"
    and ls: "ls = append_missing vals out (keys_in vals out)" "ls \<noteq> []"
    and cand: "cand = join [lf] ls @ [lf]" "split_char lf cand = ls @ [[]]"
    and conf: "list_all (conf_line vals) ls" and keys: "keys_in vals ls = set config_keys"
    by (rule merge_config_shape [OF assms(2)]) blast
  have note_cr: "cr \<notin> set added_note" by code_simp
  have out_cr: "cr \<notin> set l" if l: "l \<in> set out" for l
  proof (cases "skip_line l")
    case True
    then have "l \<in> set (filter skip_line out)" using l by simp
    then have "l \<in> set (split_char lf original)"
      using merge_lines_out(3) [OF m] assms(1) by auto
    then have "set l \<subseteq> set original" by (rule split_char_subset)
    then show ?thesis using assms(1) by auto
  next
    case False
    then obtain k where "k \<in> set config_keys" "l = entry_line vals k"
      using merge_lines_out(1) [OF m] l by (auto simp: list_all_iff conf_line_def)
    then show ?thesis using entry_line_no_lf(2) [OF _ vals] by simp
  qed
  have "cr \<notin> set l" if "l \<in> set ls" for l
    using that out_cr note_cr drop_blank_end_keeps(1) [of "\<lambda>_. False" out] entry_line_no_lf(2) [OF _ vals]
    by (auto simp: ls append_missing_def Let_def split: if_splits)
  then have no_cr: "cr \<notin> set cand" using set_join [of "[lf]" ls] cand(1) by auto
  have "list_all (conf_line vals) (ls @ [[]])" using conf by (simp add: conf_line_def)
  from merge_lines_again [OF this, of 1]
  have again: "merge_lines vals 1 (split_char lf cand) = Inr (ls @ [[]], set config_keys)"
    using keys keys_in_snoc_Nil [of vals ls] by (simp add: cand(2))
  have "append_missing vals (ls @ [[]]) (set config_keys) = ls @ [[]]"
    by (simp add: append_missing_def)
  then have grown: "merge_config cand vals = Inr (cand @ [lf])"
    using vals again no_cr by (simp add: merge_config_def cand(1) join_snoc_empty [OF ls(2)])
  moreover have "cand \<noteq> original" using grown assms(2) by auto
  ultimately show ?thesis by blast
qed

subsection \<open>An example\<close>

definition example_vals :: "conf" where
  "example_vals = map_of (map (\<lambda>k. (k, ''1'')) config_keys)"

definition example_text :: "string" where
  "example_text = ''# ports'' @ [lf] @ ''PORTS='' @ [lf]"


theorem merge_is_exact_witness:
  "\<exists>cand. merge_config example_text example_vals = Inr cand \<and> verify_values cand example_vals = None"
proof -
  have "case merge_config example_text example_vals of Inl e \<Rightarrow> False | Inr cand \<Rightarrow> list_all (\<lambda>l. int (length l) < max_token) (split_char lf cand)"
    by code_simp
  then obtain cand where "merge_config example_text example_vals = Inr cand"
    "list_all (\<lambda>l. int (length l) < max_token) (split_char lf cand)"
    by (auto split: sum.splits)
  then show ?thesis using merge_is_exact [of example_text example_vals cand] by blast
qed

theorem merge_again_grows_witness:
  "\<exists>cand. merge_config example_text example_vals = Inr cand \<and> merge_config cand example_vals = Inr (cand @ [lf])"
proof -
  have "is_ok (merge_config example_text example_vals)" "cr \<notin> set example_text" by code_simp+
  then show ?thesis using merge_again_grows [of example_text example_vals] by (auto simp: is_ok_def split: sum.splits)
qed

end
