(* ===== verification/Antiscan_Host.thy ===== *)
theory Antiscan_Host
  imports Safety_File
begin

text \<open>
  The host the Antiscan manager works on (\<^verbatim>\<open>modules/antiscan-manager-runtime\<close>): the files, and everything
  else the external programs keep, whose behaviour is a parameter; the markers by which the package
  shows that it runs or reloads; and the start, stop, reload and restart actions of
  \<^verbatim>\<open>lifecycle.go\<close> with their verification.
\<close>

subsection \<open>Files and programs\<close>

type_synonym 'w host = "os \<times> 'w"

type_synonym 'w program = "string \<Rightarrow> string list \<Rightarrow> 'w host \<Rightarrow> (string \<times> go_error option) \<times> 'w host"

definition on_os :: "'a io \<Rightarrow> 'w host \<Rightarrow> (go_error + 'a) \<times> 'w host" where
  "on_os m h = (case m (fst h) of (r, s) \<Rightarrow> (r, (s, snd h)))"

text \<open>\<^verbatim>\<open>safety.RunCommand\<close> on this host: the guard of the command first, the cut of its output last.\<close>

definition host_run ::
    "'w program \<Rightarrow> int \<Rightarrow> string \<Rightarrow> string list \<Rightarrow> 'w host \<Rightarrow> (string option \<times> go_error option) \<times> 'w host" where
  "host_run prog limit program args h =
     (case validate_command True program args of
        Some e \<Rightarrow> ((None, Some e), h)
      | None \<Rightarrow>
          if limit < 0 then ((None, Some (Msg ''command output limit is negative'')), h)
          else (case prog program args h of
                  (r, h') \<Rightarrow> (run_command (\<lambda>_ _. r) True limit program args, h')))"

definition output_text :: "string option \<Rightarrow> string" where
  "output_text out = (case out of None \<Rightarrow> [] | Some t \<Rightarrow> t)"

definition path_exists :: "string \<Rightarrow> 'w host \<Rightarrow> bool \<times> 'w host" where
  "path_exists p h = (case on_os (fs_stat p) h of (r, h') \<Rightarrow> (is_ok r, h'))"

record runtime_config =
  rc_dir :: string
  rc_init :: string
  rc_status :: string
  rc_config_lock :: string
  rc_geo_lock :: string

text \<open>\<^verbatim>\<open>pathExists(ConfigLockFile) || pathExists(GeoLockFile)\<close>.\<close>

definition lock_present :: "runtime_config \<Rightarrow> 'w host \<Rightarrow> bool \<times> 'w host" where
  "lock_present cfg h =
     (case path_exists (rc_config_lock cfg) h of
        (True, h1) \<Rightarrow> (True, h1)
      | (False, h1) \<Rightarrow> path_exists (rc_geo_lock cfg) h1)"

definition compact_output :: "string option \<Rightarrow> go_error option \<Rightarrow> string" where
  "compact_output out err =
     (let t = trim_space (output_text out); t' = (if length t > 512 then take 512 t else t) in
      if t' \<noteq> [] then t' else (case err of Some e \<Rightarrow> error_text e | None \<Rightarrow> ''unknown error''))"

definition executable :: "node \<Rightarrow> bool" where
  "executable n \<longleftrightarrow> \<not> is_dir n \<and> (odd (node_perm n) \<or> odd (node_perm n div 8) \<or> odd (node_perm n div 64))"

definition lifecycle_ready :: "runtime_config \<Rightarrow> 'w host \<Rightarrow> go_error option \<times> 'w host" where
  "lifecycle_ready cfg h =
     (case lock_present cfg h of
        (True, h1) \<Rightarrow> (Some (Msg ''Antiscan reload is already in progress''), h1)
      | (False, h1) \<Rightarrow>
          (case on_os (fs_stat (rc_init cfg)) h1 of
             (Inl e, h2) \<Rightarrow> (Some (Msg ''Antiscan init script is unavailable or not executable''), h2)
           | (Inr info, h2) \<Rightarrow>
               (if \<not> executable info then Some (Msg ''Antiscan init script is unavailable or not executable'') else None, h2)))"

subsection \<open>Start, stop, reload, restart\<close>

record lifecycle_result =
  lr_action :: string
  lr_before :: bool
  lr_after :: bool
  lr_changed :: bool
  lr_verified :: bool
  lr_output :: string
  lr_warnings :: "string list"

definition normalize_action :: "string \<Rightarrow> go_error + string" where
  "normalize_action raw =
     (let a = to_lower (trim_space raw) in
      if a \<in> {''start'', ''stop'', ''reload'', ''restart''} then Inr a
      else Inl (Msg ''lifecycle action must be start, stop, reload or restart''))"

definition lifecycle_output_max :: "int" where
  "lifecycle_output_max = 32768"

text \<open>The check after the command: what each action must have left, and whether that is a change.\<close>

definition verify_action :: "string \<Rightarrow> bool \<Rightarrow> bool \<Rightarrow> go_error + bool" where
  "verify_action action before after =
     (if action = ''start'' then
        (if \<not> after then Inl (Msg ''start verification failed: /tmp/ascn.run is absent'') else Inr (\<not> before))
      else if action = ''stop'' then
        (if after then Inl (Msg ''stop verification failed: /tmp/ascn.run is still present'') else Inr before)
      else if action = ''reload'' then
        (if \<not> after then Inl (Msg ''reload verification failed: Antiscan stopped during reload'') else Inr True)
      else if action = ''restart'' then
        (if \<not> after then Inl (Msg ''restart verification failed: /tmp/ascn.run is absent'') else Inr True)
      else Inr False)"

definition run_action ::
    "'w program \<Rightarrow> runtime_config \<Rightarrow> lifecycle_result \<Rightarrow> 'w host \<Rightarrow> (lifecycle_result \<times> nat \<times> go_error option) \<times> 'w host" where
  "run_action prog cfg res h =
     (case host_run prog lifecycle_output_max (rc_init cfg) [lr_action res] h of
        ((out, err), h1) \<Rightarrow>
     (case path_exists (rc_status cfg) h1 of
        (after, h2) \<Rightarrow>
          (let res1 = res\<lparr>lr_output := trim_space (output_text out), lr_after := after\<rparr> in
           case err of
             Some e \<Rightarrow>
               ((res1, 409, Some (Msg (''upstream '' @ lr_action res @ '' failed: '' @ compact_output out err))), h2)
           | None \<Rightarrow>
               (case lock_present cfg h2 of
                  (True, h3) \<Rightarrow>
                    ((res1, 409, Some (Msg ''upstream lifecycle command returned while an Antiscan reload lock is still present'')), h3)
                | (False, h3) \<Rightarrow>
                    (case verify_action (lr_action res) (lr_before res) after of
                       Inl e \<Rightarrow> ((res1, 409, Some e), h3)
                     | Inr changed \<Rightarrow> ((res1\<lparr>lr_changed := changed, lr_verified := True\<rparr>, 200, None), h3))))))"

definition apply_lifecycle ::
    "'w program \<Rightarrow> runtime_config \<Rightarrow> string \<Rightarrow> 'w host \<Rightarrow> (lifecycle_result \<times> nat \<times> go_error option) \<times> 'w host" where
  "apply_lifecycle prog cfg raw h =
     (case normalize_action raw of
        Inl e \<Rightarrow> ((\<lparr>lr_action = [], lr_before = False, lr_after = False, lr_changed = False, lr_verified = False,
                    lr_output = [], lr_warnings = []\<rparr>, 400, Some e), h)
      | Inr action \<Rightarrow>
          (case path_exists (rc_status cfg) h of
             (before, h1) \<Rightarrow>
               (let res = \<lparr>lr_action = action, lr_before = before, lr_after = before, lr_changed = False,
                           lr_verified = False, lr_output = [], lr_warnings = []\<rparr> in
                if action = ''start'' \<and> before
                then ((res\<lparr>lr_verified := True,
                           lr_warnings := [''Antiscan is already running; no lifecycle command was executed.'']\<rparr>, 200, None), h1)
                else if action = ''stop'' \<and> \<not> before
                then ((res\<lparr>lr_verified := True,
                           lr_warnings := [''Antiscan is already stopped; no lifecycle command was executed.'']\<rparr>, 200, None), h1)
                else if action = ''reload'' \<and> \<not> before
                then ((res, 409, Some (Msg ''Antiscan must be running before reload'')), h1)
                else case lifecycle_ready cfg h1 of
                  (Some e, h2) \<Rightarrow> ((res, 409, Some e), h2)
                | (None, h2) \<Rightarrow>
                    run_action prog cfg
                      (if action = ''restart'' \<and> \<not> before
                       then res\<lparr>lr_warnings := [''Antiscan was stopped; upstream restart will start it.'']\<rparr> else res) h2)))"

subsection \<open>What the actions guarantee\<close>

lemma on_os_fst: "on_os m h = (r, h') \<Longrightarrow> m (fst h) = (r, fst h') \<and> snd h' = snd h"
  by (auto simp: on_os_def split: prod.splits)

lemma path_exists_keeps: "path_exists p h = (b, h') \<Longrightarrow> node_at (fst h') = node_at (fst h) \<and> snd h' = snd h"
  by (auto simp: path_exists_def split: prod.splits dest!: on_os_fst read_only_node_at [OF read_only_calls(2)])

lemma lock_present_keeps: "lock_present cfg h = (b, h') \<Longrightarrow> node_at (fst h') = node_at (fst h) \<and> snd h' = snd h"
  by (auto simp: lock_present_def split: prod.splits bool.splits dest!: path_exists_keeps)

lemma lifecycle_ready_keeps:
  "lifecycle_ready cfg h = (b, h') \<Longrightarrow> node_at (fst h') = node_at (fst h) \<and> snd h' = snd h"
  by (auto simp: lifecycle_ready_def split: prod.splits bool.splits sum.splits
      dest!: lock_present_keeps on_os_fst read_only_node_at [OF read_only_calls(2)])

text \<open>An answer 200 is a verified one, and then the package is in the state that was asked for, with no
  reload pending when a command ran; every other answer carries an error and claims no change.\<close>

lemma verify_action_ok:
  "verify_action action before after = Inr changed \<Longrightarrow>
   (action \<in> {''start'', ''reload'', ''restart''} \<longrightarrow> after) \<and> (action = ''stop'' \<longrightarrow> \<not> after)"
  by (auto simp: verify_action_def split: if_splits)

lemma run_action_outcome:
  assumes "run_action prog cfg res h = ((res', code, err), h')"
    and "lr_verified res = False" "lr_changed res = False" "normalize_action raw = Inr (lr_action res)"
  shows "(code = 200 \<longleftrightarrow> err = None) \<and> (lr_verified res' \<longleftrightarrow> code = 200) \<and> (lr_changed res' \<longrightarrow> code = 200) \<and>
    lr_action res' = lr_action res \<and> (code = 200 \<longrightarrow> (lr_after res' \<longleftrightarrow> lr_action res \<noteq> ''stop''))"
proof -
  obtain out e h1 where 1: "host_run prog lifecycle_output_max (rc_init cfg) [lr_action res] h = ((out, e), h1)"
    by (metis prod.exhaust)
  obtain after h2 where 2: "path_exists (rc_status cfg) h1 = (after, h2)" by (rule prod.exhaust)
  obtain locked h3 where 3: "lock_present cfg h2 = (locked, h3)" by (rule prod.exhaust)
  have act: "lr_action res \<in> {''start'', ''stop'', ''reload'', ''restart''}"
    using assms(4) by (auto simp: normalize_action_def Let_def split: if_splits)
  show ?thesis
  proof (cases e)
    case (Some x)
    then show ?thesis using assms(1-3) by (auto simp: run_action_def 1 2 Let_def)
  next
    case None
    show ?thesis
    proof (cases locked)
      case True
      then show ?thesis using assms(1-3) None by (auto simp: run_action_def 1 2 3 Let_def)
    next
      case False
      then show ?thesis
        using assms(1-3) None act verify_action_ok [of "lr_action res" "lr_before res" after]
        by (cases "verify_action (lr_action res) (lr_before res) after") (auto simp: run_action_def 1 2 3 Let_def)
    qed
  qed
qed

lemma lifecycle_outcome:
  assumes "apply_lifecycle prog cfg raw h = ((res, code, err), h')"
  shows "(code = 200 \<longleftrightarrow> err = None) \<and> (lr_verified res \<longleftrightarrow> code = 200) \<and> (lr_changed res \<longrightarrow> code = 200) \<and>
    (code = 200 \<longrightarrow> (lr_after res \<longleftrightarrow> lr_action res \<noteq> ''stop''))"
proof (cases "normalize_action raw")
  case (Inl e)
  then show ?thesis using assms by (auto simp: apply_lifecycle_def)
next
  case (Inr action)
  obtain before h1 where 1: "path_exists (rc_status cfg) h = (before, h1)" by (rule prod.exhaust)
  obtain e h2 where 2: "lifecycle_ready cfg h1 = (e, h2)" by (rule prod.exhaust)
  let ?res = "\<lparr>lr_action = action, lr_before = before, lr_after = before, lr_changed = False,
       lr_verified = False, lr_output = [], lr_warnings = []\<rparr>"
  consider "action = ''start'' \<and> before" | "action = ''stop'' \<and> \<not> before" | "action = ''reload'' \<and> \<not> before"
    | "\<not> (action = ''start'' \<and> before)" "\<not> (action = ''stop'' \<and> \<not> before)" "\<not> (action = ''reload'' \<and> \<not> before)"
    by blast
  then show ?thesis
  proof cases
    case 4
    show ?thesis
    proof (cases e)
      case (Some x)
      then show ?thesis using assms 4 by (auto simp: apply_lifecycle_def Inr 1 2 Let_def)
    next
      case None
      let ?r = "if action = ''restart'' \<and> \<not> before
                then ?res\<lparr>lr_warnings := [''Antiscan was stopped; upstream restart will start it.'']\<rparr> else ?res"
      have "run_action prog cfg ?r h2 = ((res, code, err), h')"
        using assms 4 None unfolding apply_lifecycle_def Inr by (simp add: 1 2 Let_def)
      from run_action_outcome [OF this, of raw] show ?thesis
        using Inr by (cases "action = ''restart'' \<and> \<not> before") simp_all
    qed
  qed (use assms in \<open>auto simp: apply_lifecycle_def Inr 1 Let_def\<close>)
qed

subsection \<open>Frames\<close>

text \<open>The programs a transaction starts, the shell and the init script, do not write the
  configuration files in \<open>P\<close> themselves.\<close>

definition keeps_files :: "'w program \<Rightarrow> string set \<Rightarrow> bool" where
  "keeps_files prog P \<longleftrightarrow>
     (\<forall>program args h r h' p. prog program args h = (r, h') \<longrightarrow> p \<in> P \<longrightarrow> node_at (fst h') p = node_at (fst h) p)"

lemma keeps_filesD: "keeps_files prog P \<Longrightarrow> prog program args h = (r, h') \<Longrightarrow> p \<in> P \<Longrightarrow> node_at (fst h') p = node_at (fst h) p"
  unfolding keeps_files_def by blast

lemma host_run_keeps:
  "\<lbrakk>keeps_files prog P; host_run prog limit program args h = (r, h'); p \<in> P\<rbrakk> \<Longrightarrow> node_at (fst h') p = node_at (fst h) p"
  by (auto simp: host_run_def split: option.splits prod.splits if_splits dest: keeps_filesD)

lemma on_os_read_only: "read_only m \<Longrightarrow> on_os m h = (r, h') \<Longrightarrow> node_at (fst h') = node_at (fst h)"
  by (metis on_os_fst read_only_node_at)

lemma on_os_keeps: "on_os m h = (r, h') \<Longrightarrow> touches P m \<Longrightarrow> p \<notin> P \<Longrightarrow> node_at (fst h') p = node_at (fst h) p"
  by (drule on_os_fst) (auto dest!: touchesD simp: same_except_def)

lemma follow_link_regular: "node_at s p = Some (Regular m d) \<Longrightarrow> follow_link n s p = Inr (Regular m d)"
  by (subst follow_link.simps) simp

lemma fs_stat_regular:
  "\<lbrakk>fs_stat p s = (Inr info, s'); node_at s p = Some (Regular m d)\<rbrakk> \<Longrightarrow> info = Regular m d"
  unfolding fs_stat_def by (erule syscall_cases) (auto simp: follow_link_regular)

lemma fs_read_regular:
  "\<lbrakk>fs_read_file p s = (Inr x, s'); node_at s p = Some (Regular m d)\<rbrakk> \<Longrightarrow> x = d"
  unfolding fs_read_file_def by (erule syscall_cases) (auto simp: follow_link_regular)

lemma read_only_composed:
  "read_only (io_return x)" "read_only (io_fail e)" "read_only m \<Longrightarrow> read_only (io_wrap msg m)"
  "\<lbrakk>read_only m; \<And>x. read_only (f x)\<rbrakk> \<Longrightarrow> read_only (io_bind m f)"
  by (auto simp: read_only_def io_wrap_def io_bind_def split: prod.splits sum.splits) (metis snd_conv)+

end
