(* ===== verification/Antiscan_Config.thy ===== *)
theory Antiscan_Config
  imports Antiscan_Text Antiscan_Host Safety_Path
begin

text \<open>
  \<^verbatim>\<open>modules/antiscan-manager-runtime/config_transaction.go\<close>: a requested update of \<^verbatim>\<open>ascn.conf\<close> is
  checked and normalized, merged into the text of the file, checked by a shell, published with a
  rename, activated by a reload of the running package, and rolled back when that fails.
  Parameters: SHA-256, the working directory, and the external programs. Time limits are errors of
  the programs.
\<close>

subsection \<open>The requested update\<close>

record config_request =
  cq_base :: string
  cq_interfaces :: string
  cq_ports :: string
  cq_forwarded :: string
  cq_honeypot :: bool
  cq_honeypot_ports :: string
  cq_honeypot_bantime :: int
  cq_ips_ban :: bool
  cq_rules_mask :: string
  cq_recent_time :: int
  cq_recent_hitcount :: int
  cq_recent_limit :: int
  cq_recent_bantime :: int
  cq_candidate_storage :: int
  cq_ip_threshold :: int
  cq_subnets_bantime :: int
  cq_ipsets_dir :: string
  cq_save_ipsets :: bool
  cq_save_on_exit :: bool
  cq_custom_exclude :: bool
  cq_custom_mode :: string
  cq_geo_mode :: string
  cq_geo_countries :: string
  cq_geo_exclude :: string
  cq_ndm_lockout :: bool
  cq_lockout_bantime :: int

definition is_alpha :: "char \<Rightarrow> bool" where
  "is_alpha c \<longleftrightarrow> is_lower c \<or> is_upper c"

definition interface_pattern :: "string \<Rightarrow> bool" where
  "interface_pattern s \<longleftrightarrow> 2 \<le> length s \<and> length s \<le> 15 \<and> is_alpha (hd s) \<and>
     list_all (\<lambda>c. is_alnum c \<or> c \<in> set ''_.:-'') (tl s)"

definition country_pattern :: "string \<Rightarrow> bool" where
  "country_pattern s \<longleftrightarrow> length s = 2 \<and> list_all is_upper s"

definition short_number :: "nat \<Rightarrow> string \<Rightarrow> bool" where
  "short_number n s \<longleftrightarrow> 1 \<le> length s \<and> length s \<le> n \<and> list_all is_digit s"

definition port_list_pattern :: "string \<Rightarrow> bool" where
  "port_list_pattern s \<longleftrightarrow>
     list_all (\<lambda>item. (let ends = split_char CHR '':'' item in length ends \<le> 2 \<and> list_all (short_number 5) ends))
       (split_char CHR '','' s)"

definition rules_mask_pattern :: "string \<Rightarrow> bool" where
  "rules_mask_pattern s \<longleftrightarrow> (let parts = split_char CHR ''.'' s in length parts = 4 \<and> list_all (short_number 3) parts)"

definition normalize_interfaces :: "string \<Rightarrow> go_error + string" where
  "normalize_interfaces raw =
     (let parts = Go_Std.fields (trim_space raw) in
      if parts = [] \<or> length parts > 10 then Inl (Msg ''ISP_INTERFACES must contain between 1 and 10 interface names'')
      else case List.find (\<lambda>p. \<not> interface_pattern p) parts of
             Some p \<Rightarrow> Inl (Msg (''invalid ISP interface '' @ quoted p))
           | None \<Rightarrow> Inr (join [CHR '' ''] parts))"

definition normalize_ports :: "string \<Rightarrow> string \<Rightarrow> bool \<Rightarrow> go_error + string" where
  "normalize_ports raw name allow_empty =
     (let s = trim_space raw in
      if s = [] then (if allow_empty then Inr [] else Inl (Msg (name @ '' cannot be empty'')))
      else if \<not> port_list_pattern s then Inl (Msg (name @ '' does not match the upstream port-list format''))
      else if length (fields_func (\<lambda>c. c = CHR '','' \<or> c = CHR '':'') s) > 15
      then Inl (Msg (name @ '' exceeds the upstream 15-value limit''))
      else Inr s)"

definition normalize_mode :: "string \<Rightarrow> string \<Rightarrow> go_error + string" where
  "normalize_mode raw name =
     (let m = to_lower (trim_space raw); mode = (if m = [] then ''0'' else m) in
      if mode \<in> {''0'', ''blacklist'', ''whitelist''} then Inr mode
      else Inl (Msg (name @ '' must be 0, blacklist or whitelist'')))"

fun collect_countries :: "string \<Rightarrow> string set \<Rightarrow> string list \<Rightarrow> go_error + string list" where
  "collect_countries name seen [] = Inr []"
| "collect_countries name seen (p # ps) =
     (if \<not> country_pattern p then Inl (Msg (name @ '' contains invalid country code '' @ quoted p))
      else if p \<in> seen then collect_countries name seen ps
      else case collect_countries name (insert p seen) ps of Inl e \<Rightarrow> Inl e | Inr out \<Rightarrow> Inr (p # out))"

definition normalize_countries :: "string \<Rightarrow> string \<Rightarrow> go_error + string" where
  "normalize_countries raw name =
     (let parts = Go_Std.fields (to_upper (trim_space raw)) in
      if length parts > 8 then Inl (Msg (name @ '' supports at most 8 country codes''))
      else case collect_countries name {} parts of Inl e \<Rightarrow> Inl e | Inr out \<Rightarrow> Inr (join [CHR '' ''] out))"

definition int_range :: "string \<Rightarrow> int \<Rightarrow> int \<Rightarrow> int \<Rightarrow> go_error option" where
  "int_range name value lo hi =
     (if value < lo \<or> value > hi then Some (Msg (name @ '' must be between '' @ itoa lo @ '' and '' @ itoa hi)) else None)"

fun int_ranges :: "(string \<times> int \<times> int \<times> int) list \<Rightarrow> go_error option" where
  "int_ranges [] = None"
| "int_ranges ((name, value, lo, hi) # rest) =
     (case int_range name value lo hi of Some e \<Rightarrow> Some e | None \<Rightarrow> int_ranges rest)"

definition bool01 :: "bool \<Rightarrow> string" where
  "bool01 b = (if b then ''1'' else ''0'')"

definition ban_checks :: "config_request \<Rightarrow> (string \<times> int \<times> int \<times> int) list" where
  "ban_checks q =
     [(''RECENT_CONNECTIONS_TIME'', cq_recent_time q, 2, 3600),
      (''RECENT_CONNECTIONS_HITCOUNT'', cq_recent_hitcount q, 2, 100),
      (''RECENT_CONNECTIONS_LIMIT'', cq_recent_limit q, 3, 1000),
      (''RECENT_CONNECTIONS_BANTIME'', cq_recent_bantime q, 0, 2147483),
      (''DIFFERENT_IP_CANDIDATES_STORAGETIME'', cq_candidate_storage q, 0, 2147483),
      (''DIFFERENT_IP_THRESHOLD'', cq_ip_threshold q, 2, 254),
      (''SUBNETS_BANTIME'', cq_subnets_bantime q, 0, 2147483)]"

text \<open>The value of one checked field of the form.\<close>

type_synonym setting = string

definition requested_values ::
    "config_request \<Rightarrow> setting \<Rightarrow> setting \<Rightarrow> setting \<Rightarrow> setting \<Rightarrow> setting \<Rightarrow> setting \<Rightarrow> setting \<Rightarrow> setting \<Rightarrow> setting \<Rightarrow> setting \<Rightarrow>
     (string \<times> string) list" where
  "requested_values q interfaces ports forwarded honeypot_ports netmask custom_mode geo_mode countries exclude dir =
     [(''ISP_INTERFACES'', interfaces), (''PORTS'', ports), (''PORTS_FORWARDED'', forwarded),
      (''ENABLE_HONEYPOT'', bool01 (cq_honeypot q)), (''HONEYPOT_PORTS'', honeypot_ports),
      (''HONEYPOT_BANTIME'', itoa (cq_honeypot_bantime q)), (''ENABLE_IPS_BAN'', bool01 (cq_ips_ban q)),
      (''RULES_MASK'', netmask), (''RECENT_CONNECTIONS_TIME'', itoa (cq_recent_time q)),
      (''RECENT_CONNECTIONS_HITCOUNT'', itoa (cq_recent_hitcount q)),
      (''RECENT_CONNECTIONS_LIMIT'', itoa (cq_recent_limit q)),
      (''RECENT_CONNECTIONS_BANTIME'', itoa (cq_recent_bantime q)),
      (''DIFFERENT_IP_CANDIDATES_STORAGETIME'', itoa (cq_candidate_storage q)),
      (''DIFFERENT_IP_THRESHOLD'', itoa (cq_ip_threshold q)), (''SUBNETS_BANTIME'', itoa (cq_subnets_bantime q)),
      (''IPSETS_DIRECTORY'', dir), (''SAVE_IPSETS'', bool01 (cq_save_ipsets q)),
      (''SAVE_ON_EXIT'', bool01 (cq_save_on_exit q)), (''USE_CUSTOM_EXCLUDE_LIST'', bool01 (cq_custom_exclude q)),
      (''CUSTOM_LISTS_BLOCK_MODE'', custom_mode), (''GEOBLOCK_MODE'', geo_mode), (''GEOBLOCK_COUNTRIES'', countries),
      (''GEO_EXCLUDE_COUNTRIES'', exclude), (''READ_NDM_LOCKOUT_IPSETS'', bool01 (cq_ndm_lockout q)),
      (''LOCKOUT_IPSET_BANTIME'', itoa (cq_lockout_bantime q))]"

definition normalize_update :: "config_request \<Rightarrow> go_error + conf" where
  "normalize_update q =
     (case normalize_interfaces (cq_interfaces q) of Inl e \<Rightarrow> Inl e | Inr interfaces \<Rightarrow>
     (case normalize_ports (cq_ports q) ''PORTS'' True of Inl e \<Rightarrow> Inl e | Inr ports \<Rightarrow>
     (case normalize_ports (cq_forwarded q) ''PORTS_FORWARDED'' True of Inl e \<Rightarrow> Inl e | Inr forwarded \<Rightarrow>
      if ports = [] \<and> forwarded = [] then Inl (Msg ''PORTS and PORTS_FORWARDED cannot both be empty'')
      else
     (case normalize_ports (cq_honeypot_ports q) ''HONEYPOT_PORTS'' True of Inl e \<Rightarrow> Inl e | Inr honeypot_ports \<Rightarrow>
      if cq_honeypot q \<and> honeypot_ports = [] then Inl (Msg ''HONEYPOT_PORTS is required when honeypot is enabled'')
      else
     (case int_range ''HONEYPOT_BANTIME'' (cq_honeypot_bantime q) 0 2147483 of Some e \<Rightarrow> Inl e | None \<Rightarrow>
     (let m = trim_space (cq_rules_mask q); netmask = (if m = [] then ''255.255.255.255'' else m) in
      if \<not> rules_mask_pattern netmask then Inl (Msg ''RULES_MASK must match the upstream dotted numeric format'')
      else
     (case (if cq_ips_ban q then int_ranges (ban_checks q) else None) of Some e \<Rightarrow> Inl e | None \<Rightarrow>
     (case int_range ''LOCKOUT_IPSET_BANTIME'' (cq_lockout_bantime q) 0 2147483 of Some e \<Rightarrow> Inl e | None \<Rightarrow>
     (case normalize_mode (cq_custom_mode q) ''CUSTOM_LISTS_BLOCK_MODE'' of Inl e \<Rightarrow> Inl e | Inr custom_mode \<Rightarrow>
     (case normalize_mode (cq_geo_mode q) ''GEOBLOCK_MODE'' of Inl e \<Rightarrow> Inl e | Inr geo_mode \<Rightarrow>
     (case normalize_countries (cq_geo_countries q) ''GEOBLOCK_COUNTRIES'' of Inl e \<Rightarrow> Inl e | Inr countries \<Rightarrow>
     (case normalize_countries (cq_geo_exclude q) ''GEO_EXCLUDE_COUNTRIES'' of Inl e \<Rightarrow> Inl e | Inr exclude \<Rightarrow>
      if geo_mode \<noteq> ''0'' \<and> countries = []
      then Inl (Msg ''GEOBLOCK_COUNTRIES is required when GEOBLOCK_MODE is enabled'')
      else
     (let dir = trim_space (cq_ipsets_dir q) in
      if contains_any dir unsafe_chars then Inl (Msg ''IPSETS_DIRECTORY contains unsupported characters'')
      else if (cq_save_ipsets q \<or> geo_mode \<noteq> ''0'' \<or> exclude \<noteq> []) \<and> dir = []
      then Inl (Msg ''IPSETS_DIRECTORY is required for persistence or Geo lists'')
      else Inr (map_of (requested_values q interfaces ports forwarded honeypot_ports netmask custom_mode geo_mode
                          countries exclude dir)))))))))))))))"

definition validate_ipsets_dir :: "string \<Rightarrow> conf \<Rightarrow> go_error option" where
  "validate_ipsets_dir raw vals =
     (let path = trim_space raw;
          required = (conf_get vals ''SAVE_IPSETS'' = ''1'' \<or> conf_get vals ''GEOBLOCK_MODE'' \<noteq> ''0'' \<or>
                      conf_get vals ''GEO_EXCLUDE_COUNTRIES'' \<noteq> []) in
      if path = [] then
        (if required then Some (Msg ''IPSETS_DIRECTORY is required by the selected persistence/Geo settings'') else None)
      else if \<not> is_abs path \<or> has_parent_traversal path
      then Some (Msg ''IPSETS_DIRECTORY must be an absolute path without parent traversal'')
      else if list_ex (\<lambda>seg. seg = [] \<or> seg = ''.'' \<or> seg = ''..'')
                (split_char slash (trim_right (\<lambda>c. c = slash) (trim_left (\<lambda>c. c = slash) path)))
      then Some (Msg ''IPSETS_DIRECTORY contains an invalid path segment'')
      else
        (let c = clean path in
         if c = ''/opt/etc'' then Some (Msg ''IPSETS_DIRECTORY must not be /opt/etc'')
         else if c \<noteq> ''/opt'' \<and> c \<noteq> ''/tmp'' \<and> \<not> has_prefix c ''/opt/'' \<and> \<not> has_prefix c ''/tmp/''
         then Some (Msg ''IPSETS_DIRECTORY must be under /opt or /tmp'')
         else None))"

subsection \<open>Accepted values are safe to write\<close>

definition safe_text :: "string \<Rightarrow> bool" where
  "safe_text v \<longleftrightarrow> (\<forall>c\<in>set v. is_alnum c \<or> c \<in> set ''_.:-, '')"

lemma safe_text_unsafe: "safe_text v \<Longrightarrow> \<not> contains_any v unsafe_chars"
proof -
  assume v: "safe_text v"
  have "c \<notin> set unsafe_chars" if "is_alnum c \<or> c \<in> set ''_.:-, ''" for c
  proof
    assume "c \<in> set unsafe_chars"
    then have "byte_of c \<in> {0, 13, 10, 96, 36, 92, 34}"
      by (auto simp: unsafe_chars_def byte_of_def cr_def lf_def dquote_def)
    then show False
      using that by (auto simp: is_alnum_def is_lower_def is_upper_def is_digit_def byte_of_def)
  qed
  then show ?thesis using v by (auto simp: safe_text_def contains_any_def list_ex_iff)
qed

lemma safe_text_digits: "list_all is_digit s \<Longrightarrow> safe_text s"
  by (auto simp: safe_text_def list_all_iff is_alnum_def)

lemma safe_text_itoa: "safe_text (itoa n)"
  using safe_text_digits [OF nat_digits_digits] by (auto simp: itoa_def safe_text_def)

lemma safe_text_join: "\<forall>x\<in>set xs. safe_text x \<Longrightarrow> safe_text sep \<Longrightarrow> safe_text (join sep xs)"
  using set_join [of sep xs] by (fastforce simp: safe_text_def)

lemma safe_text_split:
  assumes "\<forall>x\<in>set (split_char c s). safe_text x" and "safe_text [c]"
  shows "safe_text s"
  using safe_text_join [of "split_char c s" "[c]"] assms by (simp add: join_split_char)

lemma short_number_safe: "short_number n s \<Longrightarrow> safe_text s"
  by (simp add: short_number_def safe_text_digits)

lemma safe_sep: "safe_text [CHR '','']" "safe_text [CHR '':'']" "safe_text [CHR ''.'']" "safe_text '' ''" "safe_text []"
  by (simp_all add: safe_text_def)

lemma port_list_safe: "port_list_pattern s \<Longrightarrow> safe_text s"
  by (rule safe_text_split [of "CHR '',''"], rule ballI, rule safe_text_split [of "CHR '':''"])
    (auto simp: port_list_pattern_def list_all_iff Let_def safe_sep intro: short_number_safe)

lemma rules_mask_safe: "rules_mask_pattern s \<Longrightarrow> safe_text s"
  by (rule safe_text_split [of "CHR ''.''"])
    (auto simp: rules_mask_pattern_def list_all_iff Let_def safe_sep intro: short_number_safe)

lemma interface_safe: "interface_pattern s \<Longrightarrow> safe_text s"
  by (cases s) (auto simp: interface_pattern_def safe_text_def is_alpha_def is_alnum_def list_all_iff)

lemma country_safe: "country_pattern s \<Longrightarrow> safe_text s"
  by (auto simp: country_pattern_def safe_text_def is_alnum_def list_all_iff)

lemma normalized_safe:
  "normalize_interfaces raw = Inr v \<Longrightarrow> safe_text v"
  "normalize_ports raw name b = Inr v \<Longrightarrow> safe_text v"
  "normalize_mode raw name = Inr v \<Longrightarrow> safe_text v"
  "normalize_countries raw name = Inr v \<Longrightarrow> safe_text v"
proof -
  show "safe_text v" if "normalize_interfaces raw = Inr v"
  proof -
    have "\<forall>x\<in>set (Go_Std.fields (trim_space raw)). interface_pattern x" "v = join '' '' (Go_Std.fields (trim_space raw))"
      using that by (auto simp: normalize_interfaces_def Let_def find_None_iff split: if_splits option.splits)
    then show ?thesis using safe_text_join [OF _ safe_sep(4)] interface_safe by blast
  qed
  show "safe_text v" if "normalize_ports raw name b = Inr v"
  proof -
    have "v = [] \<or> port_list_pattern v"
      using that unfolding normalize_ports_def Let_def by (simp split: if_splits)
    then show ?thesis using port_list_safe safe_sep(5) by blast
  qed
  show "safe_text v" if "normalize_mode raw name = Inr v"
  proof -
    have "v \<in> {''0'', ''blacklist'', ''whitelist''}"
      using that unfolding normalize_mode_def Let_def by (simp only: split: if_splits) simp_all
    moreover have "safe_text ''0''" "safe_text ''blacklist''" "safe_text ''whitelist''" by code_simp+
    ultimately show ?thesis by blast
  qed
  have "collect_countries name seen ps = Inr out \<Longrightarrow> \<forall>x\<in>set out. country_pattern x" for seen ps out
    by (induction ps arbitrary: seen out) (auto split: if_splits sum.splits)
  then have "collect_countries name {} ps = Inr out \<Longrightarrow> safe_text (join '' '' out)" for ps out
    using safe_text_join [OF _ safe_sep(4), of out] country_safe by blast
  then show "normalize_countries raw name = Inr v \<Longrightarrow> safe_text v"
    by (auto simp: normalize_countries_def Let_def split: if_splits sum.splits)
qed

lemma requested_keys:
  "map fst (requested_values q a b c d e f g h i j) = config_keys"
  by (simp add: requested_values_def config_keys_def)

lemma map_of_keys: "k \<in> set (map fst xs) \<Longrightarrow> \<exists>v. map_of xs k = Some v \<and> (k, v) \<in> set xs"
  by (metis map_of_SomeD map_of_eq_None_iff list.set_map option.exhaust)

lemma normalized_values_safe:
  assumes "normalize_update q = Inr vals"
  shows "check_values vals config_keys = None"
proof -
  obtain interfaces ports forwarded honeypot_ports netmask custom_mode geo_mode countries exclude where
    n: "normalize_interfaces (cq_interfaces q) = Inr interfaces" "normalize_ports (cq_ports q) ''PORTS'' True = Inr ports"
      "normalize_ports (cq_forwarded q) ''PORTS_FORWARDED'' True = Inr forwarded"
      "normalize_ports (cq_honeypot_ports q) ''HONEYPOT_PORTS'' True = Inr honeypot_ports"
      "normalize_mode (cq_custom_mode q) ''CUSTOM_LISTS_BLOCK_MODE'' = Inr custom_mode"
      "normalize_mode (cq_geo_mode q) ''GEOBLOCK_MODE'' = Inr geo_mode"
      "normalize_countries (cq_geo_countries q) ''GEOBLOCK_COUNTRIES'' = Inr countries"
      "normalize_countries (cq_geo_exclude q) ''GEO_EXCLUDE_COUNTRIES'' = Inr exclude"
    and netmask: "rules_mask_pattern netmask" and dir: "\<not> contains_any (trim_space (cq_ipsets_dir q)) unsafe_chars"
    and vals: "vals = map_of (requested_values q interfaces ports forwarded honeypot_ports netmask custom_mode geo_mode
                countries exclude (trim_space (cq_ipsets_dir q)))"
    using assms by (auto simp: normalize_update_def Let_def split: sum.splits if_splits option.splits)
  have b: "safe_text (bool01 x)" for x
    by (simp add: bool01_def safe_text_def is_alnum_def is_digit_def byte_of_def)
  note safe = normalized_safe(1) [OF n(1)] normalized_safe(2) [OF n(2)] normalized_safe(2) [OF n(3)]
    normalized_safe(2) [OF n(4)] normalized_safe(3) [OF n(5)] normalized_safe(3) [OF n(6)]
    normalized_safe(4) [OF n(7)] normalized_safe(4) [OF n(8)] rules_mask_safe [OF netmask] b safe_text_itoa
  let ?r = "requested_values q interfaces ports forwarded honeypot_ports netmask custom_mode geo_mode
                countries exclude (trim_space (cq_ipsets_dir q))"
  have "\<not> contains_any v unsafe_chars" if "(k, v) \<in> set ?r" for k v
    using that dir safe [THEN safe_text_unsafe] unfolding requested_values_def by auto
  then show ?thesis
    unfolding check_values_None vals using map_of_keys [of _ ?r] unfolding requested_keys by blast
qed

subsection \<open>The transaction\<close>

record config_state =
  st_path :: string
  st_data :: string
  st_mode :: nat
  st_sha :: string

record config_result =
  cr_before :: string
  cr_after :: string
  cr_backup :: string
  cr_changed :: bool
  cr_verified :: bool
  cr_runtime :: bool
  cr_rollback :: bool
  cr_restart :: bool
  cr_output :: string
  cr_warnings :: "string list"

type_synonym config_answer = "config_result \<times> nat \<times> go_error option"

definition file_max :: "int" where
  "file_max = 262144"

definition output_max :: "int" where
  "output_max = 65536"

definition fs_open :: "string \<Rightarrow> unit io" where
  "fs_open p = syscall (\<lambda>s. (case follow_link max_links s p of Inl e \<Rightarrow> Inl e | Inr _ \<Rightarrow> Inr (), s))"

definition read_bounded :: "string \<Rightarrow> int \<Rightarrow> string io" where
  "read_bounded p limit =
     io_bind (fs_read_file p) (\<lambda>whole.
       let data = limited (limit + 1) whole in
       if int (length data) > limit then io_fail (Msg ''file exceeds RouterForge safety limit'') else io_return data)"

definition read_config_state ::
    "(string \<Rightarrow> string) \<Rightarrow> go_error + string \<Rightarrow> runtime_config \<Rightarrow> config_state io" where
  "read_config_state sha cwd cfg =
     io_bind (io_wrap ''resolve ascn.conf: ''
       (resolve_existing cwd \<lparr>rs_roots = [rc_dir cfg], rs_eval = None\<rparr> (path_join2 (rc_dir cfg) ''ascn.conf'') None)) (\<lambda>res.
     io_bind (io_wrap ''stat ascn.conf: '' (fs_stat (rp_canonical res))) (\<lambda>info.
     if \<not> is_regular info then io_fail (Msg ''ascn.conf is not a regular file'')
     else io_bind (io_wrap ''open ascn.conf: '' (fs_open (rp_canonical res))) (\<lambda>_.
          io_bind (io_wrap ''read ascn.conf: '' (read_bounded (rp_canonical res) file_max)) (\<lambda>data.
          io_return \<lparr>st_path = rp_canonical res, st_data = data, st_mode = node_perm info, st_sha = sha data\<rparr>))))"

definition verify_unchanged :: "(string \<Rightarrow> string) \<Rightarrow> string \<Rightarrow> string \<Rightarrow> unit io" where
  "verify_unchanged sha path expected =
     io_bind (io_wrap ''re-read ascn.conf before write: '' (fs_read_file path)) (\<lambda>data.
       if int (length data) > file_max then io_fail (Msg ''ascn.conf exceeds RouterForge safety limit'')
       else if sha data \<noteq> expected
       then io_fail (Msg ''ascn.conf changed during transaction preflight; refresh before applying'')
       else io_return ())"

definition verify_config_file :: "(string \<Rightarrow> string) \<Rightarrow> string \<Rightarrow> string \<Rightarrow> conf \<Rightarrow> unit io" where
  "verify_config_file sha path expected vals =
     io_bind (fs_read_file path) (\<lambda>data.
       if sha data \<noteq> expected then io_fail (Msg ''ascn.conf checksum changed unexpectedly'')
       else (case verify_values data vals of Some e \<Rightarrow> io_fail e | None \<Rightarrow> io_return ()))"

fun find_shell :: "string list \<Rightarrow> 'w host \<Rightarrow> string \<times> 'w host" where
  "find_shell [] h = ([], h)"
| "find_shell (c # cs) h =
     (case on_os (fs_stat c) h of
        (Inl e, h1) \<Rightarrow> find_shell cs h1
      | (Inr info, h1) \<Rightarrow> if executable info then (c, h1) else find_shell cs h1)"

definition validation_shells :: "string list" where
  "validation_shells = [''/opt/bin/sh'', ''/bin/sh'', ''/usr/bin/sh'']"

text \<open>\<open>run_validation\<close> is the part of \<^verbatim>\<open>validateAntiscanCandidateSyntax\<close> between the creation of the
  temporary file and its deferred removal.\<close>

definition run_validation ::
    "'w program \<Rightarrow> string \<Rightarrow> nat \<Rightarrow> atomic_file \<Rightarrow> 'w host \<Rightarrow> go_error option \<times> atomic_file option \<times> 'w host" where
  "run_validation prog cand mode a h =
     (case on_os (fs_chmod (af_path a) mode) h of
        (Inl e, h1) \<Rightarrow> (Some e, Some a, h1)
      | (Inr _, h1) \<Rightarrow>
     (case on_os (fs_write (af_path a) cand) h1 of
        (Inl e, h2) \<Rightarrow> (Some e, Some a, h2)
      | (Inr _, h2) \<Rightarrow>
     (case on_os (af_sync (Some a)) h2 of
        (Inl e, h3) \<Rightarrow> (Some e, Some a, h3)
      | (Inr _, h3) \<Rightarrow>
     (case af_close (Some a) (fst h3) of
        (Inl e, a', s4) \<Rightarrow> (Some e, a', (s4, snd h3))
      | (Inr _, a', s4) \<Rightarrow>
     (case find_shell validation_shells (s4, snd h3) of
        (shell, h5) \<Rightarrow>
          if shell = [] then (Some (Msg ''no shell is available for ascn.conf syntax validation''), a', h5)
          else (case host_run prog 8192 shell [''-n'', af_path a] h5 of
                  ((out, Some e), h6) \<Rightarrow>
                    (Some (Msg (''ascn.conf shell syntax validation failed: '' @ compact_output out (Some e))), a', h6)
                | ((out, None), h6) \<Rightarrow> (None, a', h6)))))))"

definition validate_syntax ::
    "'w program \<Rightarrow> string \<Rightarrow> string \<Rightarrow> nat \<Rightarrow> 'w host \<Rightarrow> go_error option \<times> 'w host" where
  "validate_syntax prog path cand mode h =
     (if cand = [] \<or> int (length cand) > file_max then (Some (Msg ''generated ascn.conf exceeds RouterForge safety limit''), h)
      else case on_os (new_atomic_file (path_dir path) ''.routerforge-ascn-validate-*'') h of
        (Inl e, h1) \<Rightarrow> (Some (Wrap ''create config validation file: '' e), h1)
      | (Inr a, h1) \<Rightarrow>
          (case run_validation prog cand mode a h1 of
             (r, a', h2) \<Rightarrow> (r, (snd (snd (af_cleanup a' (fst h2))), snd h2))))"

definition failed :: "go_error \<Rightarrow> string \<Rightarrow> go_error" where
  "failed cause msg = Msg (error_text cause @ msg)"

definition rollback_config ::
    "'w program \<Rightarrow> runtime_config \<Rightarrow> config_state \<Rightarrow> config_result \<Rightarrow> go_error \<Rightarrow> 'w host \<Rightarrow> config_answer \<times> 'w host" where
  "rollback_config prog cfg st res cause h =
     (case on_os (write_file_atomic (st_path st) (st_data st) (st_mode st)) h of
        (Inl e, h1) \<Rightarrow> ((res, 500, Some (Wrap (error_text cause @ ''; config rollback write failed: '') e)), h1)
      | (Inr _, h1) \<Rightarrow>
     (let res1 = res\<lparr>cr_rollback := True, cr_after := st_sha st\<rparr> in
      case lock_present cfg h1 of
        (True, h2) \<Rightarrow>
          ((res1, 500, Some (failed cause ''; config file was restored but upstream left a reload lock, so runtime rollback was not attempted'')), h2)
      | (False, h2) \<Rightarrow>
     (case path_exists (rc_status cfg) h2 of
        (False, h3) \<Rightarrow>
          ((res1, 500, Some (failed cause ''; config file was restored but Antiscan is not running, so runtime rollback could not be verified'')), h3)
      | (True, h3) \<Rightarrow>
     (case host_run prog output_max (rc_init cfg) [''reload''] h3 of
        ((out, Some e), h4) \<Rightarrow>
          ((res1, 500, Some (failed cause (''; config file was restored but upstream rollback reload failed: '' @ compact_output out (Some e)))), h4)
      | ((out, None), h4) \<Rightarrow>
     (case path_exists (rc_status cfg) h4 of
        (False, h5) \<Rightarrow>
          ((res1, 500, Some (failed cause ''; rollback reload returned without a healthy Antiscan runtime'')), h5)
      | (True, h5) \<Rightarrow>
     (case lock_present cfg h5 of
        (True, h6) \<Rightarrow>
          ((res1, 500, Some (failed cause ''; rollback reload returned without a healthy Antiscan runtime'')), h6)
      | (False, h6) \<Rightarrow>
     (case on_os (fs_read_file (st_path st)) h6 of
        (got, h7) \<Rightarrow>
          if got \<noteq> Inr (st_data st)
          then ((res1, 500, Some (failed cause ''; rollback reload completed but ascn.conf was not restored exactly'')), h7)
          else ((res1, 409, Some (failed cause ''; previous ascn.conf and runtime state were restored'')), h7))))))))"

text \<open>The way back when only the file was written so far.\<close>

definition restore_file ::
    "config_state \<Rightarrow> config_result \<Rightarrow> (go_error \<Rightarrow> go_error) \<Rightarrow> go_error \<Rightarrow> 'w host \<Rightarrow> config_answer \<times> 'w host" where
  "restore_file st res both one h =
     (case on_os (write_file_atomic (st_path st) (st_data st) (st_mode st)) h of
        (Inl e, h1) \<Rightarrow> ((res\<lparr>cr_rollback := False\<rparr>, 500, Some (both e)), h1)
      | (Inr _, h1) \<Rightarrow> ((res\<lparr>cr_rollback := True\<rparr>, 409, Some one), h1))"

definition activate_running ::
    "'w program \<Rightarrow> (string \<Rightarrow> string) \<Rightarrow> runtime_config \<Rightarrow> config_state \<Rightarrow> conf \<Rightarrow> string \<Rightarrow> config_result \<Rightarrow> 'w host \<Rightarrow>
     config_answer \<times> 'w host" where
  "activate_running prog sha cfg st vals cand_sha res h =
     (case lifecycle_ready cfg h of
        (Some e, h1) \<Rightarrow>
          restore_file st res
            (\<lambda>r. Msg (''lifecycle preflight failed and config rollback failed: preflight='' @ error_text e @ '' rollback='' @ error_text r))
            (Wrap ''lifecycle preflight failed; config was rolled back: '' e) h1
      | (None, h1) \<Rightarrow>
     (case host_run prog output_max (rc_init cfg) [''reload''] h1 of
        ((out, err), h2) \<Rightarrow>
     (let res1 = res\<lparr>cr_output := trim_space (output_text out)\<rparr> in
      case err of
        Some e \<Rightarrow> rollback_config prog cfg st res1 (Msg (''upstream reload failed: '' @ compact_output out err)) h2
      | None \<Rightarrow>
     (case path_exists (rc_status cfg) h2 of
        (False, h3) \<Rightarrow>
          rollback_config prog cfg st res1 (Msg ''reload verification failed: Antiscan stopped during config apply'') h3
      | (True, h3) \<Rightarrow>
     (case lock_present cfg h3 of
        (True, h4) \<Rightarrow>
          rollback_config prog cfg st res1 (Msg ''reload verification failed: an upstream reload lock remains'') h4
      | (False, h4) \<Rightarrow>
     (case on_os (verify_config_file sha (st_path st) cand_sha vals) h4 of
        (Inl e, h5) \<Rightarrow> rollback_config prog cfg st res1 (Wrap ''config verification failed after reload: '' e) h5
      | (Inr _, h5) \<Rightarrow> ((res1\<lparr>cr_runtime := True, cr_verified := True\<rparr>, 200, None), h5)))))))"

definition activate_config ::
    "'w program \<Rightarrow> (string \<Rightarrow> string) \<Rightarrow> runtime_config \<Rightarrow> config_state \<Rightarrow> conf \<Rightarrow> string \<Rightarrow> config_result \<Rightarrow> 'w host \<Rightarrow>
     config_answer \<times> 'w host" where
  "activate_config prog sha cfg st vals cand res h =
     (case path_exists (rc_status cfg) h of
        (running, h1) \<Rightarrow>
          (let old = fst (parse_config (st_data st)); new = fst (parse_config cand);
               res1 = (if trim_space (cf_ipsets_dir old) \<noteq> trim_space (cf_ipsets_dir new) \<and> running
                       then res\<lparr>cr_restart := True, cr_warnings := cr_warnings res @
                          [''IPSETS_DIRECTORY changed. Upstream Antiscan requires a stop/start cycle before the new storage directory is fully active.'']\<rparr>
                       else res) in
           if \<not> running then
             (case on_os (verify_config_file sha (st_path st) (sha cand) vals) h1 of
                (Inl e, h2) \<Rightarrow>
                  restore_file st res1
                    (\<lambda>r. Msg (''config verification failed and rollback failed: verify='' @ error_text e @ '' rollback='' @ error_text r))
                    (Wrap ''config verification failed; file was rolled back: '' e) h2
              | (Inr _, h2) \<Rightarrow>
                  ((res1\<lparr>cr_verified := True, cr_warnings := cr_warnings res1 @
                      [''Antiscan is stopped. Settings were stored and will become active on the next start.'']\<rparr>, 200, None), h2))
           else activate_running prog sha cfg st vals (sha cand) res1 h1))"

definition backup_of :: "string \<Rightarrow> string" where
  "backup_of path = path @ ''.routerforge.bak''"

definition publish_config ::
    "'w program \<Rightarrow> (string \<Rightarrow> string) \<Rightarrow> runtime_config \<Rightarrow> config_state \<Rightarrow> conf \<Rightarrow> string \<Rightarrow> config_result \<Rightarrow> 'w host \<Rightarrow>
     config_answer \<times> 'w host" where
  "publish_config prog sha cfg st vals cand res h =
     (case on_os (verify_unchanged sha (st_path st) (st_sha st)) h of
        (Inl e, h1) \<Rightarrow> ((res, 409, Some e), h1)
      | (Inr _, h1) \<Rightarrow>
     (case on_os (write_file_atomic (backup_of (st_path st)) (st_data st) (st_mode st)) h1 of
        (Inl e, h2) \<Rightarrow> ((res, 409, Some (Wrap ''create config backup: '' e)), h2)
      | (Inr _, h2) \<Rightarrow>
     (let res1 = res\<lparr>cr_backup := backup_of (st_path st)\<rparr> in
      case on_os (write_file_atomic (st_path st) cand (st_mode st)) h2 of
        (Inl e, h3) \<Rightarrow> ((res1, 409, Some (Wrap ''write ascn.conf: '' e)), h3)
      | (Inr _, h3) \<Rightarrow> activate_config prog sha cfg st vals cand (res1\<lparr>cr_changed := True\<rparr>) h3)))"

definition no_config_result :: "config_result" where
  "no_config_result = \<lparr>cr_before = [], cr_after = [], cr_backup = [], cr_changed = False, cr_verified = False,
     cr_runtime = False, cr_rollback = False, cr_restart = False, cr_output = [], cr_warnings = []\<rparr>"

definition apply_config ::
    "'w program \<Rightarrow> (string \<Rightarrow> string) \<Rightarrow> go_error + string \<Rightarrow> runtime_config \<Rightarrow> config_request \<Rightarrow> 'w host \<Rightarrow>
     config_answer \<times> 'w host" where
  "apply_config prog sha cwd cfg req h =
     (case lock_present cfg h of
        (True, h1) \<Rightarrow> ((no_config_result, 409, Some (Msg ''Antiscan reload is already in progress'')), h1)
      | (False, h1) \<Rightarrow>
     (case normalize_update req of
        Inl e \<Rightarrow> ((no_config_result, 400, Some e), h1)
      | Inr vals \<Rightarrow>
     (case validate_ipsets_dir (conf_get vals ''IPSETS_DIRECTORY'') vals of
        Some e \<Rightarrow> ((no_config_result, 400, Some e), h1)
      | None \<Rightarrow>
     (case on_os (read_config_state sha cwd cfg) h1 of
        (Inl e, h2) \<Rightarrow> ((no_config_result, 409, Some e), h2)
      | (Inr st, h2) \<Rightarrow>
     (let res = no_config_result\<lparr>cr_before := st_sha st, cr_after := st_sha st\<rparr>;
          base = to_lower (trim_space (cq_base req)) in
      if base = [] \<or> base \<noteq> st_sha st
      then ((res, 409, Some (Msg ''ascn.conf changed since it was loaded; refresh before applying'')), h2)
      else
     (case merge_config (st_data st) vals of
        Inl e \<Rightarrow> ((res, 409, Some (Wrap ''prepare ascn.conf: '' e)), h2)
      | Inr cand \<Rightarrow>
     (case validate_syntax prog (st_path st) cand (st_mode st) h2 of
        (Some e, h3) \<Rightarrow> ((res, 400, Some e), h3)
      | (None, h3) \<Rightarrow>
     (case verify_values cand vals of
        Some e \<Rightarrow> ((res, 400, Some e), h3)
      | None \<Rightarrow>
     (let res1 = res\<lparr>cr_after := sha cand\<rparr> in
      if st_data st = cand
      then ((res1\<lparr>cr_verified := True, cr_warnings := [''ascn.conf already matches the requested settings.'']\<rparr>, 200, None), h3)
      else publish_config prog sha cfg st vals cand res1 h3)))))))))"

subsection \<open>What is on disk afterwards\<close>

definition files_are :: "config_state \<Rightarrow> string \<Rightarrow> 'w host \<Rightarrow> bool" where
  "files_are st content h \<longleftrightarrow>
     node_at (fst h) (st_path st) = Some (Regular (st_mode st) content) \<and>
     node_at (fst h) (backup_of (st_path st)) = Some (Regular (st_mode st) (st_data st))"

lemma files_are_same: "node_at (fst h') = node_at (fst h) \<Longrightarrow> files_are st c h' = files_are st c h"
  by (simp add: files_are_def)

definition guarded :: "'w program \<Rightarrow> config_state \<Rightarrow> bool" where
  "guarded prog st \<longleftrightarrow> target_ok (st_path st) \<and> target_ok (backup_of (st_path st)) \<and>
     keeps_files prog {st_path st, backup_of (st_path st)}"

lemma backup_differs [simp]: "backup_of p \<noteq> p" "p \<noteq> backup_of p"
  by (simp_all add: backup_of_def)

lemma files_are_run:
  "\<lbrakk>guarded prog st; host_run prog limit program args h = (r, h')\<rbrakk> \<Longrightarrow> files_are st c h' = files_are st c h"
  using host_run_keeps [of prog "{st_path st, backup_of (st_path st)}" limit program args h r h']
  by (simp add: files_are_def guarded_def)

lemma files_are_exists: "path_exists p h = (b, h') \<Longrightarrow> files_are st c h' = files_are st c h"
  by (rule files_are_same) (simp add: path_exists_keeps)

lemma files_are_lock: "lock_present cfg h = (b, h') \<Longrightarrow> files_are st c h' = files_are st c h"
  by (rule files_are_same) (simp add: lock_present_keeps)

lemma files_are_ready: "lifecycle_ready cfg h = (b, h') \<Longrightarrow> files_are st c h' = files_are st c h"
  by (rule files_are_same) (simp add: lifecycle_ready_keeps)

lemma files_are_write:
  assumes "guarded prog st" and "on_os (write_file_atomic (st_path st) d (st_mode st)) h = (r, h')" and "files_are st c h"
  shows "files_are st (if is_ok r then d else c) h'"
proof -
  have w: "write_file_atomic (st_path st) d (st_mode st) (fst h) = (r, fst h')" using on_os_fst [OF assms(2)] by simp
  have t: "target_ok (st_path st)" using assms(1) by (simp add: guarded_def)
  show ?thesis
    using wfa.old_or_new [OF t w] wfa.elsewhere [OF t w, of "backup_of (st_path st)"] assms(3)
    by (auto simp: files_are_def)
qed

lemma files_are_verify:
  "on_os (verify_config_file sha p e vals) h = (r, h') \<Longrightarrow> files_are st c h' = files_are st c h"
  by (rule files_are_same)
    (auto simp: verify_config_file_def io_bind_def on_os_def split: prod.splits sum.splits if_splits option.splits
      dest!: read_only_node_at [OF read_only_calls(3)])

lemma files_are_read: "on_os (fs_read_file p) h = (r, h') \<Longrightarrow> files_are st c h' = files_are st c h"
  by (rule files_are_same) (rule on_os_read_only [OF read_only_calls(3)])

lemmas files_are_steps = files_are_run files_are_exists files_are_lock files_are_ready files_are_verify files_are_read

text \<open>The answers after the new text was published.\<close>

definition settled_as :: "config_state \<Rightarrow> string \<Rightarrow> config_answer \<Rightarrow> 'w host \<Rightarrow> bool" where
  "settled_as st cand ans h \<longleftrightarrow>
     (case ans of (res, code, err) \<Rightarrow>
        cr_changed res \<and> files_are st (if cr_rollback res then st_data st else cand) h \<and>
        (code = 200 \<longleftrightarrow> err = None) \<and> (cr_verified res \<longleftrightarrow> code = 200) \<and>
        (code = 200 \<longrightarrow> \<not> cr_rollback res) \<and> (code = 409 \<longrightarrow> cr_rollback res))"

definition in_flight :: "config_result \<Rightarrow> bool" where
  "in_flight res \<longleftrightarrow> cr_changed res \<and> \<not> cr_rollback res \<and> \<not> cr_verified res"

lemma restore_file_settles:
  assumes "guarded prog st" and "files_are st cand h" and "in_flight res"
    and "restore_file st res both one h = (ans, h')"
  shows "settled_as st cand ans h'"
proof -
  obtain r h1 where 1: "on_os (write_file_atomic (st_path st) (st_data st) (st_mode st)) h = (r, h1)" by (rule prod.exhaust)
  show ?thesis
    using files_are_write [OF assms(1) 1 assms(2)] assms(3,4)
    by (cases r) (auto simp: restore_file_def 1 settled_as_def in_flight_def)
qed

lemma rollback_settles:
  assumes g: "guarded prog st" and f: "files_are st cand h" and "in_flight res"
    and run: "rollback_config prog cfg st res cause h = (ans, h')"
  shows "settled_as st cand ans h'"
proof -
  obtain r h1 where 1: "on_os (write_file_atomic (st_path st) (st_data st) (st_mode st)) h = (r, h1)" by (rule prod.exhaust)
  note w = files_are_write [OF g 1 f]
  show ?thesis
  proof (cases r)
    case (Inl e)
    then show ?thesis using w run assms(3) by (auto simp: rollback_config_def 1 settled_as_def in_flight_def)
  next
    case (Inr x)
    then have f1: "files_are st (st_data st) h1" using w by simp
    obtain l h2 where 2: "lock_present cfg h1 = (l, h2)" by (rule prod.exhaust)
    obtain a h3 where 3: "path_exists (rc_status cfg) h2 = (a, h3)" by (rule prod.exhaust)
    obtain out e h4 where 4: "host_run prog output_max (rc_init cfg) [''reload''] h3 = ((out, e), h4)" by (metis prod.exhaust)
    obtain b h5 where 5: "path_exists (rc_status cfg) h4 = (b, h5)" by (rule prod.exhaust)
    obtain k h6 where 6: "lock_present cfg h5 = (k, h6)" by (rule prod.exhaust)
    obtain got h7 where 7: "on_os (fs_read_file (st_path st)) h6 = (got, h7)" by (rule prod.exhaust)
    have fs: "files_are st (st_data st) h2" "files_are st (st_data st) h3" "files_are st (st_data st) h4"
      "files_are st (st_data st) h5" "files_are st (st_data st) h6" "files_are st (st_data st) h7"
      using f1 by (simp_all add: files_are_lock [OF 2] files_are_exists [OF 3] files_are_run [OF g 4] files_are_exists [OF 5]
          files_are_lock [OF 6] files_are_read [OF 7])
    have flight: "cr_changed res" using assms(3) by (simp add: in_flight_def)
    have "settled_as st cand (fst (rollback_config prog cfg st res cause h)) (snd (rollback_config prog cfg st res cause h))"
      unfolding rollback_config_def 1 Inr prod.case sum.case Let_def 2
      using fs flight assms(3)
      by (cases l; cases a; cases e; cases b; cases k) (simp_all add: 3 4 5 6 7 settled_as_def in_flight_def)
    then show ?thesis by (simp add: run)
  qed
qed

lemma in_flight_updates [simp]:
  "in_flight (res\<lparr>cr_output := x\<rparr>) = in_flight res"
  "in_flight (res\<lparr>cr_restart := b, cr_warnings := ws\<rparr>) = in_flight res"
  by (simp_all add: in_flight_def)

lemma activate_running_settles:
  assumes g: "guarded prog st" and f: "files_are st cand h" and fl: "in_flight res"
    and run: "activate_running prog sha cfg st vals x res h = (ans, h')"
  shows "settled_as st cand ans h'"
proof -
  obtain e h1 where 1: "lifecycle_ready cfg h = (e, h1)" by (rule prod.exhaust)
  have f1: "files_are st cand h1" using f by (simp add: files_are_ready [OF 1])
  show ?thesis
  proof (cases e)
    case (Some y)
    then show ?thesis
      using run by (auto simp: activate_running_def 1 intro: restore_file_settles [OF g f1 fl])
  next
    case None
    obtain out err h2 where 2: "host_run prog output_max (rc_init cfg) [''reload''] h1 = ((out, err), h2)"
      by (metis prod.exhaust)
    obtain a h3 where 3: "path_exists (rc_status cfg) h2 = (a, h3)" by (rule prod.exhaust)
    obtain l h4 where 4: "lock_present cfg h3 = (l, h4)" by (rule prod.exhaust)
    obtain v h5 where 5: "on_os (verify_config_file sha (st_path st) x vals) h4 = (v, h5)" by (rule prod.exhaust)
    have fs: "files_are st cand h2" "files_are st cand h3" "files_are st cand h4" "files_are st cand h5"
      using f1 by (simp_all add: files_are_run [OF g 2] files_are_exists [OF 3] files_are_lock [OF 4] files_are_verify [OF 5])
    let ?res = "res\<lparr>cr_output := trim_space (output_text out)\<rparr>"
    have fl': "in_flight ?res" using fl by simp
    note roll = rollback_settles [OF g _ fl']
    show ?thesis
      using run None fs fl
      by (cases err; cases a; cases l; cases v)
        (auto simp: activate_running_def 1 2 3 4 5 Let_def settled_as_def [of st cand "(_, 200, _)"] in_flight_def intro: roll)
  qed
qed

lemma activate_config_settles:
  assumes g: "guarded prog st" and f: "files_are st cand h" and fl: "in_flight res"
    and run: "activate_config prog sha cfg st vals cand res h = (ans, h')"
  shows "settled_as st cand ans h'"
proof -
  obtain running h1 where 1: "path_exists (rc_status cfg) h = (running, h1)" by (rule prod.exhaust)
  have f1: "files_are st cand h1" using f by (simp add: files_are_exists [OF 1])
  define res1 where "res1 = (if trim_space (cf_ipsets_dir (fst (parse_config (st_data st)))) \<noteq>
        trim_space (cf_ipsets_dir (fst (parse_config cand))) \<and> running
      then res\<lparr>cr_restart := True, cr_warnings := cr_warnings res @
         [''IPSETS_DIRECTORY changed. Upstream Antiscan requires a stop/start cycle before the new storage directory is fully active.'']\<rparr>
      else res)"
  have fl1: "in_flight res1" using fl by (simp add: res1_def)
  show ?thesis
  proof (cases running)
    case True
    then have "activate_running prog sha cfg st vals (sha cand) res1 h1 = (ans, h')"
      using run by (simp add: activate_config_def 1 Let_def res1_def)
    then show ?thesis by (rule activate_running_settles [OF g f1 fl1])
  next
    case False
    obtain v h2 where 2: "on_os (verify_config_file sha (st_path st) (sha cand) vals) h1 = (v, h2)" by (rule prod.exhaust)
    have f2: "files_are st cand h2" using f1 by (simp add: files_are_verify [OF 2])
    show ?thesis
    proof (cases v)
      case (Inl e)
      then show ?thesis
        using run False fl by (auto simp: activate_config_def 1 2 Let_def intro: restore_file_settles [OF g f2])
    next
      case (Inr u)
      then show ?thesis
        using run False fl f2 by (auto simp: activate_config_def 1 2 Let_def settled_as_def in_flight_def)
    qed
  qed
qed

text \<open>The syntax check works on a file of its own and removes it.\<close>

lemma find_shell_keeps: "find_shell cs h = (p, h') \<Longrightarrow> node_at (fst h') = node_at (fst h)"
  by (induction cs h rule: find_shell.induct)
    (auto split: prod.splits sum.splits if_splits dest!: on_os_read_only [OF read_only_calls(2)])

lemma af_close_keeps: "af_close a s = (r, a', s') \<Longrightarrow> node_at s' = node_at s \<and> map_option af_path a' = map_option af_path a"
  by (auto simp: af_close_def split: option.splits if_splits prod.splits dest!: fs_close_result)

lemma removal_keeps:
  assumes "a' = Some f" and "af_path f = t" and "p \<noteq> t"
  shows "node_at (snd (snd (af_cleanup a' s))) p = node_at s p"
proof -
  define s1 where "s1 = (if af_file f \<and> \<not> af_closed f then snd (fs_close t s) else s)"
  have s1: "node_at s1 = node_at s"
    unfolding s1_def by (metis fs_close_result prod.collapse)
  obtain r s2 where 2: "fs_remove t s1 = (r, s2)" by (rule prod.exhaust)
  have "node_at s2 p = node_at s p"
    using touchesD [OF touches_changes(4) [of t "{t}"] 2] assms(3) s1 by (simp add: same_except_def)
  moreover have "snd (snd (af_cleanup a' s)) = (if t = [] then s1 else s2)"
    using assms(1,2) 2 by (cases r; cases "af_file f \<and> \<not> af_closed f") (auto simp: af_cleanup_def s1_def)
  ultimately show ?thesis using s1 by simp
qed

lemma run_validation_keeps:
  assumes "keeps_files prog P" and "p \<in> P" and "p \<noteq> af_path a" and run: "run_validation prog cand mode a h = (r, a', h')"
  shows "node_at (fst h') p = node_at (fst h) p \<and> map_option af_path a' = Some (af_path a)"
proof -
  let ?T = "{af_path a}"
  have t: "touches ?T (fs_chmod (af_path a) mode)" "touches ?T (fs_write (af_path a) cand)" "touches ?T (af_sync (Some a))"
    unfolding af_sync_def by (auto intro!: frame)
  have p: "p \<notin> ?T" using assms(3) by simp
  obtain r1 h1 where 1: "on_os (fs_chmod (af_path a) mode) h = (r1, h1)" by (rule prod.exhaust)
  obtain r2 h2 where 2: "on_os (fs_write (af_path a) cand) h1 = (r2, h2)" by (rule prod.exhaust)
  obtain r3 h3 where 3: "on_os (af_sync (Some a)) h2 = (r3, h3)" by (rule prod.exhaust)
  obtain r4 a4 s4 where 4: "af_close (Some a) (fst h3) = (r4, a4, s4)" by (metis prod.exhaust)
  obtain shell h5 where 5: "find_shell validation_shells (s4, snd h3) = (shell, h5)" by (rule prod.exhaust)
  obtain out e h6 where 6: "host_run prog 8192 shell [''-n'', af_path a] h5 = ((out, e), h6)" by (metis prod.exhaust)
  have n: "node_at (fst h1) p = node_at (fst h) p" "node_at (fst h2) p = node_at (fst h) p" "node_at (fst h3) p = node_at (fst h) p"
    "node_at s4 p = node_at (fst h) p" "node_at (fst h5) p = node_at (fst h) p" "node_at (fst h6) p = node_at (fst h) p"
    using on_os_keeps [OF 1 t(1) p] on_os_keeps [OF 2 t(2) p] on_os_keeps [OF 3 t(3) p] af_close_keeps [OF 4]
      find_shell_keeps [OF 5] host_run_keeps [OF assms(1) 6 assms(2)] by simp_all
  show ?thesis
    using run n af_close_keeps [OF 4]
    by (cases r1; cases r2; cases r3; cases r4; cases "shell = []"; cases e)
      (auto simp: run_validation_def 1 2 3 4 5 6)
qed

lemma validate_syntax_keeps:
  assumes "keeps_files prog P" and "p \<in> P" and ex: "node_at (fst h) p \<noteq> None"
    and run: "validate_syntax prog path cand mode h = (r, h')"
  shows "node_at (fst h') p = node_at (fst h) p"
proof -
  obtain r1 h1 where 1: "on_os (new_atomic_file (path_dir path) ''.routerforge-ascn-validate-*'') h = (r1, h1)"
    by (rule prod.exhaust)
  have new: "case r1 of Inl e \<Rightarrow> node_at (fst h1) = node_at (fst h)
    | Inr a \<Rightarrow> node_at (fst h) (af_path a) = None \<and> node_at (fst h1) = (node_at (fst h))(af_path a \<mapsto> Regular 384 [])"
    using on_os_fst [OF 1]
    by (auto simp: new_atomic_file_def io_bind_def split: prod.splits sum.splits dest!: fs_create_temp_result)
  show ?thesis
  proof (cases "cand = [] \<or> int (length cand) > file_max")
    case True
    then show ?thesis using run by (auto simp: validate_syntax_def)
  next
    case False
    show ?thesis
    proof (cases r1)
      case (Inl e)
      then show ?thesis using run False new by (auto simp: validate_syntax_def 1)
    next
      case (Inr a)
      then have p: "p \<noteq> af_path a" and n1: "node_at (fst h1) p = node_at (fst h) p" using new ex by auto
      obtain r2 a' h2 where 2: "run_validation prog cand mode a h1 = (r2, a', h2)" by (metis prod.exhaust)
      note k = run_validation_keeps [OF assms(1,2) p 2]
      obtain f where f: "a' = Some f" "af_path f = af_path a" using k by auto
      have "node_at (snd (snd (af_cleanup a' (fst h2)))) p = node_at (fst h2) p"
        by (rule removal_keeps [OF f p])
      then show ?thesis using run False k n1 by (auto simp: validate_syntax_def 1 Inr 2)
    qed
  qed
qed

subsection \<open>The outcome of the transaction\<close>

lemma fs_open_read_only: "read_only (fs_open p)"
  unfolding fs_open_def by (auto intro!: read_only_syscall)

lemma resolve_existing_read_only:
  "rs_eval r = None \<Longrightarrow> read_only (resolve_existing cwd r raw forbidden)"
  unfolding resolve_existing_def canonical_root_def eval_symlinks_def path_abs_def
  by (auto intro!: read_only_composed simp: Let_def split: sum.splits)

lemma read_config_state_reads:
  assumes "read_config_state sha cwd cfg s = (Inr st, s')" and "node_at s (st_path st) = Some (Regular m d)"
  shows "st_data st = d \<and> st_mode st = m \<and> st_sha st = sha d"
proof -
  obtain res info x data s1 s2 s3 s4 where
      1: "resolve_existing cwd \<lparr>rs_roots = [rc_dir cfg], rs_eval = None\<rparr> (path_join2 (rc_dir cfg) ''ascn.conf'') None s = (Inr res, s1)"
    and 2: "fs_stat (rp_canonical res) s1 = (Inr info, s2)" and 3: "fs_open (rp_canonical res) s2 = (Inr x, s3)"
    and 4: "read_bounded (rp_canonical res) file_max s3 = (Inr data, s4)"
    and st: "st = \<lparr>st_path = rp_canonical res, st_data = data, st_mode = node_perm info, st_sha = sha data\<rparr>"
    using assms(1) by (auto simp: read_config_state_def io_bind_Inr io_wrap_Inr split: if_splits)
  obtain whole where 5: "fs_read_file (rp_canonical res) s3 = (Inr whole, s4)"
    and data: "data = limited (file_max + 1) whole" "int (length data) \<le> file_max"
    using 4 by (auto simp: read_bounded_def io_bind_Inr Let_def split: if_splits)
  have at: "node_at s1 = node_at s" "node_at s2 = node_at s" "node_at s3 = node_at s"
    using read_only_node_at [OF resolve_existing_read_only 1, simplified] read_only_node_at [OF read_only_calls(2) 2]
      read_only_node_at [OF fs_open_read_only 3] by simp_all
  have "info = Regular m d" "whole = d"
    using fs_stat_regular [OF 2] fs_read_regular [OF 5] at assms(2) st by auto
  moreover have "data = d" using data \<open>whole = d\<close> by (auto simp: limited_def file_max_def split: if_splits)
  ultimately show ?thesis by (simp add: st node_perm_def)
qed

lemma read_config_state_only:
  "read_only (read_config_state sha cwd cfg)"
  unfolding read_config_state_def read_bounded_def
  by (auto intro!: read_only_composed resolve_existing_read_only fs_open_read_only simp: Let_def)

lemma verify_unchanged_only: "read_only (verify_unchanged sha path expected)"
  unfolding verify_unchanged_def by (auto intro!: read_only_composed)

text \<open>Publishing, the last step: either the file is still the old one, or the answer is settled.\<close>

lemma publish_settles:
  assumes g: "guarded prog st" and fl: "\<not> cr_changed res" "\<not> cr_rollback res" "\<not> cr_verified res"
    and old: "node_at (fst h) (st_path st) = Some (Regular (st_mode st) (st_data st))"
    and run: "publish_config prog sha cfg st vals cand res h = (ans, h')"
  shows "settled_as st cand ans h' \<or>
    (case ans of (res', code, err) \<Rightarrow> \<not> cr_changed res' \<and> \<not> cr_rollback res' \<and> \<not> cr_verified res' \<and> code = 409 \<and> err \<noteq> None \<and>
       node_at (fst h') (st_path st) = Some (Regular (st_mode st) (st_data st)))"
proof -
  obtain r1 h1 where 1: "on_os (verify_unchanged sha (st_path st) (st_sha st)) h = (r1, h1)" by (rule prod.exhaust)
  obtain r2 h2 where 2: "on_os (write_file_atomic (backup_of (st_path st)) (st_data st) (st_mode st)) h1 = (r2, h2)"
    by (rule prod.exhaust)
  obtain r3 h3 where 3: "on_os (write_file_atomic (st_path st) cand (st_mode st)) h2 = (r3, h3)" by (rule prod.exhaust)
  have t: "target_ok (st_path st)" "target_ok (backup_of (st_path st))" using g by (simp_all add: guarded_def)
  have w2: "write_file_atomic (backup_of (st_path st)) (st_data st) (st_mode st) (fst h1) = (r2, fst h2)"
    using on_os_fst [OF 2] by simp
  have w3: "write_file_atomic (st_path st) cand (st_mode st) (fst h2) = (r3, fst h3)"
    using on_os_fst [OF 3] by simp
  have n1: "node_at (fst h1) = node_at (fst h)" by (rule on_os_read_only [OF verify_unchanged_only 1])
  have n2: "node_at (fst h2) (st_path st) = Some (Regular (st_mode st) (st_data st))"
    using wfa.elsewhere [OF t(2) w2, of "st_path st"] old n1 by simp
  have b2: "r2 = Inr () \<Longrightarrow> node_at (fst h2) (backup_of (st_path st)) = Some (Regular (st_mode st) (st_data st))"
    using wfa.published [OF t(2)] w2 by simp
  show ?thesis
  proof (cases "is_ok r1 \<and> is_ok r2 \<and> is_ok r3")
    case True
    then have ok: "r1 = Inr ()" "r2 = Inr ()" "r3 = Inr ()" by (cases r1; cases r2; cases r3; simp)+
    have "files_are st cand h3"
      using wfa.published [OF t(1)] w3 wfa.elsewhere [OF t(1) w3, of "backup_of (st_path st)"] b2 ok
      by (simp add: files_are_def)
    then have "settled_as st cand ans h'"
      using run ok fl by (auto simp: publish_config_def 1 2 3 Let_def in_flight_def intro!: activate_config_settles [OF g])
    then show ?thesis by simp
  next
    case False
    then show ?thesis
      using run fl n1 n2 old wfa.kept [OF t(1)] w3
      by (cases r1; cases r2; cases r3) (auto simp: publish_config_def 1 2 3 Let_def)
  qed
qed

text \<open>A request either changes nothing or reaches the publishing step with a verified candidate.\<close>

lemma apply_config_reaches:
  assumes "apply_config prog sha cwd cfg req h = ((res, code, err), h')"
    and l: "lock_present cfg h = (l, h0)" and rd: "on_os (read_config_state sha cwd cfg) h0 = (Inr st, h1)"
    and n: "node_at (fst h0) = node_at (fst h)" "node_at (fst h1) = node_at (fst h)"
    and at: "node_at (fst h) (st_path st) = Some (Regular m data)" and st: "st_data st = data" "st_mode st = m"
    and k: "keeps_files prog {st_path st, backup_of (st_path st)}"
  obtains (stop) "(code = 200 \<longleftrightarrow> err = None) \<and> (cr_verified res \<longleftrightarrow> code = 200) \<and> \<not> cr_changed res \<and> \<not> cr_rollback res \<and>
      node_at (fst h') (st_path st) = Some (Regular m data)"
    | (go) vals cand h3 where "normalize_update req = Inr vals" "merge_config data vals = Inr cand" "verify_values cand vals = None"
        "validate_syntax prog (st_path st) cand m h1 = (None, h3)"
        "publish_config prog sha cfg st vals cand (no_config_result\<lparr>cr_before := st_sha st, cr_after := st_sha st, cr_after := sha cand\<rparr>) h3
         = ((res, code, err), h')"
proof -
  have init: "\<not> cr_changed no_config_result" "\<not> cr_rollback no_config_result" "\<not> cr_verified no_config_result"
    by (simp_all add: no_config_result_def)
  note run = assms(1) [unfolded apply_config_def l prod.case Let_def]
  show thesis
  proof (cases l)
    case True
    then show thesis using stop run init n(1) at by auto
  next
    case False
    show thesis
    proof (cases "normalize_update req")
      case (Inl e)
      then show thesis using stop run False init n(1) at by auto
    next
      case (Inr vals)
      note vals = this
      obtain d where d: "validate_ipsets_dir (conf_get vals ''IPSETS_DIRECTORY'') vals = d" by simp
      show thesis
      proof (cases "d = None \<and> to_lower (trim_space (cq_base req)) \<noteq> [] \<and> to_lower (trim_space (cq_base req)) = st_sha st")
        case False
        then show thesis using stop run \<open>\<not> l\<close> vals rd init n at
          by (cases d) (auto simp: d split: if_splits)
      next
        case True
        then have ne: "st_sha st \<noteq> []" by metis
        note run' = run [unfolded vals sum.case d rd prod.case]
        show thesis
        proof (cases "merge_config (st_data st) vals")
          case (Inl e)
          then show thesis using stop run' \<open>\<not> l\<close> True ne init n(2) at by auto
        next
          case (Inr cand)
          obtain e h3 where v: "validate_syntax prog (st_path st) cand (st_mode st) h1 = (e, h3)" by (rule prod.exhaust)
          have n3: "node_at (fst h3) (st_path st) = Some (Regular m data)"
            using validate_syntax_keeps [OF k _ _ v, of "st_path st"] n(2) at by simp
          show thesis
            using run' \<open>\<not> l\<close> True ne init n3 Inr v st go [of vals cand h3] vals
            by (cases e; cases "verify_values cand vals"; cases "st_data st = cand") (auto intro: stop)
        qed
      qed
    qed
  qed
qed


subsection \<open>An example\<close>

definition example_update :: "config_request" where
  "example_update = \<lparr>cq_base = ''stale'', cq_interfaces = ''eth3'', cq_ports = ''22'', cq_forwarded = [], cq_honeypot = False,
     cq_honeypot_ports = [], cq_honeypot_bantime = 0, cq_ips_ban = False, cq_rules_mask = [], cq_recent_time = 0,
     cq_recent_hitcount = 0, cq_recent_limit = 0, cq_recent_bantime = 0, cq_candidate_storage = 0, cq_ip_threshold = 0,
     cq_subnets_bantime = 0, cq_ipsets_dir = [], cq_save_ipsets = False, cq_save_on_exit = False,
     cq_custom_exclude = False, cq_custom_mode = [], cq_geo_mode = [], cq_geo_countries = [], cq_geo_exclude = [],
     cq_ndm_lockout = False, cq_lockout_bantime = 0\<rparr>"

definition example_antiscan :: "runtime_config" where
  "example_antiscan = \<lparr>rc_dir = ''/a'', rc_init = ''/i'', rc_status = ''/s'', rc_config_lock = ''/c'', rc_geo_lock = ''/g''\<rparr>"

definition example_host :: "unit host" where
  "example_host = (\<lparr>tree = [(''/a'', Directory 493), (''/a/ascn.conf'', Regular 420 ''#''), (''/bin/sh'', Regular 493 []), (''/i'', Regular 493 []), (''/s'', Regular 420 [])],
     faults = [], entropy = [''1'', ''2'', ''3'', ''4''], realpath = Inr\<rparr>, ())"

definition failing_reload :: "unit program" where
  "failing_reload program args h = (([], if program = ''/i'' then Some ErrIO else None), h)"

definition marked :: "string \<Rightarrow> string" where
  "marked t = CHR ''h'' # t"


end
