(* ===== verification/Antiscan_Cron.thy ===== *)
theory Antiscan_Cron
  imports Antiscan_Text Antiscan_Host Safety_Path
begin

text \<open>
  \<^verbatim>\<open>modules/antiscan-manager-runtime/scheduler.go\<close>: the editor of the cron file of Antiscan. It parses the
  lines of \<^verbatim>\<open>ascn_crontab.conf\<close>, renders a requested schedule into them, lets the package install the
  result with \<^verbatim>\<open>update_crontab\<close>, compares the installed lines, and goes back when that fails.
  Parameters: SHA-256, the external programs and the search path of the process.
\<close>

subsection \<open>Tasks and lines\<close>

definition managed_tasks :: "string list" where
  "managed_tasks = [''read_candidates'', ''read_ndm_ipsets'', ''save_ipsets'', ''update_ipsets geo'']"

definition retry_task :: "string" where
  "retry_task = ''retry_load_geo''"

definition all_tasks :: "string list" where
  "all_tasks = [''read_candidates'', ''read_ndm_ipsets'', ''save_ipsets'', ''update_ipsets geo'', ''retry_load_geo'']"

definition default_schedules :: "(string \<times> string) list" where
  "default_schedules =
     [(''read_candidates'', ''*/1 * * * *''), (''read_ndm_ipsets'', ''*/2 * * * *''), (''save_ipsets'', ''0 0 */5 * *''),
      (''update_ipsets geo'', ''0 5 */15 * *''), (''retry_load_geo'', ''0 */1 * * *'')]"

definition cron_field :: "string \<Rightarrow> bool" where
  "cron_field f \<longleftrightarrow> length f \<le> 32 \<and> f \<noteq> [] \<and> list_all (\<lambda>c. is_digit c \<or> c = CHR ''*'' \<or> c = CHR ''/'') f"

definition init_prefix :: "string" where
  "init_prefix = ''/opt/etc/init.d/S99ascn ''"

definition parse_line :: "string \<Rightarrow> go_error + (string \<times> string) option" where
  "parse_line line =
     (let fs = Go_Std.fields (trim_space line) in
      if length fs < 8 then Inl (Msg ''invalid cron syntax'')
      else if last fs \<noteq> ''&'' then Inl (Msg ''scheduler command must end with &'')
      else if \<not> list_all cron_field (take 5 fs)
      then Inl (Msg ''cron field contains characters unsupported by upstream'')
      else
        (let command = join '' '' (drop 5 (butlast fs)) in
         if \<not> has_prefix command init_prefix then Inr None
         else
           (let task = trim_space (trim_prefix command init_prefix) in
            if task \<notin> set all_tasks then Inl (Msg (''unsupported scheduler task '' @ quoted task))
            else Inr (Some (task, join '' '' (take 5 fs))))))"

definition canonical_line :: "string \<Rightarrow> string \<Rightarrow> string" where
  "canonical_line task schedule = join '' '' (Go_Std.fields schedule) @ '' /opt/etc/init.d/S99ascn '' @ task @ '' &''"

fun parse_rows ::
    "nat \<Rightarrow> string list \<Rightarrow> conf \<Rightarrow> string list \<Rightarrow> string list \<Rightarrow> conf \<times> string list \<times> string list" where
  "parse_rows n [] tasks ls problems = (tasks, ls, problems)"
| "parse_rows n (raw # rows) tasks ls problems =
     (let problem = (\<lambda>m. problems @ [''line '' @ itoa (int n) @ '': '' @ m]) in
      if skip_line raw then parse_rows (Suc n) rows tasks ls problems
      else case parse_line (trim_space raw) of
        Inl e \<Rightarrow> parse_rows (Suc n) rows tasks ls (problem (error_text e))
      | Inr None \<Rightarrow> parse_rows (Suc n) rows tasks ls (problem ''unsupported scheduler line'')
      | Inr (Some (task, schedule)) \<Rightarrow>
          if task \<in> dom tasks
          then parse_rows (Suc n) rows tasks ls (problem (''duplicate scheduler task '' @ quoted task))
          else parse_rows (Suc n) rows (tasks(task \<mapsto> schedule)) (ls @ [canonical_line task schedule]) problems)"

definition parse_source :: "string \<Rightarrow> conf \<times> string list \<times> string list" where
  "parse_source s = parse_rows 1 (split_char lf (replace_crlf s)) Map.empty [] []"

subsection \<open>The requested schedule\<close>

record cron_item =
  ci_task :: string
  ci_enabled :: bool
  ci_schedule :: string

type_synonym cron_request = "string \<Rightarrow> cron_item option"

definition validate_expression :: "string \<Rightarrow> go_error option" where
  "validate_expression expr =
     (let fs = Go_Std.fields (trim_space expr) in
      if length fs \<noteq> 5 then Some (Msg ''cron expression must contain exactly five fields'')
      else if \<not> list_all cron_field fs then Some (Msg ''cron expression contains characters unsupported by upstream'')
      else None)"

fun collect_items :: "cron_item list \<Rightarrow> cron_request \<Rightarrow> nat \<Rightarrow> go_error + cron_request \<times> nat" where
  "collect_items [] result enabled = Inr (result, enabled)"
| "collect_items (i # items) result enabled =
     (let item = i\<lparr>ci_task := trim_space (ci_task i), ci_schedule := join '' '' (Go_Std.fields (ci_schedule i))\<rparr> in
      if ci_task item \<notin> set managed_tasks
      then Inl (Msg (''scheduler task '' @ quoted (ci_task item) @ '' is not user-managed''))
      else if ci_task item \<in> dom result then Inl (Msg (''duplicate scheduler task '' @ quoted (ci_task item)))
      else case (if ci_enabled item \<or> ci_schedule item \<noteq> [] then validate_expression (ci_schedule item) else None) of
        Some e \<Rightarrow> Inl (Wrap (ci_task item @ '': '') e)
      | None \<Rightarrow> collect_items items (result(ci_task item \<mapsto> item)) (if ci_enabled item then Suc enabled else enabled))"

definition normalize_request :: "cron_item list \<Rightarrow> go_error + cron_request" where
  "normalize_request items =
     (if length items \<noteq> length managed_tasks
      then Inl (Msg ''scheduler request must contain exactly 4 managed tasks'')
      else case collect_items items Map.empty 0 of
        Inl e \<Rightarrow> Inl e
      | Inr (result, enabled) \<Rightarrow>
          (case List.find (\<lambda>t. t \<notin> dom result) managed_tasks of
             Some t \<Rightarrow> Inl (Msg (''scheduler request is missing task '' @ quoted t))
           | None \<Rightarrow>
               if enabled = 0 then Inl (Msg ''at least one managed scheduler task must remain enabled'')
               else Inr result))"

subsection \<open>Rendering\<close>

fun render_rows :: "cron_request \<Rightarrow> string list \<Rightarrow> go_error + string list \<times> string set" where
  "render_rows req [] = Inr ([], {})"
| "render_rows req (raw # rows) =
     (if skip_line raw then
        (case render_rows req rows of Inl e \<Rightarrow> Inl e | Inr (out, emitted) \<Rightarrow> Inr (raw # out, emitted))
      else case parse_line (trim_space raw) of
        Inl e \<Rightarrow> Inl e
      | Inr None \<Rightarrow> Inl (Msg ''unsupported scheduler line'')
      | Inr (Some (task, _)) \<Rightarrow>
          if task = retry_task then
            (case render_rows req rows of Inl e \<Rightarrow> Inl e | Inr (out, emitted) \<Rightarrow> Inr (raw # out, emitted))
          else case req task of
            None \<Rightarrow> Inl (Msg (''missing requested scheduler task '' @ quoted task))
          | Some item \<Rightarrow>
              (case render_rows req rows of
                 Inl e \<Rightarrow> Inl e
               | Inr (out, emitted) \<Rightarrow>
                   Inr (if ci_enabled item then canonical_line task (ci_schedule item) # out else out, insert task emitted)))"

definition enabled_line :: "cron_request \<Rightarrow> string \<Rightarrow> string list" where
  "enabled_line req task =
     (case req task of
        Some item \<Rightarrow> if ci_enabled item then [canonical_line task (ci_schedule item)] else []
      | None \<Rightarrow> [])"

definition drop_blank_tail :: "string list \<Rightarrow> string list" where
  "drop_blank_tail ls = rev (dropWhile (\<lambda>l. trim_space l = []) (rev ls))"

definition render_source :: "string \<Rightarrow> cron_request \<Rightarrow> go_error + string" where
  "render_source original req =
     (case render_rows req (split_char lf (replace_cr (replace_crlf original))) of
        Inl e \<Rightarrow> Inl e
      | Inr (out, emitted) \<Rightarrow>
          Inr (join [lf] (drop_blank_tail
                 (out @ concat (map (enabled_line req) (filter (\<lambda>t. t \<notin> emitted) managed_tasks)))) @ [lf]))"

subsection \<open>Lines that are written are read back\<close>

lemma task_words:
  assumes "t \<in> set all_tasks"
  shows "join '' '' (Go_Std.fields t) = t" "Go_Std.fields t \<noteq> []" "trim_space t = t" "list_all word_ok (Go_Std.fields t)"
proof -
  have "list_all (\<lambda>t. join '' '' (Go_Std.fields t) = t \<and> Go_Std.fields t \<noteq> [] \<and> trim_space t = t) all_tasks"
    by code_simp
  then show "join '' '' (Go_Std.fields t) = t" "Go_Std.fields t \<noteq> []" "trim_space t = t"
    using assms by (simp_all add: list_all_iff)
qed (rule fields_word_ok)

lemma init_word: "word_ok ''/opt/etc/init.d/S99ascn''" "word_ok ''&''"
  by code_simp+

lemma join_append: "xs \<noteq> [] \<Longrightarrow> ys \<noteq> [] \<Longrightarrow> join sep (xs @ ys) = join sep xs @ sep @ join sep ys"
  by (induction sep xs rule: join.induct) (auto simp: join_Cons)

definition valid_schedule :: "string \<Rightarrow> bool" where
  "valid_schedule s \<longleftrightarrow> length (Go_Std.fields s) = 5 \<and> list_all cron_field (Go_Std.fields s) \<and> s = join '' '' (Go_Std.fields s)"

lemma canonical_words:
  assumes "t \<in> set all_tasks" and "Go_Std.fields s \<noteq> []"
  shows "canonical_line t s = join '' '' (Go_Std.fields s @ [''/opt/etc/init.d/S99ascn''] @ Go_Std.fields t @ [''&''])"
  using task_words [OF assms(1)] assms(2) by (simp add: canonical_line_def join_append join_Cons)

lemma canonical_fields:
  assumes "t \<in> set all_tasks" and "Go_Std.fields s \<noteq> []"
  shows "Go_Std.fields (canonical_line t s) = Go_Std.fields s @ [''/opt/etc/init.d/S99ascn''] @ Go_Std.fields t @ [''&'']"
  unfolding canonical_words [OF assms] by (rule fields_join) (simp add: init_word fields_word_ok)

lemma word_ok_chars: "list_all word_ok ws \<Longrightarrow> c \<in> set (join '' '' ws) \<Longrightarrow> is_space c \<Longrightarrow> c = CHR '' ''"
  using set_join [of "'' ''" ws] by (fastforce simp: list_all_iff word_ok_def)

lemma canonical_no_line_end:
  assumes "t \<in> set all_tasks" and "Go_Std.fields s \<noteq> []"
  shows "lf \<notin> set (canonical_line t s)" "cr \<notin> set (canonical_line t s)"
proof -
  have "list_all word_ok (Go_Std.fields s @ [''/opt/etc/init.d/S99ascn''] @ Go_Std.fields t @ [''&''])"
    by (simp add: init_word fields_word_ok)
  from word_ok_chars [OF this] show "lf \<notin> set (canonical_line t s)" "cr \<notin> set (canonical_line t s)"
    unfolding canonical_words [OF assms] using lf_cr(3,4) by (auto simp: lf_def cr_def)
qed

lemma fields_snoc_space:
  assumes "is_space c"
  shows "Go_Std.fields (s @ [c]) = Go_Std.fields s"
proof -
  have "fields_func p (s @ [c]) = fields_func p s" if "p c" for p s
    using that
  proof (induction p s rule: fields_func.induct)
    case (1 p s)
    let ?t = "dropWhile p s"
    show ?case
    proof (cases "?t = []")
      case True
      then show ?thesis using 1(2) by (subst (1 2) fields_func.simps) (simp add: dropWhile_append Let_def)
    next
      case False
      then have drop: "dropWhile p (s @ [c]) = ?t @ [c]" by (auto simp: dropWhile_append dropWhile_eq_Nil_conv)
      have take: "takeWhile (\<lambda>x. \<not> p x) (?t @ [c]) = takeWhile (\<lambda>x. \<not> p x) ?t"
        using 1(2) by (simp add: takeWhile_append) (metis takeWhile_eq_all_conv)
      have rest: "dropWhile (\<lambda>x. \<not> p x) (?t @ [c]) = dropWhile (\<lambda>x. \<not> p x) ?t @ [c]"
        using 1(2) by (auto simp: dropWhile_append dropWhile_eq_Nil_conv)
      show ?thesis
        using 1(1) [OF refl False 1(2)] False
        by (subst (1 2) fields_func.simps) (simp only: Let_def drop take rest snoc_eq_iff_butlast if_False append_is_Nil_conv, simp)
    qed
  qed
  then show ?thesis using assms by (simp add: Go_Std.fields_def)
qed

lemma fields_trim: "Go_Std.fields (trim_space s) = Go_Std.fields s"
proof -
  have left: "Go_Std.fields (trim_left is_space s) = Go_Std.fields s" for s
    by (induction s) (simp_all add: trim_left_def fields_skip)
  have "Go_Std.fields (trim_right is_space s) = Go_Std.fields s" for s :: string
  proof (induction s rule: rev_induct)
    case Nil
    then show ?case by (simp add: trim_right_def)
  next
    case (snoc c s)
    then show ?case
      by (cases "is_space c") (simp_all add: trim_right_snoc fields_snoc_space trim_right_id)
  qed
  then show ?thesis by (simp add: trim_space_def left)
qed

lemma canonical_parses:
  assumes t: "t \<in> set all_tasks" and s: "valid_schedule s"
  shows "parse_line (trim_space (canonical_line t s)) = Inr (Some (t, s))"
proof -
  have n: "length (Go_Std.fields s) = 5" "Go_Std.fields s \<noteq> []" using s by (auto simp: valid_schedule_def)
  let ?rest = "''/opt/etc/init.d/S99ascn'' # Go_Std.fields t"
  have fs: "Go_Std.fields (trim_space (canonical_line t s)) = Go_Std.fields s @ ?rest @ [''&'']"
    using canonical_fields [OF t n(2)] by (simp add: fields_trim)
  have command: "join '' '' ?rest = init_prefix @ t"
    using task_words [OF t] by (simp add: join_Cons init_prefix_def)
  have len: "\<not> length (Go_Std.fields s @ ?rest @ [''&'']) < 8"
    using n(1) task_words(2) [OF t] by (cases "Go_Std.fields t") auto
  show ?thesis
    using s len command task_words(3) [OF t] t n
    by (simp add: parse_line_def fs Let_def butlast_append valid_schedule_def)
qed

lemma hd_fields: "s \<noteq> [] \<Longrightarrow> \<not> is_space (hd s) \<Longrightarrow> Go_Std.fields s \<noteq> [] \<and> hd (hd (Go_Std.fields s)) = hd s"
  unfolding Go_Std.fields_def by (subst (1 2) fields_func.simps) (cases s; simp add: Let_def)

lemma parsed_not_skip:
  assumes "parse_line (trim_space l) = Inr (Some e)"
  shows "\<not> skip_line l"
proof
  assume skip: "skip_line l"
  have f: "\<not> length (Go_Std.fields (trim_space l)) < 8" "list_all cron_field (take 5 (Go_Std.fields (trim_space l)))"
    using assms by (auto simp: parse_line_def Let_def split: if_splits)
  then have ne: "trim_space l \<noteq> []" by auto
  then have "hd (trim_space l) = CHR ''#''" using skip by (auto simp: skip_line_def has_prefix_iff)
  moreover have "hd (hd (Go_Std.fields (trim_space l))) = hd (trim_space l)"
    using hd_fields [OF ne trim_space_first [OF ne]] by simp
  moreover have "cron_field (hd (Go_Std.fields (trim_space l)))"
    using f by (cases "Go_Std.fields (trim_space l)") auto
  then have "is_digit (hd (hd (Go_Std.fields (trim_space l)))) \<or> hd (hd (Go_Std.fields (trim_space l))) \<in> set ''*/''"
    by (cases "hd (Go_Std.fields (trim_space l))") (auto simp: cron_field_def)
  moreover have "\<not> is_digit CHR ''#''" by code_simp
  ultimately show False by simp
qed

lemmas canonical_not_skip = parsed_not_skip [OF canonical_parses]

subsection \<open>What a valid file says\<close>

text \<open>The entries of a file all of whose lines are tasks, comments or blank.\<close>

fun row_entries :: "string list \<Rightarrow> (string \<times> string) list option" where
  "row_entries [] = Some []"
| "row_entries (raw # rows) =
     (if skip_line raw then row_entries rows
      else case parse_line (trim_space raw) of
        Inr (Some e) \<Rightarrow> map_option (Cons e) (row_entries rows)
      | _ \<Rightarrow> None)"

lemma parse_line_parts:
  assumes "parse_line l = Inr (Some (t, s))"
  shows "t \<in> set all_tasks" "valid_schedule s"
proof -
  let ?fs = "Go_Std.fields (trim_space l)"
  have f: "\<not> length ?fs < 8" "list_all cron_field (take 5 ?fs)" "t \<in> set all_tasks" "s = join '' '' (take 5 ?fs)"
    using assms by (auto simp: parse_line_def Let_def split: if_splits)
  have "list_all word_ok (take 5 ?fs)"
    using fields_word_ok [of "trim_space l"] by (auto simp: list_all_iff dest: in_set_takeD)
  then have "Go_Std.fields s = take 5 ?fs" using f(4) fields_join by simp
  then show "t \<in> set all_tasks" "valid_schedule s" using f by (auto simp: valid_schedule_def)
qed

lemma row_entries_parts:
  "row_entries rows = Some es \<Longrightarrow> (t, s) \<in> set es \<Longrightarrow> t \<in> set all_tasks \<and> valid_schedule s"
  by (induction rows arbitrary: es)
    (auto split: if_splits sum.splits option.splits dest: parse_line_parts)

lemma parse_rows_problems: "snd (snd (parse_rows n rows m ls ps)) = [] \<Longrightarrow> ps = []"
proof (induction rows arbitrary: n m ls ps)
  case (Cons raw rows)
  show ?case
  proof (cases "skip_line raw")
    case True
    then show ?thesis using Cons by simp
  next
    case False
    consider e where "parse_line (trim_space raw) = Inl e" | "parse_line (trim_space raw) = Inr None"
      | t s where "parse_line (trim_space raw) = Inr (Some (t, s))"
      by (metis old.sum.exhaust option.exhaust surj_pair)
    then show ?thesis using Cons False by cases (fastforce simp: Let_def split: if_splits)+
  qed
qed simp

lemma parse_rows_valid:
  "parse_rows n rows m ls [] = (m', ls', []) \<longleftrightarrow>
   (\<exists>es. row_entries rows = Some es \<and> distinct (map fst es) \<and> fst ` set es \<inter> dom m = {} \<and>
      m' = m ++ map_of es \<and> ls' = ls @ map (\<lambda>(t, s). canonical_line t s) es)"
proof (induction rows arbitrary: n m ls)
  case Nil
  then show ?case by auto
next
  case (Cons raw rows)
  have bad: "parse_rows k rows m ls ps \<noteq> (m', ls', [])" if "ps \<noteq> []" for k ps
    using parse_rows_problems [of k rows m ls ps] that by auto
  consider "skip_line raw" | "\<not> skip_line raw" "\<nexists>e. parse_line (trim_space raw) = Inr (Some e)"
    | t s where "\<not> skip_line raw" "parse_line (trim_space raw) = Inr (Some (t, s))"
    by (metis surj_pair)
  then show ?case
  proof cases
    case 1
    then show ?thesis using Cons.IH by simp
  next
    case 2
    then show ?thesis using bad by (auto simp: Let_def split: sum.splits option.splits)
  next
    case 3
    show ?thesis
    proof (cases "t \<in> dom m")
      case True
      then show ?thesis using 3 bad by (auto simp: Let_def)
    next
      case False
      have upd: "m(t \<mapsto> s) ++ map_of es = m ++ map_of ((t, s) # es)" if "t \<notin> fst ` set es" for es
      proof -
        have "map_of es t = None" using that by (simp add: map_of_eq_None_iff)
        then show ?thesis by (auto simp: map_add_def fun_eq_iff split: option.splits)
      qed
      let ?lines = "map (\<lambda>(t, s). canonical_line t s)"
      have each: "(fst ` set es \<inter> dom (m(t \<mapsto> s)) = {} \<and> m' = m(t \<mapsto> s) ++ map_of es)
          \<longleftrightarrow> (t \<notin> fst ` set es \<and> fst ` set ((t, s) # es) \<inter> dom m = {} \<and> m' = m ++ map_of ((t, s) # es))" for es
        using upd [of es] False by (cases "t \<in> fst ` set es") auto
      have "parse_rows n (raw # rows) m ls [] = (m', ls', []) \<longleftrightarrow>
          (\<exists>es. row_entries rows = Some es \<and> distinct (map fst es) \<and>
             (fst ` set es \<inter> dom (m(t \<mapsto> s)) = {} \<and> m' = m(t \<mapsto> s) ++ map_of es) \<and>
             ls' = ls @ ?lines ((t, s) # es))"
      proof -
        have "parse_rows n (raw # rows) m ls [] = parse_rows (Suc n) rows (m(t \<mapsto> s)) (ls @ [canonical_line t s]) []"
          using 3 False by (simp add: Let_def)
        then show ?thesis
          unfolding Cons.IH [of "Suc n" "m(t \<mapsto> s)" "ls @ [canonical_line t s]"] by (simp only: append.assoc append_Cons append_Nil list.map prod.case conj_assoc Cons.IH)
      qed
      also have "\<dots> \<longleftrightarrow> (\<exists>es. row_entries rows = Some es \<and> distinct (map fst ((t, s) # es)) \<and>
             fst ` set ((t, s) # es) \<inter> dom m = {} \<and> m' = m ++ map_of ((t, s) # es) \<and> ls' = ls @ ?lines ((t, s) # es))"
        unfolding each by (rule arg_cong [where f = Ex], rule ext) (simp, blast)
      also have "\<dots> \<longleftrightarrow> (\<exists>es. row_entries (raw # rows) = Some es \<and> distinct (map fst es) \<and>
             fst ` set es \<inter> dom m = {} \<and> m' = m ++ map_of es \<and> ls' = ls @ ?lines es)"
      proof -
        have "(\<exists>es. row_entries (raw # rows) = Some es \<and> Q es) \<longleftrightarrow> (\<exists>es. row_entries rows = Some es \<and> Q ((t, s) # es))" for Q
          using 3 by auto
        then show ?thesis by (simp only:)
      qed
      finally show ?thesis .
    qed
  qed
qed

lemma parse_source_valid:
  "parse_source text = (m, ls, []) \<longleftrightarrow>
   (\<exists>es. row_entries (split_char lf (replace_crlf text)) = Some es \<and> distinct (map fst es) \<and>
      m = map_of es \<and> ls = map (\<lambda>(t, s). canonical_line t s) es)"
  unfolding parse_source_def by (subst parse_rows_valid) auto

lemma row_entries_append:
  "row_entries (xs @ ys) =
     (case row_entries xs of None \<Rightarrow> None | Some a \<Rightarrow> map_option (\<lambda>b. a @ b) (row_entries ys))"
proof (induction xs)
  case Nil
  then show ?case by (cases "row_entries ys") simp_all
next
  case (Cons x xs)
  then show ?case by (auto split: sum.splits option.splits simp: option.map_comp comp_def intro!: option.map_cong)
qed

lemma row_entries_skip: "list_all skip_line xs \<Longrightarrow> row_entries xs = Some []"
  by (induction xs) auto

subsection \<open>What a request asks for\<close>

definition request_ok :: "cron_request \<Rightarrow> bool" where
  "request_ok req \<longleftrightarrow>
     dom req = set managed_tasks \<and>
     (\<forall>t i. req t = Some i \<longrightarrow> ci_enabled i \<longrightarrow> valid_schedule (ci_schedule i)) \<and>
     (\<exists>t i. req t = Some i \<and> ci_enabled i)"

definition requested_tasks :: "cron_request \<Rightarrow> conf \<Rightarrow> conf" where
  "requested_tasks req old =
     (\<lambda>t. if t = retry_task then old t
          else case req t of Some i \<Rightarrow> if ci_enabled i then Some (ci_schedule i) else None | None \<Rightarrow> None)"

lemma managed_all: "set all_tasks = insert retry_task (set managed_tasks)" "retry_task \<notin> set managed_tasks"
  by (auto simp: all_tasks_def managed_tasks_def retry_task_def)

lemma validate_expression_ok: "validate_expression (join '' '' (Go_Std.fields s)) = None \<Longrightarrow> valid_schedule (join '' '' (Go_Std.fields s))"
  by (auto simp: validate_expression_def valid_schedule_def fields_trim Let_def split: if_splits)

lemma collect_items_ok:
  assumes "collect_items items req n = Inr (req', n')"
    and "dom req \<subseteq> set managed_tasks" and "\<forall>t i. req t = Some i \<longrightarrow> ci_enabled i \<longrightarrow> valid_schedule (ci_schedule i)"
    and "0 < n \<longrightarrow> (\<exists>t i. req t = Some i \<and> ci_enabled i)"
  shows "dom req' \<subseteq> set managed_tasks \<and> (\<forall>t i. req' t = Some i \<longrightarrow> ci_enabled i \<longrightarrow> valid_schedule (ci_schedule i)) \<and>
    (0 < n' \<longrightarrow> (\<exists>t i. req' t = Some i \<and> ci_enabled i))"
  using assms
proof (induction items req n rule: collect_items.induct)
  case (2 i items req n)
  let ?i = "i\<lparr>ci_task := trim_space (ci_task i), ci_schedule := join '' '' (Go_Std.fields (ci_schedule i))\<rparr>"
  let ?v = "if ci_enabled ?i \<or> ci_schedule ?i \<noteq> [] then validate_expression (ci_schedule ?i) else None"
  have i: "ci_task ?i \<in> set managed_tasks" "ci_task ?i \<notin> dom req" and v: "?v = None"
    and run: "collect_items items (req(ci_task ?i \<mapsto> ?i)) (if ci_enabled ?i then Suc n else n) = Inr (req', n')"
    using 2(2) by (auto simp: Let_def split: if_splits option.splits)
  have valid: "ci_enabled i \<Longrightarrow> valid_schedule (ci_schedule ?i)"
    using v validate_expression_ok [of "ci_schedule i"] by simp
  have other: "t \<noteq> ci_task ?i" if "req t = Some x" for t x using that i(2) by auto
  show ?case
  proof (rule 2(1) [OF refl _ _ _ run])
    show "\<not> ci_task ?i \<notin> set managed_tasks" "\<not> ci_task ?i \<in> dom req" "?v = None" using i v by simp_all
    show "dom (req(ci_task ?i \<mapsto> ?i)) \<subseteq> set managed_tasks" using 2(3) i by auto
    show "\<forall>t x. (req(ci_task ?i \<mapsto> ?i)) t = Some x \<longrightarrow> ci_enabled x \<longrightarrow> valid_schedule (ci_schedule x)"
      using 2(4) valid by auto
    show "0 < (if ci_enabled ?i then Suc n else n) \<longrightarrow> (\<exists>t x. (req(ci_task ?i \<mapsto> ?i)) t = Some x \<and> ci_enabled x)"
    proof (cases "ci_enabled i")
      case True
      then show ?thesis by (intro impI exI [of _ "ci_task ?i"] exI [of _ ?i]) simp
    next
      case False
      show ?thesis
      proof
        assume "0 < (if ci_enabled ?i then Suc n else n)"
        then obtain t x where "req t = Some x" "ci_enabled x" using False 2(5) by auto
        then show "\<exists>t x. (req(ci_task ?i \<mapsto> ?i)) t = Some x \<and> ci_enabled x"
          using other by (intro exI [of _ t] exI [of _ x]) simp
      qed
    qed
  qed
qed simp

lemma normalize_request_ok:
  assumes "normalize_request items = Inr req"
  shows "request_ok req"
proof -
  obtain n where c: "collect_items items Map.empty 0 = Inr (req, n)" "n \<noteq> 0" "\<forall>t\<in>set managed_tasks. t \<in> dom req"
    using assms by (auto simp: normalize_request_def find_None_iff split: if_splits sum.splits option.splits)
  then show ?thesis using collect_items_ok [OF c(1)] unfolding request_ok_def by auto
qed

subsection \<open>Rendering is exact\<close>

definition wanted :: "cron_request \<Rightarrow> string \<times> string \<Rightarrow> (string \<times> string) list" where
  "wanted req e =
     (if fst e = retry_task then [e]
      else case req (fst e) of
        Some i \<Rightarrow> if ci_enabled i then [(fst e, ci_schedule i)] else []
      | None \<Rightarrow> [])"

text \<open>The lines a rendering writes, beside the blank ones and the comments.\<close>

definition settled_line :: "cron_request \<Rightarrow> string \<Rightarrow> bool" where
  "settled_line req l \<longleftrightarrow>
     skip_line l \<or> (\<exists>s. parse_line (trim_space l) = Inr (Some (retry_task, s))) \<or>
     (\<exists>t i. t \<in> set managed_tasks \<and> req t = Some i \<and> ci_enabled i \<and> l = canonical_line t (ci_schedule i))"

lemma enabled_parses:
  assumes "request_ok req" and "t \<in> set managed_tasks" and "req t = Some i" and "ci_enabled i"
  shows "parse_line (trim_space (canonical_line t (ci_schedule i))) = Inr (Some (t, ci_schedule i))"
    and "\<not> skip_line (canonical_line t (ci_schedule i))"
  using assms canonical_parses [of t "ci_schedule i"] canonical_not_skip [of t "ci_schedule i"] managed_all(1)
  by (auto simp: request_ok_def)

lemma wanted_retry [simp]: "wanted req (retry_task, s) = [(retry_task, s)]"
  by (simp add: wanted_def)

lemma managed_requested: "request_ok req \<Longrightarrow> t \<in> set managed_tasks \<Longrightarrow> \<exists>i. req t = Some i"
  unfolding request_ok_def by (metis domD)

lemma render_rows_ok:
  assumes req: "request_ok req"
  shows "row_entries rows = Some es \<Longrightarrow>
    \<exists>out. render_rows req rows = Inr (out, fst ` set es - {retry_task}) \<and>
      row_entries out = Some (concat (map (wanted req) es)) \<and> filter skip_line out = filter skip_line rows \<and>
      (\<forall>l\<in>set out. settled_line req l) \<and> (\<forall>l\<in>set out. l \<in> set rows \<or> \<not> skip_line l \<and>
         (\<exists>t i. t \<in> set managed_tasks \<and> req t = Some i \<and> ci_enabled i \<and> l = canonical_line t (ci_schedule i)))"
proof (induction rows arbitrary: es)
  case Nil
  then show ?case by simp
next
  case (Cons raw rows)
  show ?case
  proof (cases "skip_line raw")
    case True
    then show ?thesis using Cons by (fastforce simp: settled_line_def)
  next
    case False
    then obtain t s es' where p: "parse_line (trim_space raw) = Inr (Some (t, s))" "row_entries rows = Some es'" "es = (t, s) # es'"
      using Cons.prems by (auto split: sum.splits option.splits)
    obtain out where out: "render_rows req rows = Inr (out, fst ` set es' - {retry_task})"
        "row_entries out = Some (concat (map (wanted req) es'))" "filter skip_line out = filter skip_line rows"
        "\<forall>l\<in>set out. settled_line req l"
        "\<forall>l\<in>set out. l \<in> set rows \<or> \<not> skip_line l \<and>
           (\<exists>t i. t \<in> set managed_tasks \<and> req t = Some i \<and> ci_enabled i \<and> l = canonical_line t (ci_schedule i))"
      using Cons.IH [OF p(2)] by blast
    show ?thesis
    proof (cases "t = retry_task")
      case True
      then show ?thesis
        using False p out by (auto simp: settled_line_def)
    next
      case other: False
      then have t: "t \<in> set managed_tasks" using parse_line_parts(1) [OF p(1)] managed_all(1) by auto
      then obtain i where i: "req t = Some i" using managed_requested [OF req] by blast
      have em: "insert t (fst ` set es' - {retry_task}) = fst ` set es - {retry_task}" using other p(3) by auto
      show ?thesis
      proof (cases "ci_enabled i")
        case True
        note e = enabled_parses [OF req t i True]
        have "render_rows req (raw # rows) = Inr (canonical_line t (ci_schedule i) # out, fst ` set es - {retry_task})"
          using False p(1) other i True out(1) em by simp
        moreover have "row_entries (canonical_line t (ci_schedule i) # out) = Some (concat (map (wanted req) es))"
          using e out(2) p(3) other i True by (simp add: wanted_def)
        moreover have "settled_line req (canonical_line t (ci_schedule i))"
          using t i True by (auto simp: settled_line_def)
        ultimately show ?thesis
          using out(3-5) e(2) False t i True by (intro exI [of _ "canonical_line t (ci_schedule i) # out"]) auto
      next
        case disabled: False
        have "render_rows req (raw # rows) = Inr (out, fst ` set es - {retry_task})"
          using False p(1) other i disabled out(1) em by simp
        moreover have "row_entries out = Some (concat (map (wanted req) es))"
          using out(2) p(3) other i disabled by (simp add: wanted_def)
        ultimately show ?thesis using out(3-5) False by (intro exI [of _ out]) auto
      qed
    qed
  qed
qed

lemma tail_entries:
  assumes "request_ok req" and "set ts \<subseteq> set managed_tasks"
  shows "row_entries (concat (map (enabled_line req) ts)) = Some (concat (map (\<lambda>t. wanted req (t, [])) ts))"
  using assms(2)
proof (induction ts)
  case (Cons t ts)
  then have t: "t \<in> set managed_tasks" "t \<noteq> retry_task" using managed_all(2) by auto
  then obtain i where i: "req t = Some i" using managed_requested [OF assms(1)] by blast
  then show ?case
    using Cons t enabled_parses [OF assms(1) t(1) i] by (auto simp: enabled_line_def wanted_def row_entries_append)
qed simp

lemma drop_blank_tail_split: "\<exists>bs. ls = drop_blank_tail ls @ bs \<and> (\<forall>b\<in>set bs. trim_space b = [])"
proof -
  have "rev ls = takeWhile (\<lambda>l. trim_space l = []) (rev ls) @ dropWhile (\<lambda>l. trim_space l = []) (rev ls)" by simp
  then have "ls = drop_blank_tail ls @ rev (takeWhile (\<lambda>l. trim_space l = []) (rev ls))"
    unfolding drop_blank_tail_def by (metis rev_append rev_rev_ident)
  then show ?thesis by (intro exI [of _ "rev (takeWhile (\<lambda>l. trim_space l = []) (rev ls))"]) (auto dest: set_takeWhileD)
qed

lemma drop_blank_tail_again: "drop_blank_tail (drop_blank_tail ls @ [[]]) = drop_blank_tail ls"
  by (simp add: drop_blank_tail_def)

lemma drop_blank_tail_entries:
  "row_entries (drop_blank_tail ls) = row_entries ls"
  "filter note_line (drop_blank_tail ls) = filter note_line ls"
  "set (drop_blank_tail ls) \<subseteq> set ls"
proof -
  obtain bs where bs: "ls = drop_blank_tail ls @ bs" "\<forall>b\<in>set bs. trim_space b = []"
    using drop_blank_tail_split by blast
  have "list_all skip_line bs" using bs(2) by (simp add: list_all_iff skip_line_def)
  then have "row_entries (drop_blank_tail ls @ bs) = row_entries (drop_blank_tail ls)"
    by (cases "row_entries (drop_blank_tail ls)") (simp_all add: row_entries_append row_entries_skip)
  then show "row_entries (drop_blank_tail ls) = row_entries ls" using bs(1) by simp
  have "filter note_line bs = []" using bs(2) by (auto simp: note_line_def filter_empty_conv)
  then show "filter note_line (drop_blank_tail ls) = filter note_line ls"
    by (subst (2) bs(1)) simp
  show "set (drop_blank_tail ls) \<subseteq> set ls"
    by (subst (2) bs(1)) simp
qed

lemma render_rows_stable:
  assumes "request_ok req" and "\<forall>l\<in>set ls. settled_line req l" and "render_rows req ls = Inr (out, em)"
  shows "out = ls"
  using assms(2,3)
proof (induction ls arbitrary: out em)
  case (Cons l ls)
  show ?case
  proof (cases "skip_line l \<or> (\<exists>s. parse_line (trim_space l) = Inr (Some (retry_task, s)))")
    case True
    then show ?thesis using Cons by (auto split: sum.splits if_splits)
  next
    case False
    then obtain t i where t: "t \<in> set managed_tasks" "req t = Some i" "ci_enabled i" "l = canonical_line t (ci_schedule i)"
      using Cons.prems(1) by (auto simp: settled_line_def)
    then have "t \<noteq> retry_task" using managed_all(2) by auto
    then show ?thesis
      using Cons t enabled_parses [OF assms(1) t(1-3)] by (auto split: sum.splits)
  qed
qed simp

lemma wanted_fst: "(t, s) \<in> set (wanted req e) \<Longrightarrow> t = fst e"
  by (auto simp: wanted_def split: if_splits option.splits)

lemma wanted_iff:
  assumes "request_ok req" and "distinct (map fst es)" and "fst ` set es \<subseteq> set all_tasks"
  defines "es' \<equiv> concat (map (wanted req) es) @ concat (map (\<lambda>t. wanted req (t, [])) (filter (\<lambda>t. t \<notin> fst ` set es - {retry_task}) managed_tasks))"
  shows "map_of es' = requested_tasks req (map_of es)" "distinct (map fst es')"
proof -
  have len: "map fst (wanted req e) \<in> {[], [fst e]}" for e by (simp add: wanted_def split: option.splits)
  have dist: "distinct (map fst (concat (map (wanted req) xs))) \<and> set (map fst (concat (map (wanted req) xs))) \<subseteq> fst ` set xs"
    if "distinct (map fst xs)" for xs
    using that
  proof (induction xs)
    case (Cons x xs)
    obtain ws where ws: "map fst (concat (map (wanted req) xs)) = ws" by simp
    have eq: "map fst (concat (map (wanted req) (x # xs))) = map fst (wanted req x) @ ws" by (simp flip: ws)
    show ?case unfolding eq using Cons [unfolded ws] len [of x] by auto
  qed simp
  let ?rest = "filter (\<lambda>t. t \<notin> fst ` set es - {retry_task}) managed_tasks"
  have rest: "concat (map (\<lambda>t. wanted req (t, [])) ?rest) = concat (map (wanted req) (map (\<lambda>t. (t, [])) ?rest))"
    by (simp add: comp_def)
  have "distinct managed_tasks" by code_simp
  then have r: "distinct (map fst (map (\<lambda>t. (t, [])) ?rest))" by (simp add: comp_def)
  have apart: "fst ` set es \<inter> fst ` set (map (\<lambda>t. (t, [])) ?rest) = {}" using managed_all(2) by force
  show d: "distinct (map fst es')"
    unfolding es'_def rest map_append distinct_append
    using dist [OF assms(2)] dist [OF r] apart by blast
  have mem: "(t, s) \<in> set es' \<longleftrightarrow>
      (\<exists>e\<in>set es. (t, s) \<in> set (wanted req e)) \<or> (\<exists>t'\<in>set ?rest. (t, s) \<in> set (wanted req (t', [])))" for t s
    by (simp add: es'_def)
  have "(t, s) \<in> set es' \<longleftrightarrow> requested_tasks req (map_of es) t = Some s" for t s
  proof (cases "t = retry_task")
    case True
    have w: "(retry_task, s) \<in> set (wanted req e) \<longleftrightarrow> e = (retry_task, s)" for e
      by (cases e) (auto simp: wanted_def split: option.splits)
    have "(t, s) \<in> set es' \<longleftrightarrow> (t, s) \<in> set es"
      unfolding mem True w using managed_all(2) by auto
    then show ?thesis using True assms(2) by (simp add: requested_tasks_def)
  next
    case False
    have w: "(t, s) \<in> set (wanted req e) \<longleftrightarrow> fst e = t \<and> (\<exists>i. req t = Some i \<and> ci_enabled i \<and> s = ci_schedule i)" for e
      using False by (cases "req (fst e)") (auto simp: wanted_def)
    have "(t, s) \<in> set es' \<longleftrightarrow> (t \<in> fst ` set es \<or> t \<in> set ?rest) \<and> (\<exists>i. req t = Some i \<and> ci_enabled i \<and> s = ci_schedule i)"
      unfolding mem w by auto
    moreover have "t \<in> fst ` set es \<or> t \<in> set ?rest" if "req t = Some i" for i
      using assms(1) that by (auto simp: request_ok_def)
    ultimately have "(t, s) \<in> set es' \<longleftrightarrow> (\<exists>i. req t = Some i \<and> ci_enabled i \<and> s = ci_schedule i)" by blast
    then show ?thesis using False by (cases "req t") (auto simp: requested_tasks_def)
  qed
  then show "map_of es' = requested_tasks req (map_of es)"
    using map_of_eq_Some_iff [OF d] by (metis (no_types) ext not_None_eq)
qed

lemma row_entries_keys: "row_entries rows = Some es \<Longrightarrow> fst ` set es \<subseteq> set all_tasks"
  using row_entries_parts by fastforce

lemma filter_note: "filter note_line xs = filter note_line (filter skip_line xs)"
  by (induction xs) (auto simp: note_line_def)

lemma enabled_line_shape:
  "l \<in> set (enabled_line req t) \<Longrightarrow> \<exists>i. req t = Some i \<and> ci_enabled i \<and> l = canonical_line t (ci_schedule i)"
  by (cases "req t") (auto simp: enabled_line_def split: if_splits)

lemma enabled_no_line_end:
  assumes "request_ok req" and "t \<in> set managed_tasks" and "req t = Some i" and "ci_enabled i"
  shows "lf \<notin> set (canonical_line t (ci_schedule i)) \<and> cr \<notin> set (canonical_line t (ci_schedule i))"
proof -
  have t: "t \<in> set all_tasks" using assms(2) managed_all(1) by simp
  have "valid_schedule (ci_schedule i)" using assms by (auto simp: request_ok_def)
  then have "Go_Std.fields (ci_schedule i) \<noteq> []" by (auto simp: valid_schedule_def)
  then show ?thesis using canonical_no_line_end [OF t] by simp
qed

lemma requested_something:
  assumes "request_ok req"
  shows "requested_tasks req old \<noteq> Map.empty"
proof
  assume none: "requested_tasks req old = Map.empty"
  obtain t i where t: "req t = Some i" "ci_enabled i" using assms by (auto simp: request_ok_def)
  then have "t \<in> set managed_tasks" using assms by (auto simp: request_ok_def)
  then have "t \<noteq> retry_task" using managed_all(2) by auto
  then show False using fun_cong [OF none, of t] t by (simp add: requested_tasks_def)
qed

text \<open>The lines a rendering consists of.\<close>

lemma render_source_lines:
  assumes req: "request_ok req" and es: "row_entries (split_char lf (replace_crlf original)) = Some es" "distinct (map fst es)"
    and no_cr: "cr \<notin> set (replace_crlf original)"
  obtains ls es' where "render_source original req = Inr (join [lf] ls @ [lf])" and "row_entries ls = Some es'"
    and "map_of es' = requested_tasks req (map_of es)" and "distinct (map fst es')"
    and "\<forall>l\<in>set ls. settled_line req l" and "\<forall>l\<in>set ls. lf \<notin> set l \<and> cr \<notin> set l" and "drop_blank_tail (ls @ [[]]) = ls"
    and "filter note_line ls = filter note_line (split_char lf (replace_crlf original))"
proof -
  let ?rows = "split_char lf (replace_crlf original)"
  let ?new = "\<lambda>l. \<exists>t i. t \<in> set managed_tasks \<and> req t = Some i \<and> ci_enabled i \<and> l = canonical_line t (ci_schedule i)"
  obtain out where out: "render_rows req ?rows = Inr (out, fst ` set es - {retry_task})"
      "row_entries out = Some (concat (map (wanted req) es))" "filter skip_line out = filter skip_line ?rows"
      "\<forall>l\<in>set out. settled_line req l" "\<forall>l\<in>set out. l \<in> set ?rows \<or> \<not> skip_line l \<and> ?new l"
    using render_rows_ok [OF req es(1)] by blast
  define rest where "rest = filter (\<lambda>t. t \<notin> fst ` set es - {retry_task}) managed_tasks"
  define tail where "tail = concat (map (enabled_line req) rest)"
  let ?es = "concat (map (wanted req) es) @ concat (map (\<lambda>t. wanted req (t, [])) rest)"
  let ?ls = "drop_blank_tail (out @ tail)"
  have new: "?new l" if l: "l \<in> set tail" for l
  proof -
    obtain t where "t \<in> set managed_tasks" "l \<in> set (enabled_line req t)" using l by (auto simp: tail_def rest_def)
    then show ?thesis using enabled_line_shape by blast
  qed
  have sub: "l \<in> set out \<or> l \<in> set tail" if "l \<in> set ?ls" for l
    using that drop_blank_tail_entries(3) by fastforce
  show thesis
  proof (rule that [of ?ls ?es])
    show "render_source original req = Inr (join [lf] ?ls @ [lf])"
      using out(1) no_cr by (simp add: render_source_def tail_def rest_def)
    have "row_entries tail = Some (concat (map (\<lambda>t. wanted req (t, [])) rest))"
      unfolding tail_def by (rule tail_entries [OF req]) (auto simp: rest_def)
    then show "row_entries ?ls = Some ?es"
      using out(2) by (simp add: drop_blank_tail_entries(1) row_entries_append)
    show "map_of ?es = requested_tasks req (map_of es)" "distinct (map fst ?es)"
      unfolding rest_def by (fact wanted_iff [OF req es(2) row_entries_keys [OF es(1)]])+
    show "\<forall>l\<in>set ?ls. settled_line req l"
      using sub out(4) new unfolding settled_line_def by blast
    show "\<forall>l\<in>set ?ls. lf \<notin> set l \<and> cr \<notin> set l"
      using sub out(5) new enabled_no_line_end [OF req] split_char_no_sep split_char_subset no_cr by blast
    show "drop_blank_tail (?ls @ [[]]) = ?ls" by (rule drop_blank_tail_again)
    have "\<not> note_line l" if "l \<in> set tail" for l
      using new [OF that] enabled_parses(2) [OF req] by (auto simp: note_line_def)
    then have "filter note_line tail = []" by (auto simp: filter_empty_conv)
    then show "filter note_line ?ls = filter note_line ?rows"
      using filter_note [of out] filter_note [of ?rows] out(3) by (simp add: drop_blank_tail_entries(2))
  qed
qed

lemma text_of_lines:
  assumes "ls \<noteq> []" and "\<forall>l\<in>set ls. lf \<notin> set l \<and> cr \<notin> set l"
  shows "split_char lf (join [lf] ls @ [lf]) = ls @ [[]]" "cr \<notin> set (join [lf] ls @ [lf])"
proof -
  show "split_char lf (join [lf] ls @ [lf]) = ls @ [[]]"
    using join_snoc_empty [OF assms(1), of "[lf]"] split_char_join [of "ls @ [[]]" lf] assms(2) by auto
  show "cr \<notin> set (join [lf] ls @ [lf])" using set_join [of "[lf]" ls] assms(2) by auto
qed

text \<open>Settled lines that hold every requested entry are rendered as they are.\<close>

lemma render_again:
  assumes req: "request_ok req" and ls: "ls \<noteq> []" "\<forall>l\<in>set ls. lf \<notin> set l \<and> cr \<notin> set l"
    and entries: "row_entries ls = Some es" "map_of es = requested_tasks req old"
    and settled: "\<forall>l\<in>set ls. settled_line req l" and blank: "drop_blank_tail (ls @ [[]]) = ls"
  shows "render_source (join [lf] ls @ [lf]) req = Inr (join [lf] ls @ [lf])"
proof -
  have "row_entries (ls @ [[]]) = Some es" using entries(1) by (simp add: row_entries_append skip_line_def)
  then obtain out where out: "render_rows req (ls @ [[]]) = Inr (out, fst ` set es - {retry_task})"
    using render_rows_ok [OF req] by blast
  have same: "out = ls @ [[]]"
    by (rule render_rows_stable [OF req _ out]) (use settled in \<open>auto simp: settled_line_def skip_line_def\<close>)
  have none: "concat (map (enabled_line req) (filter (\<lambda>t. t \<notin> fst ` set es - {retry_task}) managed_tasks)) = []"
  proof (rule ccontr)
    assume "concat (map (enabled_line req) (filter (\<lambda>t. t \<notin> fst ` set es - {retry_task}) managed_tasks)) \<noteq> []"
    then obtain t where t: "t \<in> set managed_tasks" "t \<notin> fst ` set es - {retry_task}" "enabled_line req t \<noteq> []" by auto
    then have "t \<noteq> retry_task" using managed_all(2) by auto
    then have "map_of es t = None" using t(2) by (simp add: map_of_eq_None_iff)
    then have "requested_tasks req old t = None" using entries(2) by simp
    then show False
      using t(3) \<open>t \<noteq> retry_task\<close> by (cases "req t") (auto simp: enabled_line_def requested_tasks_def split: if_splits)
  qed
  have "replace_cr (replace_crlf (join [lf] ls @ [lf])) = join [lf] ls @ [lf]" using text_of_lines(2) [OF ls] by simp
  then show ?thesis
    by (simp only: render_source_def text_of_lines(1) [OF ls] out sum.case prod.case none append_Nil2 same blank)
qed

lemma rendered_text:
  assumes "parse_source original = (old, old_lines, [])" and "cr \<notin> set (replace_crlf original)" and req: "request_ok req"
  obtains rendered lines where "render_source original req = Inr rendered"
    and "parse_source rendered = (requested_tasks req old, lines, [])" and "lines \<noteq> []"
    and "filter note_line (split_char lf rendered) = filter note_line (split_char lf (replace_crlf original))"
    and "render_source rendered req = Inr rendered"
proof -
  obtain es where es: "row_entries (split_char lf (replace_crlf original)) = Some es" "distinct (map fst es)" "old = map_of es"
    using assms(1) by (auto simp: parse_source_valid)
  obtain ls es' where ls: "render_source original req = Inr (join [lf] ls @ [lf])" "row_entries ls = Some es'"
      "map_of es' = requested_tasks req old" "distinct (map fst es')" "\<forall>l\<in>set ls. settled_line req l"
      "\<forall>l\<in>set ls. lf \<notin> set l \<and> cr \<notin> set l" "drop_blank_tail (ls @ [[]]) = ls"
      "filter note_line ls = filter note_line (split_char lf (replace_crlf original))"
    by (rule render_source_lines [OF req es(1,2) assms(2)]) (use es(3) in auto)
  have ne: "es' \<noteq> []" "ls \<noteq> []" using requested_something [OF req, of old] ls(2,3) by auto
  note t = text_of_lines [OF ne(2) ls(6)]
  have "row_entries (ls @ [[]]) = Some es'" using ls(2) by (simp add: row_entries_append skip_line_def)
  then have "parse_source (join [lf] ls @ [lf]) = (requested_tasks req old, map (\<lambda>(t, s). canonical_line t s) es', [])"
    unfolding parse_source_valid using t ls(3,4) by simp
  moreover have "filter note_line (ls @ [[]]) = filter note_line ls" by (simp add: note_line_def)
  ultimately show thesis
    using that ls(1,8) ne(1) render_again [OF req ne(2) ls(6,2,3,5,7)] t(1) by simp
qed

text \<open>C10: rendering a requested schedule into a valid cron file is exact: the new text is valid again and
  says precisely what was asked, each managed task with its schedule if it is enabled and not at
  all otherwise, with the automatic retry task as it was; all comments are kept in their order;
  and rendering the same request again changes nothing.\<close>

theorem scheduler_render_exact:
  assumes "parse_source original = (old, old_lines, [])" and "cr \<notin> set (replace_crlf original)"
    and "normalize_request items = Inr req"
  shows "\<exists>rendered lines. render_source original req = Inr rendered \<and>
    parse_source rendered = (requested_tasks req old, lines, []) \<and> lines \<noteq> [] \<and>
    filter note_line (split_char lf rendered) = filter note_line (split_char lf (replace_crlf original)) \<and>
    render_source rendered req = Inr rendered"
  by (rule rendered_text [OF assms(1,2) normalize_request_ok [OF assms(3)]]) blast

subsection \<open>The transaction\<close>

record cron_source =
  cs_path :: string
  cs_data :: string
  cs_mode :: nat
  cs_sha :: string
  cs_tasks :: conf
  cs_lines :: "string list"
  cs_errors :: "string list"
  cs_retry :: bool
  cs_valid :: bool

definition scheduler_file_max :: "int" where
  "scheduler_file_max = 65536"

definition cron_path :: "runtime_config \<Rightarrow> string" where
  "cron_path cfg = path_join2 (rc_dir cfg) ''ascn_crontab.conf''"

definition read_source :: "(string \<Rightarrow> string) \<Rightarrow> runtime_config \<Rightarrow> cron_source io" where
  "read_source sha cfg =
     io_bind (io_wrap ''inspect ascn_crontab.conf: '' (fs_lstat (cron_path cfg))) (\<lambda>info.
       if \<not> is_regular info then io_fail (Msg ''ascn_crontab.conf is not a regular file'')
       else if int (node_size info) > scheduler_file_max then io_fail (Msg ''ascn_crontab.conf exceeds RouterForge safety limit'')
       else io_bind (io_wrap ''read ascn_crontab.conf: '' (fs_read_file (cron_path cfg))) (\<lambda>data.
         (case parse_source data of
            (tasks, ls, errors) \<Rightarrow>
              io_return \<lparr>cs_path = cron_path cfg, cs_data = data, cs_mode = node_perm info, cs_sha = sha data, cs_tasks = tasks,
                cs_lines = ls, cs_errors = errors, cs_retry = (conf_get tasks retry_task \<noteq> []), cs_valid = (errors = [])\<rparr>)))"

text \<open>\<open>look\<close> is \<^verbatim>\<open>exec.LookPath\<close> with the search path of the process.\<close>

fun find_executable :: "(string \<Rightarrow> string option) \<Rightarrow> string list \<Rightarrow> 'w host \<Rightarrow> string \<times> 'w host" where
  "find_executable look [] h = ([], h)"
| "find_executable look (raw # cs) h =
     (let c = trim_space raw in
      if c = [] then find_executable look cs h
      else if slash \<in> set c then
        (case on_os (fs_stat c) h of
           (Inl e, h1) \<Rightarrow> find_executable look cs h1
         | (Inr info, h1) \<Rightarrow> if is_regular info \<and> executable info then (c, h1) else find_executable look cs h1)
      else (case look c of Some p \<Rightarrow> (p, h) | None \<Rightarrow> find_executable look cs h))"

definition find_crontab :: "(string \<Rightarrow> string option) \<Rightarrow> 'w host \<Rightarrow> string \<times> 'w host" where
  "find_crontab look h = find_executable look [''/opt/bin/crontab'', ''/usr/bin/crontab'', ''crontab''] h"

definition compact_cron :: "string option \<Rightarrow> go_error option \<Rightarrow> string" where
  "compact_cron out err =
     (let t = trim_space (output_text out);
          t' = (if length t > 500 then take 500 t @ [CHR 0xE2, CHR 0x80, CHR 0xA6] else t) in
      if t' \<noteq> [] then t' else (case err of Some e \<Rightarrow> error_text e | None \<Rightarrow> ''unknown error''))"

definition cron_line_of :: "string \<Rightarrow> string" where
  "cron_line_of line =
     (case parse_line line of
        Inr (Some (task, schedule)) \<Rightarrow> canonical_line task schedule
      | _ \<Rightarrow> join '' '' (Go_Std.fields line))"

definition extract_lines :: "string \<Rightarrow> string list" where
  "extract_lines s =
     sort (map cron_line_of (filter (\<lambda>l. l \<noteq> [] \<and> contains_str l init_prefix)
       (map trim_space (split_char lf (replace_crlf s)))))"

definition same_strings :: "string list \<Rightarrow> string list \<Rightarrow> bool" where
  "same_strings a b \<longleftrightarrow> length a = length b \<and> sort a = sort b"

definition read_active :: "'w program \<Rightarrow> (string \<Rightarrow> string option) \<Rightarrow> 'w host \<Rightarrow> (go_error + string list) \<times> 'w host" where
  "read_active prog look h =
     (case find_crontab look h of
        (binary, h1) \<Rightarrow>
          if binary = [] then (Inl (Msg ''crontab binary not found''), h1)
          else case host_run prog 65536 binary [''-l''] h1 of
            ((out, Some e), h2) \<Rightarrow>
              (let t = to_lower (trim_space (output_text out)) in
               if contains_str t ''no crontab'' \<or> contains_str t ''no crontab for'' then (Inr [], h2)
               else (Inl (Msg (''read active crontab: '' @ compact_cron out (Some e))), h2))
          | ((out, None), h2) \<Rightarrow> (Inr (extract_lines (output_text out)), h2))"

definition run_update :: "'w program \<Rightarrow> runtime_config \<Rightarrow> 'w host \<Rightarrow> (string option \<times> go_error option) \<times> 'w host" where
  "run_update prog cfg h = host_run prog 16384 (rc_init cfg) [''update_crontab''] h"

definition is_same :: "go_error + string list \<Rightarrow> string list \<Rightarrow> bool" where
  "is_same got want = (case got of Inl e \<Rightarrow> False | Inr active \<Rightarrow> same_strings want active)"

definition rollback_scheduler ::
    "'w program \<Rightarrow> (string \<Rightarrow> string option) \<Rightarrow> runtime_config \<Rightarrow> cron_source \<Rightarrow> string list \<Rightarrow> 'w host \<Rightarrow> bool \<times> 'w host" where
  "rollback_scheduler prog look cfg src before h =
     (case on_os (write_file_atomic (cs_path src) (cs_data src) (cs_mode src)) h of
        (Inl e, h1) \<Rightarrow> (False, h1)
      | (Inr _, h1) \<Rightarrow>
     (case read_active prog look h1 of
        (got, h2) \<Rightarrow>
          if is_same got before then (True, h2)
          else case run_update prog cfg h2 of
            ((out, Some e), h3) \<Rightarrow> (False, h3)
          | ((out, None), h3) \<Rightarrow>
              (case read_active prog look h3 of (got, h4) \<Rightarrow> (is_same got before, h4))))"

record scheduler_result =
  sr_changed :: bool
  sr_verified :: bool
  sr_synced :: bool
  sr_rollback :: bool
  sr_sha :: string
  sr_task_count :: nat
  sr_active_count :: nat
  sr_retry :: bool
  sr_warnings :: "string list"

type_synonym scheduler_answer = "scheduler_result \<times> nat \<times> go_error option"

definition no_scheduler_result :: "scheduler_result" where
  "no_scheduler_result = \<lparr>sr_changed = False, sr_verified = False, sr_synced = False, sr_rollback = False, sr_sha = [],
     sr_task_count = 0, sr_active_count = 0, sr_retry = False, sr_warnings = []\<rparr>"

definition undo_scheduler ::
    "'w program \<Rightarrow> (string \<Rightarrow> string option) \<Rightarrow> runtime_config \<Rightarrow> cron_source \<Rightarrow> string list \<Rightarrow> scheduler_result \<Rightarrow>
     string \<Rightarrow> string \<Rightarrow> 'w host \<Rightarrow> scheduler_answer \<times> 'w host" where
  "undo_scheduler prog look cfg src before res lost restored h =
     (case rollback_scheduler prog look cfg src before h of
        (ok, h1) \<Rightarrow>
          if \<not> ok then ((res\<lparr>sr_rollback := False\<rparr>, 500, Some (Msg lost)), h1)
          else ((res\<lparr>sr_rollback := True\<rparr>, 409, Some (Msg restored)), h1))"

definition install_schedule ::
    "'w program \<Rightarrow> (string \<Rightarrow> string) \<Rightarrow> (string \<Rightarrow> string option) \<Rightarrow> runtime_config \<Rightarrow> cron_source \<Rightarrow> string list \<Rightarrow>
     string list \<Rightarrow> scheduler_result \<Rightarrow> 'w host \<Rightarrow> scheduler_answer \<times> 'w host" where
  "install_schedule prog sha look cfg src before new_lines res h =
     (case run_update prog cfg h of
        ((out, Some e), h1) \<Rightarrow>
          undo_scheduler prog look cfg src before res
            ''upstream update_crontab failed and previous scheduler state could not be restored''
            (''upstream update_crontab failed; previous scheduler state was restored: '' @ compact_cron out (Some e)) h1
      | ((out, None), h1) \<Rightarrow>
     (case read_active prog look h1 of
        (got, h2) \<Rightarrow>
          if \<not> is_same got new_lines then
            undo_scheduler prog look cfg src before res
              ''scheduler verification failed and previous scheduler state could not be restored''
              ''scheduler verification failed; previous scheduler state was restored'' h2
          else case on_os (read_source sha cfg) h2 of
            (Inl e, h3) \<Rightarrow> ((res, 500, Some e), h3)
          | (Inr published, h3) \<Rightarrow>
              ((res\<lparr>sr_sha := cs_sha published, sr_active_count := (case got of Inr a \<Rightarrow> length a | Inl _ \<Rightarrow> 0),
                    sr_verified := True, sr_synced := True\<rparr>, 200, None), h3)))"

definition write_schedule ::
    "'w program \<Rightarrow> (string \<Rightarrow> string) \<Rightarrow> (string \<Rightarrow> string option) \<Rightarrow> runtime_config \<Rightarrow> cron_source \<Rightarrow> string list \<Rightarrow>
     string \<Rightarrow> string list \<Rightarrow> scheduler_result \<Rightarrow> 'w host \<Rightarrow> scheduler_answer \<times> 'w host" where
  "write_schedule prog sha look cfg src before rendered new_lines res h =
     (if \<not> sr_changed res then install_schedule prog sha look cfg src before new_lines res h
      else case on_os (write_file_atomic (cs_path src) rendered (cs_mode src)) h of
        (Inl e, h1) \<Rightarrow> ((res, 500, Some (Wrap ''write ascn_crontab.conf: '' e)), h1)
      | (Inr _, h1) \<Rightarrow> install_schedule prog sha look cfg src before new_lines res h1)"

definition retry_warning :: "string" where
  "retry_warning = ''retry_load_geo is managed automatically by upstream Antiscan and was preserved unchanged.''"

definition change_schedule ::
    "'w program \<Rightarrow> (string \<Rightarrow> string) \<Rightarrow> (string \<Rightarrow> string option) \<Rightarrow> runtime_config \<Rightarrow> cron_source \<Rightarrow> string list \<Rightarrow>
     cron_request \<Rightarrow> 'w host \<Rightarrow> scheduler_answer \<times> 'w host" where
  "change_schedule prog sha look cfg src before req h =
     (case render_source (cs_data src) req of
        Inl e \<Rightarrow> ((no_scheduler_result, 400, Some e), h)
      | Inr rendered \<Rightarrow>
     (case parse_source rendered of
        (new_tasks, new_lines, errors) \<Rightarrow>
          if errors \<noteq> [] then ((no_scheduler_result, 400, Some (Msg ''rendered scheduler configuration failed validation'')), h)
          else if new_lines = [] then
            ((no_scheduler_result, 400, Some (Msg ''scheduler configuration must contain at least one Antiscan task'')), h)
          else
            (let retry = (conf_get new_tasks retry_task \<noteq> []);
                 res = no_scheduler_result\<lparr>sr_retry := retry, sr_task_count := length new_lines,
                         sr_changed := (cs_data src \<noteq> rendered), sr_warnings := (if retry then [retry_warning] else [])\<rparr> in
             if \<not> sr_changed res \<and> same_strings (cs_lines src) before
             then ((res\<lparr>sr_verified := True, sr_synced := True, sr_sha := cs_sha src, sr_active_count := length before\<rparr>, 200, None), h)
             else write_schedule prog sha look cfg src before rendered new_lines res h)))"

definition apply_scheduler ::
    "'w program \<Rightarrow> (string \<Rightarrow> string) \<Rightarrow> (string \<Rightarrow> string option) \<Rightarrow> runtime_config \<Rightarrow> cron_item list \<Rightarrow> string \<Rightarrow> 'w host \<Rightarrow>
     scheduler_answer \<times> 'w host" where
  "apply_scheduler prog sha look cfg items base h =
     (case normalize_request items of
        Inl e \<Rightarrow> ((no_scheduler_result, 400, Some e), h)
      | Inr req \<Rightarrow>
     (case on_os (read_source sha cfg) h of
        (Inl e, h1) \<Rightarrow> ((no_scheduler_result, 409, Some e), h1)
      | (Inr src, h1) \<Rightarrow>
      if \<not> cs_valid src then
        ((no_scheduler_result, 409, Some (Msg ''ascn_crontab.conf contains lines outside the pinned upstream scheduler contract'')), h1)
      else if trim_space base = [] \<or> base \<noteq> cs_sha src then
        ((no_scheduler_result, 409, Some (Msg ''ascn_crontab.conf changed since it was loaded; refresh before applying'')), h1)
      else
     (case read_active prog look h1 of
        (Inl e, h2) \<Rightarrow> ((no_scheduler_result, 409, Some e), h2)
      | (Inr before, h2) \<Rightarrow> change_schedule prog sha look cfg src before req h2)))"

subsection \<open>The status\<close>

record scheduler_status =
  ss_sha :: string
  ss_valid :: bool
  ss_synced :: bool
  ss_task_count :: nat
  ss_active_count :: nat
  ss_tasks :: "(string \<times> bool \<times> string \<times> bool) list"
  ss_errors :: "string list"

definition status_task :: "conf \<Rightarrow> string \<Rightarrow> string \<times> bool \<times> string \<times> bool" where
  "status_task tasks t =
     (let s = conf_get tasks t in
      (t, tasks t \<noteq> None, if s = [] then conf_get (map_of default_schedules) t else s, t = retry_task))"

definition read_status ::
    "'w program \<Rightarrow> (string \<Rightarrow> string) \<Rightarrow> (string \<Rightarrow> string option) \<Rightarrow> runtime_config \<Rightarrow> 'w host \<Rightarrow>
     (go_error + scheduler_status) \<times> 'w host" where
  "read_status prog sha look cfg h =
     (case on_os (read_source sha cfg) h of
        (Inl e, h1) \<Rightarrow> (Inl e, h1)
      | (Inr src, h1) \<Rightarrow>
     (case read_active prog look h1 of
        (Inl e, h2) \<Rightarrow> (Inl e, h2)
      | (Inr active, h2) \<Rightarrow>
          (Inr \<lparr>ss_sha = cs_sha src, ss_valid = cs_valid src, ss_synced = (cs_valid src \<and> same_strings (cs_lines src) active),
                ss_task_count = length (cs_lines src), ss_active_count = length active,
                ss_tasks = map (status_task (cs_tasks src)) all_tasks, ss_errors = cs_errors src\<rparr>, h2)))"

subsection \<open>What the transaction leaves behind\<close>

lemma fs_lstat_at: "\<lbrakk>fs_lstat p s = (Inr info, s'); node_at s p = Some n\<rbrakk> \<Longrightarrow> info = n"
  unfolding fs_lstat_def by (erule syscall_cases) auto

lemma read_source_only: "read_only (read_source sha cfg)"
  unfolding read_source_def by (auto intro!: read_only_composed split: prod.splits)

lemma read_source_reads:
  assumes "read_source sha cfg s = (Inr src, s')" and "node_at s (cron_path cfg) = Some (Regular m d)"
  shows "cs_path src = cron_path cfg \<and> cs_data src = d \<and> cs_mode src = m \<and> cs_sha src = sha d \<and>
    parse_source d = (cs_tasks src, cs_lines src, cs_errors src) \<and> (cs_valid src \<longleftrightarrow> cs_errors src = [])"
proof -
  obtain info data s1 s2 where 1: "fs_lstat (cron_path cfg) s = (Inr info, s1)" and 2: "fs_read_file (cron_path cfg) s1 = (Inr data, s2)"
    and src: "(case parse_source data of
            (tasks, ls, errors) \<Rightarrow>
              io_return \<lparr>cs_path = cron_path cfg, cs_data = data, cs_mode = node_perm info, cs_sha = sha data, cs_tasks = tasks,
                cs_lines = ls, cs_errors = errors, cs_retry = (conf_get tasks retry_task \<noteq> []), cs_valid = (errors = [])\<rparr>) s2
          = (Inr src, s')"
    using assms(1) by (auto simp: read_source_def io_bind_Inr io_wrap_Inr split: if_splits)
  have "info = Regular m d" by (rule fs_lstat_at [OF 1 assms(2)])
  moreover have "data = d"
    using fs_read_regular [OF 2] read_only_node_at [OF read_only_calls(1) 1] assms(2) by simp
  ultimately show ?thesis using src by (cases "parse_source d") (auto simp: node_perm_def)
qed

lemma find_executable_keeps: "find_executable look cs h = (b, h') \<Longrightarrow> node_at (fst h') = node_at (fst h)"
proof (induction look cs h rule: find_executable.induct)
  case (2 look raw cs h)
  obtain r h1 where 1: "on_os (fs_stat (trim_space raw)) h = (r, h1)" by (rule prod.exhaust)
  have "node_at (fst h1) = node_at (fst h)" by (rule on_os_read_only [OF read_only_calls(2) 1])
  then show ?case
    using 2 1 by (auto simp: Let_def split: if_splits sum.splits option.splits)
qed simp

lemma read_active_keeps:
  assumes "keeps_files prog P" and "p \<in> P" and "read_active prog look h = (r, h')"
  shows "node_at (fst h') p = node_at (fst h) p"
proof -
  obtain b h1 where 1: "find_crontab look h = (b, h1)" by (rule prod.exhaust)
  obtain out e h2 where 2: "host_run prog 65536 b [''-l''] h1 = ((out, e), h2)" by (metis prod.exhaust)
  show ?thesis
    using assms(3) find_executable_keeps [OF 1 [unfolded find_crontab_def]] host_run_keeps [OF assms(1) 2 assms(2)]
    by (cases e) (auto simp: read_active_def 1 2 Let_def split: if_splits)
qed

lemma run_update_keeps:
  "\<lbrakk>keeps_files prog P; p \<in> P; run_update prog cfg h = (r, h')\<rbrakk> \<Longrightarrow> node_at (fst h') p = node_at (fst h) p"
  unfolding run_update_def by (rule host_run_keeps)

text \<open>\<open>cron_is\<close>: the last program that ran was \<^verbatim>\<open>crontab -l\<close>, and it listed exactly these lines.\<close>

definition cron_is :: "'w program \<Rightarrow> (string \<Rightarrow> string option) \<Rightarrow> string list \<Rightarrow> 'w host \<Rightarrow> bool" where
  "cron_is prog look ls h \<longleftrightarrow>
     (\<exists>h1 h2 active. read_active prog look h1 = (Inr active, h2) \<and> mset active = mset ls \<and>
        node_at (fst h2) = node_at (fst h) \<and> snd h2 = snd h)"

lemma same_strings_mset: "same_strings a b \<longleftrightarrow> mset a = mset b"
  unfolding same_strings_def by (metis mset_sort mset_eq_length properties_for_sort sorted_sort)

lemma is_same_iff: "is_same got want \<longleftrightarrow> (\<exists>active. got = Inr active \<and> mset active = mset want)"
  by (auto simp: is_same_def same_strings_mset split: sum.splits)

text \<open>The situation of a transaction: the file it works on, what it held and what is written into it.\<close>

definition cron_answer ::
    "'w program \<Rightarrow> (string \<Rightarrow> string option) \<Rightarrow> cron_source \<Rightarrow> string \<Rightarrow> scheduler_answer \<Rightarrow> 'w host \<Rightarrow> bool" where
  "cron_answer prog look src rendered ans h \<longleftrightarrow>
     (case ans of (res, code, err) \<Rightarrow>
        (code = 200 \<longleftrightarrow> err = None) \<and> (sr_verified res \<longleftrightarrow> code = 200) \<and> (sr_rollback res \<longleftrightarrow> code = 409) \<and>
        (\<exists>now. node_at (fst h) (cs_path src) = Some (Regular (cs_mode src) now) \<and>
           (if code = 200 then now = rendered \<and> cron_is prog look (fst (snd (parse_source rendered))) h
            else now = cs_data src \<or> code = 500 \<and> now = rendered)))"

lemma rollback_scheduler_file:
  assumes k: "keeps_files prog {cs_path src}" and t: "target_ok (cs_path src)"
    and at: "node_at (fst h) (cs_path src) = Some (Regular (cs_mode src) now)"
    and run: "rollback_scheduler prog look cfg src before h = (ok, h')"
  shows "node_at (fst h') (cs_path src) = Some (Regular (cs_mode src) (cs_data src)) \<or>
    \<not> ok \<and> node_at (fst h') (cs_path src) = Some (Regular (cs_mode src) now)"
proof -
  obtain r h1 where 1: "on_os (write_file_atomic (cs_path src) (cs_data src) (cs_mode src)) h = (r, h1)" by (rule prod.exhaust)
  have w: "write_file_atomic (cs_path src) (cs_data src) (cs_mode src) (fst h) = (r, fst h1)" using on_os_fst [OF 1] by simp
  obtain g1 h2 where 2: "read_active prog look h1 = (g1, h2)" by (rule prod.exhaust)
  obtain out e h3 where 3: "run_update prog cfg h2 = ((out, e), h3)" by (metis prod.exhaust)
  obtain g2 h4 where 4: "read_active prog look h3 = (g2, h4)" by (rule prod.exhaust)
  note kept = read_active_keeps [OF k _ 2] run_update_keeps [OF k _ 3] read_active_keeps [OF k _ 4]
  show ?thesis
  proof (cases r)
    case (Inl err)
    then show ?thesis using wfa.kept [OF t] w at run by (auto simp: rollback_scheduler_def 1)
  next
    case (Inr x)
    then have "node_at (fst h1) (cs_path src) = Some (Regular (cs_mode src) (cs_data src))"
      using wfa.published [OF t] w by simp
    then show ?thesis
      using run Inr kept by (cases e) (auto simp: rollback_scheduler_def 1 2 3 4 split: if_splits)
  qed
qed

lemma undo_scheduler_answer:
  assumes "keeps_files prog {cs_path src}" and "target_ok (cs_path src)"
    and "node_at (fst h) (cs_path src) = Some (Regular (cs_mode src) now)" and "now = cs_data src \<or> now = rendered"
    and "\<not> sr_verified res"
    and run: "undo_scheduler prog look cfg src before res lost restored h = (ans, h')"
  shows "cron_answer prog look src rendered ans h'"
proof -
  obtain ok h1 where 1: "rollback_scheduler prog look cfg src before h = (ok, h1)" by (rule prod.exhaust)
  show ?thesis
    using rollback_scheduler_file [OF assms(1-3) 1] assms(4,5) run
    by (cases ok) (auto simp: undo_scheduler_def 1 cron_answer_def)
qed

lemma install_schedule_answer:
  assumes k: "keeps_files prog {cs_path src}" and t: "target_ok (cs_path src)"
    and at: "node_at (fst h) (cs_path src) = Some (Regular (cs_mode src) rendered)"
    and new: "new_lines = fst (snd (parse_source rendered))" and res: "\<not> sr_verified res" "\<not> sr_rollback res"
    and run: "install_schedule prog sha look cfg src before new_lines res h = (ans, h')"
  shows "cron_answer prog look src rendered ans h'"
proof -
  obtain out e h1 where u: "run_update prog cfg h = ((out, e), h1)" by (metis prod.exhaust)
  obtain got h2 where a: "read_active prog look h1 = (got, h2)" by (rule prod.exhaust)
  obtain pub h3 where p: "on_os (read_source sha cfg) h2 = (pub, h3)" by (rule prod.exhaust)
  have n1: "node_at (fst h1) (cs_path src) = Some (Regular (cs_mode src) rendered)"
    using run_update_keeps [OF k _ u] at by simp
  have n2: "node_at (fst h2) (cs_path src) = Some (Regular (cs_mode src) rendered)"
    using read_active_keeps [OF k _ a] n1 by simp
  have n3: "node_at (fst h3) = node_at (fst h2)" by (rule on_os_read_only [OF read_source_only p])
  note undo = undo_scheduler_answer [OF k t _ disjI2 [OF refl] res(1)]
  consider x where "e = Some x" | "e = None" "\<not> is_same got new_lines"
    | active where "e = None" "got = Inr active" "mset active = mset new_lines" "is_same got new_lines"
    by (cases e) (auto simp: is_same_iff)
  then show ?thesis
  proof cases
    case 1
    then show ?thesis using run by (auto simp: install_schedule_def u intro: undo [OF n1])
  next
    case 2
    then show ?thesis
      using run undo [OF n2] by (auto simp: install_schedule_def u a)
  next
    case 3
    have "snd h3 = snd h2" using on_os_fst [OF p] by simp
    then have "cron_is prog look new_lines h3"
      unfolding cron_is_def using a 3(2,3) n3 by metis
    then have ci: "cron_is prog look (fst (snd (parse_source rendered))) h3" using new by simp
    have "install_schedule prog sha look cfg src before new_lines res h =
      (case pub of Inl e \<Rightarrow> ((res, 500, Some e), h3)
       | Inr published \<Rightarrow> ((res\<lparr>sr_sha := cs_sha published, sr_active_count := length active,
                    sr_verified := True, sr_synced := True\<rparr>, 200, None), h3))"
      by (cases pub) (simp_all add: install_schedule_def u 3(1) a [unfolded 3(2)] 3(4) [unfolded 3(2)] p)
    then show ?thesis
      using run n2 n3 res ci by (cases pub) (auto simp: cron_answer_def)
  qed
qed

lemma write_schedule_answer:
  assumes k: "keeps_files prog {cs_path src}" and t: "target_ok (cs_path src)"
    and at: "node_at (fst h) (cs_path src) = Some (Regular (cs_mode src) (cs_data src))"
    and new: "new_lines = fst (snd (parse_source rendered))" and res: "\<not> sr_verified res" "\<not> sr_rollback res"
      "sr_changed res \<longleftrightarrow> cs_data src \<noteq> rendered"
    and run: "write_schedule prog sha look cfg src before rendered new_lines res h = (ans, h')"
  shows "cron_answer prog look src rendered ans h'"
proof (cases "sr_changed res")
  case False
  have at': "node_at (fst h) (cs_path src) = Some (Regular (cs_mode src) rendered)" using False at res(3) by simp
  have "install_schedule prog sha look cfg src before new_lines res h = (ans, h')"
    using False run by (simp add: write_schedule_def)
  then show ?thesis by (rule install_schedule_answer [OF k t at' new res(1,2)])
next
  case True
  obtain r h1 where 1: "on_os (write_file_atomic (cs_path src) rendered (cs_mode src)) h = (r, h1)" by (rule prod.exhaust)
  have w: "write_file_atomic (cs_path src) rendered (cs_mode src) (fst h) = (r, fst h1)" using on_os_fst [OF 1] by simp
  show ?thesis
  proof (cases r)
    case (Inl e)
    then have at': "node_at (fst h1) (cs_path src) = Some (Regular (cs_mode src) (cs_data src))"
      using wfa.kept [OF t] w at by simp
    have "ans = (res, 500, Some (Wrap ''write ascn_crontab.conf: '' e))" "h' = h1"
      using run True Inl by (simp_all add: write_schedule_def 1)
    then show ?thesis using at' res(1,2) by (simp add: cron_answer_def)
  next
    case (Inr x)
    then have at': "node_at (fst h1) (cs_path src) = Some (Regular (cs_mode src) rendered)"
      using wfa.published [OF t] w by simp
    have "install_schedule prog sha look cfg src before new_lines res h1 = (ans, h')"
      using True Inr run by (simp add: write_schedule_def 1)
    then show ?thesis by (rule install_schedule_answer [OF k t at' new res(1,2)])
  qed
qed

lemma change_schedule_answer:
  assumes k: "keeps_files prog {cs_path src}" and t: "target_ok (cs_path src)"
    and at: "node_at (fst h) (cs_path src) = Some (Regular (cs_mode src) (cs_data src))"
    and valid: "parse_source (cs_data src) = (cs_tasks src, cs_lines src, [])" and no_cr: "cr \<notin> set (replace_crlf (cs_data src))"
    and req: "request_ok req" and active: "read_active prog look h0 = (Inr before, h)"
    and run: "change_schedule prog sha look cfg src before req h = (ans, h')"
  shows "\<exists>rendered lines. parse_source rendered = (requested_tasks req (cs_tasks src), lines, []) \<and>
    cron_answer prog look src rendered ans h'"
proof -
  obtain rendered lines where r: "render_source (cs_data src) req = Inr rendered"
      "parse_source rendered = (requested_tasks req (cs_tasks src), lines, [])" "lines \<noteq> []"
    by (rule rendered_text [OF valid no_cr req])
  define retry where "retry = (conf_get (requested_tasks req (cs_tasks src)) retry_task \<noteq> [])"
  define res where "res = no_scheduler_result\<lparr>sr_retry := retry, sr_task_count := length lines,
      sr_changed := (cs_data src \<noteq> rendered), sr_warnings := (if retry then [retry_warning] else [])\<rparr>"
  have res: "\<not> sr_verified res" "\<not> sr_rollback res" "sr_changed res \<longleftrightarrow> cs_data src \<noteq> rendered"
    by (simp_all add: res_def no_scheduler_result_def)
  have answer: "(if \<not> sr_changed res \<and> same_strings (cs_lines src) before
     then ((res\<lparr>sr_verified := True, sr_synced := True, sr_sha := cs_sha src, sr_active_count := length before\<rparr>, 200, None), h)
     else write_schedule prog sha look cfg src before rendered lines res h) = (ans, h')"
    using run r(3) unfolding change_schedule_def by (simp only: r(1,2) sum.case prod.case Let_def retry_def res_def) simp
  have "cron_answer prog look src rendered ans h'"
  proof (cases "\<not> sr_changed res \<and> same_strings (cs_lines src) before")
    case True
    then have same: "rendered = cs_data src" "lines = cs_lines src" using res(3) r(2) valid by auto
    have "mset before = mset (cs_lines src)" using True by (simp add: same_strings_mset)
    then have "cron_is prog look (cs_lines src) h" unfolding cron_is_def using active by blast
    then show ?thesis using answer True at same res(2) valid by (auto simp: cron_answer_def)
  next
    case False
    then have "write_schedule prog sha look cfg src before rendered lines res h = (ans, h')" using answer by argo
    moreover have "lines = fst (snd (parse_source rendered))" by (simp add: r(2))
    ultimately show ?thesis using write_schedule_answer [OF k t at _ res] by blast
  qed
  then show ?thesis using r(2) by blast
qed

text \<open>\<open>carries_out items data now\<close>: the text \<open>now\<close> says what the request asks for, given that it was \<open>data\<close>.\<close>

definition carries_out :: "cron_item list \<Rightarrow> string \<Rightarrow> string \<Rightarrow> bool" where
  "carries_out items data now \<longleftrightarrow>
     (\<exists>req old old_lines lines. normalize_request items = Inr req \<and> parse_source data = (old, old_lines, []) \<and>
        parse_source now = (requested_tasks req old, lines, []))"


subsection \<open>An example\<close>

definition example_cron :: "string" where
  "example_cron = ''# tasks'' @ [lf] @ ''*/5 * * * * /opt/etc/init.d/S99ascn read_candidates &'' @ [lf]"

definition example_items :: "cron_item list" where
  "example_items =
     [\<lparr>ci_task = ''read_candidates'', ci_enabled = False, ci_schedule = []\<rparr>,
      \<lparr>ci_task = ''read_ndm_ipsets'', ci_enabled = False, ci_schedule = []\<rparr>,
      \<lparr>ci_task = ''save_ipsets'', ci_enabled = True, ci_schedule = ''0 0 */5 * *''\<rparr>,
      \<lparr>ci_task = ''update_ipsets geo'', ci_enabled = False, ci_schedule = []\<rparr>]"

definition example_cron_config :: "runtime_config" where
  "example_cron_config = \<lparr>rc_dir = ''/a'', rc_init = ''/i'', rc_status = ''/s'', rc_config_lock = ''/c'', rc_geo_lock = ''/g''\<rparr>"

text \<open>A host whose \<^verbatim>\<open>update_crontab\<close> copies the cron file into the installed table.\<close>

definition cron_program :: "string program" where
  "cron_program program args h =
     (if args = [''-l''] then ((snd h, None), h)
      else (([], None), (fst h, case node_at (fst h) ''/a/ascn_crontab.conf'' of Some (Regular m c) \<Rightarrow> c | _ \<Rightarrow> snd h)))"

definition cron_host :: "string host" where
  "cron_host = (\<lparr>tree = [(''/a'', Directory 493), (''/a/ascn_crontab.conf'', Regular 420 example_cron)],
     faults = [], entropy = [''1'', ''2''], realpath = Inr\<rparr>, [])"

definition tagged :: "string \<Rightarrow> string" where
  "tagged t = CHR ''h'' # t"

theorem scheduler_render_exact_witness:
  "\<exists>req rendered lines. normalize_request example_items = Inr req \<and> render_source example_cron req = Inr rendered \<and>
     parse_source rendered = ([''save_ipsets'' \<mapsto> ''0 0 */5 * *''], lines, []) \<and>
     render_source rendered req = Inr rendered"
proof -
  have n: "case normalize_request example_items of Inl e \<Rightarrow> False
    | Inr req \<Rightarrow> map (requested_tasks req Map.empty) all_tasks = [None, None, Some ''0 0 */5 * *'', None, None]" by code_simp
  then obtain req where req: "normalize_request example_items = Inr req" by (auto split: sum.splits)
  have p: "snd (snd (parse_source example_cron)) = []" "fst (parse_source example_cron) retry_task = None"
    "cr \<notin> set (replace_crlf example_cron)" by code_simp+
  obtain old old_lines where old: "parse_source example_cron = (old, old_lines, [])" using p(1) by (metis prod.collapse)
  obtain rendered lines where r: "render_source example_cron req = Inr rendered"
      "parse_source rendered = (requested_tasks req old, lines, [])" "render_source rendered req = Inr rendered"
    using scheduler_render_exact [OF old p(3) req] by blast
  have "requested_tasks req old t = [''save_ipsets'' \<mapsto> ''0 0 */5 * *''] t" for t
  proof (cases "t \<in> set all_tasks")
    case True
    then show ?thesis
      using n req p(2) old by (auto simp: all_tasks_def requested_tasks_def retry_task_def)
  next
    case False
    then have "req t = None" using normalize_request_ok [OF req] managed_all(1) by (auto simp: request_ok_def)
    then show ?thesis
      using False by (auto simp: requested_tasks_def all_tasks_def retry_task_def)
  qed
  then show ?thesis using req r by (intro exI conjI) (auto simp: fun_eq_iff)
qed


end
