(* ===== verification/Spec2Isabelle.thy ===== *)
theory Spec2Isabelle
  imports Transaction Safety_File Events Safety_Path Logpolicy Config_Vault Vault_Restore Auth Dns_Activation Dns_Store Dns_Ingress Antiscan_Config Antiscan_Cron
begin

text \<open>
  \<^bold>\<open>RouterForge, verified parts.\<close> RouterForge is a control panel for Keenetic routers: a core service
  with a web interface, modules that run as their own services (DNS, Antiscan, NFQWS, network tools and
  others), and internal packages they share. All of it is Go. This library models the parts that decide
  something and that have to survive failures: the safe handling of files, the shared platform packages,
  the authentication of the core, the policy engine of the DNS module, and the manager of the Antiscan
  package.

  \<^bold>\<open>How the parts depend on each other.\<close> Every component that changes files does it through
  \<^verbatim>\<open>internal/safety\<close>: a write is a temporary file, a sync and a rename, and a path is resolved
  inside allowed roots first. The configuration vault, the authentication settings, the log policy, the
  DNS rules file and the Antiscan editors are clients of it. The DNS module stores a rules document
  (\<^verbatim>\<open>dns_policy_store.go\<close>), validates it (\<^verbatim>\<open>dns_policy.go\<close>), loads it into the resolver
  (\<^verbatim>\<open>dns_policy_shadow.go\<close>), which parses every query (\<^verbatim>\<open>dns.go\<close>), evaluates the rules on it and sends it
  out with the mark of the policy; an activation (\<^verbatim>\<open>dns_policy_activation.go\<close>) turns this on as a
  transaction recorded in a manifest (\<^verbatim>\<open>internal/platform/transaction\<close>) and redirects the clients with
  firewall rules (\<^verbatim>\<open>dns_policy_ingress.go\<close>). \<open>persisted_policy_is_enforced\<close> below follows one rule all the way.
  The Antiscan manager edits two files of a package it does not own, lets the package's init script take
  them over, checks the result and goes back when it is not what was asked.

  \<^bold>\<open>Conventions.\<close> A Go string is the list of its bytes (\<open>string\<close>), a \<^verbatim>\<open>struct\<close> a record, an error a value of
  \<open>go_error\<close>, a function with an error result a function into \<open>go_error + 'a\<close>. The operating system is the
  record \<open>os\<close> of \<open>Go_Fs\<close>: a finite tree of nodes, a list of faults that says which of the following
  system calls fail, the random suffixes of temporary files and the resolution of symbolic links; an
  operation is a function \<open>os \<Rightarrow> (go_error + 'a) \<times> os\<close>, so every theorem about files speaks about every
  pattern of failing calls. External programs, cryptographic digests, JSON codecs, \<^verbatim>\<open>iptables\<close>, sockets and
  the clock are parameters. Integers whose width matters are words (\<open>Dns_Wire\<close>, \<open>Dns_Shadow\<close>, \<open>Go_Net\<close>) or
  \<open>int\<close> with the saturation of \<^verbatim>\<open>time.Duration\<close> and \<^verbatim>\<open>ParseInt\<close> written out (\<open>Go_Std\<close>, \<open>Go_Text\<close>).

  \<^bold>\<open>Theories.\<close>
  \<^item> \<open>Prelude\<close>: list, sorting and sum lemmas; the locales \<open>tail_buffer\<close> (keep the newest entries), \<open>strict_weak\<close>
    and \<open>key_order\<close> (comparison functions given to a sort).
  \<^item> \<open>Go_Std\<close>, \<open>Go_Text\<close>, \<open>Go_Path\<close>, \<open>Go_Net\<close>, \<open>Go_Fs\<close>: the Go library as the sources use it. \<open>Go_Fs\<close> has the frame rules
    (\<open>touches\<close>, \<open>read_only\<close>) that say which paths an operation can change.
  \<^item> \<open>Safety_File\<close> (\<^verbatim>\<open>internal/safety/atomic.go\<close>, \<^verbatim>\<open>swap.go\<close>, \<^verbatim>\<open>command.go\<close>): \<open>write_file_atomic\<close>, \<open>swap_path\<close>, the guard of
    commands, and the locale \<open>atomic_writer\<close>, the contract its clients rest on. \<open>Safety_Path\<close>
    (\<^verbatim>\<open>path.go\<close>): the resolver and the containment test.
  \<^item> \<open>Transaction\<close>, \<open>Events\<close>, \<open>Config_Vault\<close> (\<^verbatim>\<open>internal/platform\<close>), \<open>Logpolicy\<close> (\<^verbatim>\<open>internal/logpolicy\<close>).
  \<^item> \<open>Vault_Admin\<close>, \<open>Vault_Restore\<close> (\<^verbatim>\<open>components/control/maintenance_config_vault.go\<close>, \<^verbatim>\<open>..._prechange.go\<close>, \<^verbatim>\<open>..._restore.go\<close>):
    the handlers that capture, compare and restore the service's own configuration directory, on top of
    \<open>Config_Vault\<close>, \<open>Transaction\<close> and \<open>Safety_File\<close>; the contents of the directory are the function \<open>managed_sums\<close>.
  \<^item> \<open>Auth\<close> (\<^verbatim>\<open>components/core/auth.go\<close>).
  \<^item> \<open>Dns_Policy\<close>, \<open>Dns_Wire\<close>, \<open>Dns_Shadow\<close>, \<open>Dns_Store\<close>, \<open>Dns_Activation\<close>, \<open>Dns_Ingress\<close> (\<^verbatim>\<open>modules/dns/runtime\<close>).
  \<^item> \<open>Antiscan_Text\<close>, \<open>Antiscan_Host\<close>, \<open>Antiscan_Config\<close>, \<open>Antiscan_Cron\<close> (\<^verbatim>\<open>modules/antiscan-manager-runtime\<close>): the text of
    \<^verbatim>\<open>ascn.conf\<close> (\<^verbatim>\<open>antiscan.go\<close>, \<^verbatim>\<open>config_transaction.go\<close>), the host with its programs and the lifecycle actions
    (\<^verbatim>\<open>lifecycle.go\<close>), the configuration transaction, and the scheduler (\<^verbatim>\<open>scheduler.go\<close>).

  \<^bold>\<open>What is shown.\<close> Files: after any failure a published file has its old or its new content, a swap is all or
  nothing, nothing outside an allowed root is reached. Vault: a captured snapshot is complete and verified,
  retention keeps what is protected and meets its limits, garbage collection deletes exactly what no
  snapshot uses; a restore ends with what it reports on disk and can be undone, and every operation on the managed
  directory is preceded by a complete snapshot. Logs: rotation loses only the oldest generation and RAM logging never touches the flash.
  Authentication: a protected request needs a granted, unexpired session, the switch survives restarts and
  fails closed, the login table is bounded. DNS rules: evaluation picks the best match whatever the stored order,
  validation is stable; messages: the name parser is total and exact, queries round-trip; resolver: every
  question is answered, a planned query carries the mark of its policy or is not sent; activation: it
  refines an abstract transaction, its calls come in the prescribed orders, clients always have a resolver;
  redirect: install and remove are inverse, removal is complete. Antiscan: the merge of a configuration and the
  rendering of a schedule are exact and keep the comments, and both applications are transactions whose answer
  tells what is on disk. Modelling showed several defects, listed as findings of the manifest; the lemmas
  \<open>unnamed_types_are_refused\<close>, \<open>removal_may_not_return\<close>, \<open>peak_exceeds_limit\<close>, \<open>denormal_domain_changes_on_reload\<close> and
  \<open>merge_again_grows\<close> prove them of the models.

  \<^bold>\<open>Bounds.\<close> Recursions follow their data or have a termination proof: the retention loop of the vault
  decreases the number of nodes in the tree, the eviction of logins the number of entries. Counters that
  end a recursion are limits of the program or of the kernel: \<open>max_links\<close> (40 symbolic links, then an error) and the
  round counter of the DNS name parser, 128 as in the code, which no accepted name reaches. The removal
  loop of the DNS redirect need not end and is a partial function; that it returns on a firewall that
  deletes what it lists is a theorem.

  \<^bold>\<open>Not modelled.\<close> Goroutines run one handler at a time, as their mutexes make them; the worker
  semaphore of the resolver is the exception and is a step relation. Strings are bytes, so the Unicode cases of
  \<^verbatim>\<open>strings\<close> and \<^verbatim>\<open>%q\<close> are restricted to ASCII. Time limits are errors of the program they stop. Decoding of
  requests and encoding of answers is the codec parameter or left out. Left out altogether, with the reason
  in the manifest: the web interfaces (Svelte and JavaScript), build and packaging scripts, the catalog and the app center of the core (mostly
  downloads and package manager calls), the statistics and the control plane of the DNS module (aggregation of live
  counters), the NFQWS strategy search, network tools, port access manager, monitoring and telemetry services.
\<close>

section \<open>From the stored rules to the enforced policy\<close>

text \<open>C1: the policy a client stored is the policy its queries get, across the API, the store, a restart
  and the resolver: after a PUT of rules that answered 200, whoever loads the rules file and starts
  the resolver on the loaded document, under whatever inventory it sees then, plans every query with
  the very evaluation that the rules as they were sent have, under the inventory they were
  checked against. The proviso is that no stored domain suffix would change when normalized again.\<close>

theorem persisted_policy_is_enforced:
  assumes "Dns_Store.codec_ok encode decode" and "store_target path"
    and put: "rules_put encode now action content_type body inventory path s = ((200, answer), s1)"
    and "faults s2 = []" and "node_at s2 path = node_at s1 path"
    and load: "store_load decode path s2 = (Inr doc, s3)" and normal_domains: "normal_domains (rd_rules doc)"
    and prep: "prepare_persisted doc offered listen upstream timeout workers = Inr cfg"
    and plan: "plan_query query client cfg routes = Return (Inr plan)"
  shows "\<exists>raw items. fst body = Inr raw \<and> inventory = Inr items \<and>
     evaluate_policy \<lparr>rq_client = client, rq_domain = dm_qname (pl_message plan),
        rq_qtype = qtype_name (dm_qtype (pl_message plan)), rq_rules = raw\<rparr> (Some (inventory_allowed items)) =
     Inr (pl_evaluation plan)"
proof -
  obtain raw items out where raw: "fst body = Inr raw" "inventory = Inr items"
    and v: "validate_rules raw (Some (inventory_allowed items)) = Inr out"
    and stored: "fst (store_load decode path s2) = Inr \<lparr>rd_version = rules_schema_version, rd_updated = now, rd_rules = out\<rparr>"
    using put_then_get [OF assms(1-5)] by metis
  have out: "rd_rules doc = out" using load stored by auto
  note cfg = prepared_rules [OF v normal_domains [unfolded out] prep out]
  let ?req = "\<lambda>rules. \<lparr>rq_client = client, rq_domain = dm_qname (pl_message plan),
        rq_qtype = qtype_name (dm_qtype (pl_message plan)), rq_rules = rules\<rparr>"
  have "evaluate_policy (?req (sc_rules cfg)) (sc_allowed cfg) = Inr (pl_evaluation plan)"
    using plan_evaluates [OF plan] by simp
  then have "evaluate_policy (?req raw) (Some (inventory_allowed items)) = Inr (pl_evaluation plan)"
    using evaluate_validated [OF v normal_domains [unfolded out] cfg(2), of "?req raw" "pl_evaluation plan"] cfg(1) by simp
  then show ?thesis using raw by blast
qed

theorem persisted_policy_witness:
  "\<exists>items. example_inventory = Inr items \<and>
     evaluate_policy \<lparr>rq_client = ''192.168.1.7'', rq_domain = ''www.corp'', rq_qtype = ''A'', rq_rules = example_rules\<rparr>
       (Some (inventory_allowed items)) =
     Inr \<lparr>pe_matched = True, pe_policy = ''System'', pe_rule_id = ''r1'', pe_priority = 5, pe_specificity = 2,
       pe_reasons = [''domain matched *.corp''], pe_evaluated = 2, pe_fallback = False\<rparr>"
proof -
  let ?put = "example_put []"
  let ?load = "store_load example_decode rules_path (snd ?put)"
  let ?prep = "prepare_persisted example_document (projr example_inventory) ''127.0.0.1:5353'' ''1.1.1.1:53'' 0 0"
  let ?plan = "plan_query (build_dns_query 7 ''www.Corp.'' 1) ''192.168.1.7'' (projr ?prep) Map.empty"
  let ?ev = "\<lparr>pe_matched = True, pe_policy = ''System'', pe_rule_id = ''r1'', pe_priority = 5, pe_specificity = 2,
     pe_reasons = [''domain matched *.corp''], pe_evaluated = 2, pe_fallback = False\<rparr>"
  have put: "fst ?put = (200, DocumentReply example_document)" "faults (snd ?put) = []"
    by code_simp+
  have load: "fst ?load = Inr example_document" by code_simp
  have nd: "normal_domains (rd_rules example_document)" by code_simp
  have "is_ok ?prep" by code_simp
  then have prep: "?prep = Inr (projr ?prep)" by (auto simp: is_ok_iff)
  have plan: "?plan = Return (Inr \<lparr>pl_message = \<lparr>dm_id = 7, dm_qr = False, dm_rcode = 0, dm_qname = ''www.corp'', dm_qtype = 1, dm_qdcount = 1\<rparr>,
      pl_evaluation = ?ev, pl_target = projr (resolve_egress ''System'' Map.empty)\<rparr>)"
    by code_simp
  have type: "qtype_name 1 = ''A''" by code_simp
  have p: "rules_put example_encode 42 ''dns-control'' ''application/json'' (Inr example_rules, True)
     example_inventory rules_path (store_os []) = ((200, DocumentReply example_document), snd ?put)"
    using put(1) by (metis example_put_def prod.collapse)
  have l: "?load = (Inr example_document, snd ?load)" using load by (metis prod.collapse)
  show ?thesis
    using persisted_policy_is_enforced [OF example_codec rules_path_target p put(2) refl l nd prep plan] by (auto simp: type)
qed

end
